(* ===== verification/Prelude.thy ===== *)
theory Prelude
  imports Main "HOL-Library.Word"
begin

text \<open>
  Shared vocabulary of the development.

  \<^item> machine data: bytes, pointers, the range of a C \<open>int\<close>, C's truncating division and
    the conversions the sources perform implicitly;
  \<^item> \<open>fault\<close>: what a C program can do instead of returning (dereference a null or
    dead pointer, free a dead pointer, exhaust its stack, divide by zero, overrun a buffer);
  \<^item> \<open>bindE\<close>: sequencing of statements that may fault, with its split and congruence rules;
  \<^item> \<open>fmt_d\<close>: the decimal rendering of \<open>printf\<close>'s \<open>%d\<close>, and \<open>buf_print\<close>: \<open>sprintf\<close> into a buffer.
\<close>

named_theorems heap_simps \<open>evaluation of loads and stores\<close>
named_theorems res_split \<open>case splits on results of statements that may fault\<close>

section \<open>Machine data\<close>

type_synonym byte = "8 word"
type_synonym ptr = nat

abbreviation (input) NULL :: ptr where "NULL \<equiv> 0"

definition INT_MAX :: int where "INT_MAX = 2147483647"
definition INT_MIN :: int where "INT_MIN = -2147483648"

definition in_int :: "int \<Rightarrow> bool" where
  "in_int x \<longleftrightarrow> INT_MIN \<le> x \<and> x \<le> INT_MAX"

text \<open>C's division truncates towards zero, \<open>div\<close> rounds down.\<close>

definition c_div :: "int \<Rightarrow> int \<Rightarrow> int" where
  "c_div a b = sgn a * sgn b * (\<bar>a\<bar> div \<bar>b\<bar>)"

lemma c_div_nonneg [simp]: "0 \<le> a \<Longrightarrow> c_div a 2 = a div 2"
  by (cases "a = 0") (auto simp: c_div_def sgn_if)

text \<open>C's remainder has the sign of the dividend, and a signed \<open>char\<close> assigned from an \<open>int\<close> keeps the
  low eight bits.\<close>

definition c_rem :: "int \<Rightarrow> int \<Rightarrow> int" where
  "c_rem a b = sgn a * (\<bar>a\<bar> mod \<bar>b\<bar>)"

definition char_of_int :: "int \<Rightarrow> byte" where
  "char_of_int x = of_int x"

text \<open>The cast \<open>(int)x\<close> of an \<open>unsigned long\<close>: the low 32 bits, read as two's complement.\<close>

definition int_of_long :: "64 word \<Rightarrow> int" where
  "int_of_long x = sint (ucast x :: 32 word)"

lemma int_of_long_in_int: "in_int (int_of_long x)"
  using sint_greater_eq [of "ucast x :: 32 word"] sint_less [of "ucast x :: 32 word"]
  by (simp add: in_int_def int_of_long_def INT_MIN_def INT_MAX_def)

section \<open>Statements that may fault\<close>

datatype fault =
    NullDeref
  | BadDeref
  | BadFree
  | StackOverflow
  | DivByZero
  | Overrun

primrec bindE :: "'e + 'a \<Rightarrow> ('a \<Rightarrow> 'e + 'b) \<Rightarrow> 'e + 'b" where
  "bindE (Inl e) f = Inl e"
| "bindE (Inr x) f = f x"

lemma bindE_split [res_split]:
  "P (bindE m f) \<longleftrightarrow> (\<forall>e. m = Inl e \<longrightarrow> P (Inl e)) \<and> (\<forall>x. m = Inr x \<longrightarrow> P (f x))"
  by (cases m) auto

lemma bindE_split_asm:
  "P (bindE m f) \<longleftrightarrow> \<not> ((\<exists>e. m = Inl e \<and> \<not> P (Inl e)) \<or> (\<exists>x. m = Inr x \<and> \<not> P (f x)))"
  by (cases m) auto

lemma bindE_Inr_iff: "bindE m f = Inr y \<longleftrightarrow> (\<exists>x. m = Inr x \<and> f x = Inr y)"
  by (cases m) auto

lemma bindE_Inl_iff: "bindE m f = Inl e \<longleftrightarrow> m = Inl e \<or> (\<exists>x. m = Inr x \<and> f x = Inl e)"
  by (cases m) auto

lemma bindE_cong [fundef_cong]:
  "m = m' \<Longrightarrow> (\<And>x. m' = Inr x \<Longrightarrow> f x = g x) \<Longrightarrow> bindE m f = bindE m' g"
  by (cases m') auto

lemma bindE_assoc: "bindE (bindE m f) g = bindE m (\<lambda>x. bindE (f x) g)"
  by (cases m) auto

section \<open>Decimal output\<close>

fun digits_of :: "nat \<Rightarrow> string" where
  "digits_of n = (if n < 10 then [char_of (48 + n)]
                  else digits_of (n div 10) @ [char_of (48 + n mod 10)])"

declare digits_of.simps [simp del]

definition fmt_d :: "int \<Rightarrow> string" where
  "fmt_d x = (if x < 0 then ''-'' @ digits_of (nat (- x)) else digits_of (nat x))"

lemma digits_of_nonempty: "digits_of n \<noteq> []"
  by (subst digits_of.simps) simp

lemma length_digits_of: "n < 10 ^ Suc k \<Longrightarrow> length (digits_of n) \<le> Suc k"
proof (induction k arbitrary: n)
  case 0
  then show ?case by (subst digits_of.simps) simp
next
  case (Suc k)
  have "n div 10 < 10 ^ Suc k" using Suc.prems by (simp add: div_less_iff_less_mult)
  from Suc.IH [OF this] show ?case by (subst digits_of.simps) simp
qed

text \<open>\<open>sprintf\<close> of the characters \<open>out\<close> and the terminator into a buffer of \<open>cap\<close> bytes.\<close>

definition buf_print :: "nat \<Rightarrow> string \<Rightarrow> fault + string" where
  "buf_print cap out = (if cap < length out + 1 then Inl Overrun else Inr out)"

end
