(* ===== verification/Buddy_Tree.thy ===== *)
theory Buddy_Tree
  imports Prelude
begin

text \<open>
  The abstract buddy tree: what the binary tree of \<open>hw5_vmm/buddy.c\<close> stands for once its
  pointers are forgotten. A node's index and size are determined by its position, so a tree
  is read over an interval \<open>[i, i + s)\<close> of the pool. \<open>t_alloc\<close>, \<open>t_free\<close> and
  \<open>t_size\<close> are the reference versions of the allocator's operations; \<open>blocks\<close> is
  what a client sees of a tree, the list of its allocated pages. The heap-level
  model of the code (theory Buddy) is proved to implement these.
\<close>

datatype btree = TFree | TAlloc | TSplit btree btree

section \<open>Operations\<close>

function split_down :: "int \<Rightarrow> int \<Rightarrow> btree" where
  "split_down s n = (if 1 \<le> n \<and> n \<le> s div 2 then TSplit (split_down (s div 2) n) TFree else TAlloc)"
  by pat_completeness auto
termination
  by (relation "measure (\<lambda>(s, n). nat s)") auto

declare split_down.simps [simp del]

fun t_alloc :: "int \<Rightarrow> int \<Rightarrow> btree \<Rightarrow> int \<Rightarrow> (int \<times> btree) option" where
  "t_alloc i s TFree n = (if s < n then None else Some (i, split_down s n))"
| "t_alloc i s TAlloc n = None"
| "t_alloc i s (TSplit l r) n =
     (case t_alloc i (s div 2) l n of
        Some (a, l') \<Rightarrow> Some (a, TSplit l' r)
      | None \<Rightarrow> (case t_alloc (i + s div 2) (s div 2) r n of
                   Some (a, r') \<Rightarrow> Some (a, TSplit l r')
                 | None \<Rightarrow> None))"

fun join :: "btree \<Rightarrow> btree \<Rightarrow> btree" where
  "join TFree TFree = TFree"
| "join l r = TSplit l r"

fun t_free :: "int \<Rightarrow> int \<Rightarrow> btree \<Rightarrow> int \<Rightarrow> bool \<times> btree" where
  "t_free i s TFree x = (False, TFree)"
| "t_free i s TAlloc x = (if i = x then (True, TFree) else (False, TAlloc))"
| "t_free i s (TSplit l r) x =
     (let (bl, l') = t_free i (s div 2) l x;
          (br, r') = t_free (i + s div 2) (s div 2) r x
      in (bl \<or> br, join l' r'))"

fun t_size :: "int \<Rightarrow> int \<Rightarrow> btree \<Rightarrow> int \<Rightarrow> int" where
  "t_size i s TFree x = -1"
| "t_size i s TAlloc x = (if i \<le> x \<and> x < i + s then i + s - x else -1)"
| "t_size i s (TSplit l r) x =
     (let rt = t_size (i + s div 2) (s div 2) r x
      in if rt < 0 then t_size i (s div 2) l x else rt)"

section \<open>Views and well-formedness\<close>

fun blocks :: "int \<Rightarrow> int \<Rightarrow> btree \<Rightarrow> (int \<times> int) list" where
  "blocks i s TFree = []"
| "blocks i s TAlloc = [(i, s)]"
| "blocks i s (TSplit l r) = blocks i (s div 2) l @ blocks (i + s div 2) (s div 2) r"

fun free_sizes :: "int \<Rightarrow> btree \<Rightarrow> int list" where
  "free_sizes s TFree = [s]"
| "free_sizes s TAlloc = []"
| "free_sizes s (TSplit l r) = free_sizes (s div 2) l @ free_sizes (s div 2) r"

text \<open>Every split halves at least two bytes; an allocated page has at least one.\<close>

fun t_wf :: "int \<Rightarrow> btree \<Rightarrow> bool" where
  "t_wf s TFree \<longleftrightarrow> 0 \<le> s"
| "t_wf s TAlloc \<longleftrightarrow> 1 \<le> s"
| "t_wf s (TSplit l r) \<longleftrightarrow> 2 \<le> s \<and> t_wf (s div 2) l \<and> t_wf (s div 2) r"

text \<open>Coalesced: no split whose two halves are both free.\<close>

fun coalesced :: "btree \<Rightarrow> bool" where
  "coalesced (TSplit l r) \<longleftrightarrow> \<not> (l = TFree \<and> r = TFree) \<and> coalesced l \<and> coalesced r"
| "coalesced t \<longleftrightarrow> True"

fun height :: "btree \<Rightarrow> nat" where
  "height (TSplit l r) = Suc (max (height l) (height r))"
| "height t = 0"

section \<open>Shape lemmas\<close>

lemma half_le: "0 \<le> (s::int) \<Longrightarrow> s div 2 + s div 2 \<le> s"
  by presburger

lemma t_wf_nonneg: "t_wf s t \<Longrightarrow> 0 \<le> s"
  by (cases t) auto

lemma height_bound: "t_wf s t \<Longrightarrow> 1 \<le> s \<Longrightarrow> 2 ^ height t \<le> s"
proof (induction t arbitrary: s)
  case (TSplit l r)
  have "1 \<le> s div 2" using TSplit.prems by auto
  then have "2 ^ height l \<le> s div 2" "2 ^ height r \<le> s div 2" using TSplit by auto
  then have "2 ^ max (height l) (height r) \<le> s div 2" by (simp add: max_def)
  then show ?case by simp
qed auto

lemma join_eq: "join l r = (if l = TFree \<and> r = TFree then TFree else TSplit l r)"
  by (cases l; cases r) auto

lemma coalesced_join: "coalesced l \<Longrightarrow> coalesced r \<Longrightarrow> coalesced (join l r)"
  by (simp add: join_eq)

lemma join_not_coalesced: "coalesced (TSplit l r) \<Longrightarrow> join l r = TSplit l r"
  by (auto simp: join_eq)

lemma blocks_join: "blocks i s (join l r) = blocks i s (TSplit l r)"
  by (simp add: join_eq)

lemma split_down_not_free [simp]: "split_down s n \<noteq> TFree"
  by (subst split_down.simps) simp

lemma split_down_wf: "1 \<le> n \<Longrightarrow> n \<le> s \<Longrightarrow> t_wf s (split_down s n)"
proof (induction s n rule: split_down.induct)
  case (1 s n)
  then show ?case by (subst split_down.simps) auto
qed

lemma split_down_coalesced: "coalesced (split_down s n)"
proof (induction s n rule: split_down.induct)
  case (1 s n)
  then show ?case by (subst split_down.simps) auto
qed

lemma t_alloc_split_iff:
  "t_alloc i s (TSplit l r) n = Some (a, t') \<longleftrightarrow>
     (\<exists>l'. t_alloc i (s div 2) l n = Some (a, l') \<and> t' = TSplit l' r) \<or>
     (t_alloc i (s div 2) l n = None \<and>
      (\<exists>r'. t_alloc (i + s div 2) (s div 2) r n = Some (a, r') \<and> t' = TSplit l r'))"
  by (auto split: option.splits)

lemma t_alloc_free_iff:
  "t_alloc i s TFree n = Some (a, t') \<longleftrightarrow> n \<le> s \<and> a = i \<and> t' = split_down s n"
  by auto

lemmas t_alloc_iffs = t_alloc_split_iff t_alloc_free_iff t_alloc.simps(2)

lemma t_free_split:
  "fst (t_free i s (TSplit l r) x) \<longleftrightarrow>
     fst (t_free i (s div 2) l x) \<or> fst (t_free (i + s div 2) (s div 2) r x)"
  "snd (t_free i s (TSplit l r) x) =
     join (snd (t_free i (s div 2) l x)) (snd (t_free (i + s div 2) (s div 2) r x))"
  by (simp_all add: case_prod_beta Let_def)

declare t_alloc.simps [simp del] t_free.simps(3) [simp del]
declare t_free_split [simp]

text \<open>Induction along a successful allocation: the free leaf it lands in, and the way down.\<close>

lemma t_alloc_induct [consumes 1, case_names free left right]:
  assumes "t_alloc i s t n = Some (a, t')"
    and "\<And>i s. n \<le> s \<Longrightarrow> P i s TFree i (split_down s n)"
    and "\<And>i s l r a l'. t_alloc i (s div 2) l n = Some (a, l') \<Longrightarrow> P i (s div 2) l a l' \<Longrightarrow>
           P i s (TSplit l r) a (TSplit l' r)"
    and "\<And>i s l r a r'. t_alloc i (s div 2) l n = None \<Longrightarrow>
           t_alloc (i + s div 2) (s div 2) r n = Some (a, r') \<Longrightarrow>
           P (i + s div 2) (s div 2) r a r' \<Longrightarrow> P i s (TSplit l r) a (TSplit l r')"
  shows "P i s t a t'"
  using assms(1)
proof (induction t arbitrary: i s t')
  case TFree
  then show ?case using assms(2) by (auto simp: t_alloc_free_iff)
next
  case (TSplit l r)
  then show ?case using assms(3,4) by (simp only: t_alloc_iffs) blast
qed (simp add: t_alloc_iffs)

lemma t_alloc_not_free: "t_alloc i s t n = Some (a, t') \<Longrightarrow> t' \<noteq> TFree"
  by (induction rule: t_alloc_induct) simp_all

lemma t_alloc_wf:
  "t_alloc i s t n = Some (a, t') \<Longrightarrow> 1 \<le> n \<Longrightarrow> t_wf s t \<Longrightarrow> t_wf s t'"
  by (induction rule: t_alloc_induct) (simp_all add: split_down_wf)

lemma t_alloc_coalesced:
  "t_alloc i s t n = Some (a, t') \<Longrightarrow> coalesced t \<Longrightarrow> coalesced t'"
  by (induction rule: t_alloc_induct) (auto simp: split_down_coalesced dest: t_alloc_not_free)

lemma t_join_wf: "2 \<le> s \<Longrightarrow> t_wf (s div 2) l \<Longrightarrow> t_wf (s div 2) r \<Longrightarrow> t_wf s (join l r)"
  by (simp add: join_eq)

lemma t_free_wf: "t_wf s t \<Longrightarrow> t_wf s (snd (t_free i s t x))"
  by (induction t arbitrary: i s) (auto simp: t_join_wf)

lemma t_free_coalesced: "coalesced t \<Longrightarrow> coalesced (snd (t_free i s t x))"
  by (induction t arbitrary: i s) (auto simp: coalesced_join)

section \<open>Pages\<close>

lemma blocks_bounds:
  "t_wf s t \<Longrightarrow> (a, m) \<in> set (blocks i s t) \<Longrightarrow> i \<le> a \<and> 1 \<le> m \<and> a + m \<le> i + s"
proof (induction t arbitrary: i s)
  case (TSplit l r)
  have "0 \<le> s" and h: "s div 2 + s div 2 \<le> s" "0 \<le> s div 2"
    using TSplit.prems(1) half_le [of s] by auto
  from TSplit.prems consider "(a, m) \<in> set (blocks i (s div 2) l)"
    | "(a, m) \<in> set (blocks (i + s div 2) (s div 2) r)" by auto
  then show ?case
  proof cases
    case 1
    with TSplit have "i \<le> a \<and> 1 \<le> m \<and> a + m \<le> i + s div 2" by (metis t_wf.simps(3))
    with h show ?thesis by linarith
  next
    case 2
    with TSplit have "i + s div 2 \<le> a \<and> 1 \<le> m \<and> a + m \<le> i + s div 2 + s div 2"
      by (metis t_wf.simps(3))
    with h show ?thesis by linarith
  qed
qed auto

text \<open>Pages are listed from left to right and never overlap.\<close>

definition before :: "int \<times> int \<Rightarrow> int \<times> int \<Rightarrow> bool" where
  "before p q \<longleftrightarrow> fst p + snd p \<le> fst q"

lemma blocks_sorted: "t_wf s t \<Longrightarrow> sorted_wrt before (blocks i s t)"
proof (induction t arbitrary: i s)
  case (TSplit l r)
  have "before p q" if "p \<in> set (blocks i (s div 2) l)"
      and "q \<in> set (blocks (i + s div 2) (s div 2) r)" for p q
    using that TSplit.prems blocks_bounds [of "s div 2" l "fst p" "snd p" i]
      blocks_bounds [of "s div 2" r "fst q" "snd q" "i + s div 2"]
    by (auto simp: before_def)
  with TSplit show ?case by (auto simp: sorted_wrt_append)
qed auto

lemma blocks_no_overlap:
  assumes "t_wf s t" "(a, m) \<in> set (blocks i s t)" "(b, k) \<in> set (blocks i s t)"
    and "a \<le> x" "x < a + m" "b \<le> x" "x < b + k"
  shows "(a, m) = (b, k)"
proof -
  have srt: "sorted_wrt before (blocks i s t)" by (rule blocks_sorted [OF assms(1)])
  obtain u v where u: "u < length (blocks i s t)" "blocks i s t ! u = (a, m)"
    and v: "v < length (blocks i s t)" "blocks i s t ! v = (b, k)"
    using assms(2,3) by (auto simp: in_set_conv_nth)
  have "\<not> u < v" and "\<not> v < u"
    using sorted_wrt_nth_less [OF srt, of u v] sorted_wrt_nth_less [OF srt, of v u] u v assms(4-7)
    by (auto simp: before_def)
  then have "u = v" by simp
  with u v show ?thesis by simp
qed

lemma blocks_unique_idx:
  "t_wf s t \<Longrightarrow> (a, m) \<in> set (blocks i s t) \<Longrightarrow> (a, k) \<in> set (blocks i s t) \<Longrightarrow> m = k"
  using blocks_no_overlap [of s t a m i a k a] blocks_bounds [of s t a m i] blocks_bounds [of s t a k i]
  by auto

lemma blocks_nil_iff: "coalesced t \<Longrightarrow> blocks i s t = [] \<longleftrightarrow> t = TFree"
  by (induction t arbitrary: i s) auto

section \<open>What each operation does to the pages\<close>

lemma split_down_blocks:
  "1 \<le> n \<Longrightarrow> n \<le> s \<Longrightarrow> \<exists>m. blocks i s (split_down s n) = [(i, m)] \<and> n \<le> m \<and> m div 2 < n"
proof (induction s n rule: split_down.induct)
  case (1 s n)
  then show ?case
    by (cases "n \<le> s div 2") (auto simp: split_down.simps [of s n])
qed

lemma t_alloc_blocks:
  "t_alloc i s t n = Some (a, t') \<Longrightarrow> 1 \<le> n \<Longrightarrow>
     \<exists>m xs ys. blocks i s t = xs @ ys \<and> blocks i s t' = xs @ (a, m) # ys \<and> n \<le> m \<and> m div 2 < n"
proof (induction rule: t_alloc_induct)
  case (free i s)
  then show ?case using split_down_blocks [of n s i] by auto
next
  case (left i s l r a l')
  then obtain m xs ys where "blocks i (s div 2) l = xs @ ys"
    "blocks i (s div 2) l' = xs @ (a, m) # ys" "n \<le> m" "m div 2 < n" by auto
  then show ?case
    by (intro exI [of _ m] exI [of _ xs] exI [of _ "ys @ blocks (i + s div 2) (s div 2) r"]) simp
next
  case (right i s l r a r')
  then obtain m xs ys where "blocks (i + s div 2) (s div 2) r = xs @ ys"
    "blocks (i + s div 2) (s div 2) r' = xs @ (a, m) # ys" "n \<le> m" "m div 2 < n" by auto
  then show ?case
    by (intro exI [of _ m] exI [of _ "blocks i (s div 2) l @ xs"] exI [of _ ys]) simp
qed

lemma t_alloc_split_None:
  "t_alloc i s (TSplit l r) n = None \<longleftrightarrow>
     t_alloc i (s div 2) l n = None \<and> t_alloc (i + s div 2) (s div 2) r n = None"
  by (simp add: t_alloc.simps split: option.split)

lemma t_alloc_None_iff: "t_alloc i s t n = None \<longleftrightarrow> (\<forall>f \<in> set (free_sizes s t). f < n)"
proof (induction t arbitrary: i s)
  case TFree
  show ?case by (simp add: t_alloc.simps)
next
  case (TSplit l r)
  then show ?case by (simp only: t_alloc_split_None free_sizes.simps set_append ball_Un)
qed (simp add: t_alloc.simps)

lemma t_free_fst: "fst (t_free i s t x) \<longleftrightarrow> (\<exists>m. (x, m) \<in> set (blocks i s t))"
  by (induction t arbitrary: i s) auto

lemma t_free_blocks: "blocks i s (snd (t_free i s t x)) = filter (\<lambda>p. fst p \<noteq> x) (blocks i s t)"
  by (induction t arbitrary: i s) (auto simp: blocks_join)

lemma t_free_miss: "coalesced t \<Longrightarrow> \<not> fst (t_free i s t x) \<Longrightarrow> snd (t_free i s t x) = t"
  by (induction t arbitrary: i s) (auto simp: join_not_coalesced)

lemma split_down_free:
  "1 \<le> n \<Longrightarrow> n \<le> s \<Longrightarrow> t_free i s (split_down s n) i = (True, TFree)"
proof (induction s n rule: split_down.induct)
  case (1 s n)
  show ?case
  proof (cases "n \<le> s div 2")
    case True
    with 1 have "t_free i (s div 2) (split_down (s div 2) n) i = (True, TFree)" by simp
    with True 1(2) show ?thesis by (simp add: split_down.simps [of s n] prod_eq_iff)
  next
    case False
    then show ?thesis by (simp add: split_down.simps [of s n])
  qed
qed

lemma t_alloc_idx:
  "t_alloc i s t n = Some (a, t') \<Longrightarrow> 1 \<le> n \<Longrightarrow> t_wf s t \<Longrightarrow> i \<le> a \<and> a < i + s"
  using t_alloc_blocks [of i s t n a t'] t_alloc_wf [of i s t n a t']
    blocks_bounds [of s t' a _ i] by fastforce

text \<open>Freeing what was just allocated restores the tree, splits included.\<close>

lemma t_alloc_free:
  "t_alloc i s t n = Some (a, t') \<Longrightarrow> 1 \<le> n \<Longrightarrow> t_wf s t \<Longrightarrow> coalesced t \<Longrightarrow>
     t_free i s t' a = (True, t)"
proof (induction rule: t_alloc_induct)
  case (free i s)
  then show ?case by (simp add: split_down_free)
next
  case (left i s l r a l')
  then have IH: "t_free i (s div 2) l' a = (True, l)" by simp
  have "a < i + s div 2" using t_alloc_idx [OF left(1)] left.prems by simp
  then have "\<not> fst (t_free (i + s div 2) (s div 2) r a)"
    using blocks_bounds [of "s div 2" r a _ "i + s div 2"] left.prems by (force simp: t_free_fst)
  with IH left.prems show ?case
    by (simp add: prod_eq_iff t_free_miss join_not_coalesced)
next
  case (right i s l r a r')
  then have IH: "t_free (i + s div 2) (s div 2) r' a = (True, r)" by simp
  have "i + s div 2 \<le> a" using t_alloc_idx [OF right(2)] right.prems by simp
  then have "\<not> fst (t_free i (s div 2) l a)"
    using blocks_bounds [of "s div 2" l a _ i] right.prems by (force simp: t_free_fst)
  with IH right.prems show ?case
    by (simp add: prod_eq_iff t_free_miss join_not_coalesced)
qed

lemma t_size_outside:
  "\<forall>(a, m) \<in> set (blocks i s t). \<not> (a \<le> x \<and> x < a + m) \<Longrightarrow> t_size i s t x = -1"
  by (induction t arbitrary: i s) (auto simp: Let_def ball_Un)

lemma t_size_inside:
  assumes "t_wf s t" "(a, m) \<in> set (blocks i s t)" "a \<le> x" "x < a + m"
  shows "t_size i s t x = a + m - x"
  using assms
proof (induction t arbitrary: i s)
  case (TSplit l r)
  from TSplit.prems(2) consider (l) "(a, m) \<in> set (blocks i (s div 2) l)"
    | (r) "(a, m) \<in> set (blocks (i + s div 2) (s div 2) r)" by auto
  then show ?case
  proof cases
    case l
    then have "x < i + s div 2" using blocks_bounds [OF _ l] TSplit.prems by auto
    then have "t_size (i + s div 2) (s div 2) r x = -1"
      using TSplit.prems(1) blocks_bounds [of "s div 2" r _ _ "i + s div 2"]
      by (intro t_size_outside) fastforce
    with TSplit l show ?thesis by (simp add: Let_def)
  next
    case r
    with TSplit have "t_size (i + s div 2) (s div 2) r x = a + m - x" by simp
    with TSplit.prems show ?thesis by (simp add: Let_def)
  qed
qed auto

text \<open>With a power-of-two pool no byte is lost: every byte is in a page or in a free leaf.\<close>

lemma bytes_accounted:
  "t_wf (2 ^ k) t \<Longrightarrow>
     sum_list (map snd (blocks i (2 ^ k) t)) + sum_list (free_sizes (2 ^ k) t) = 2 ^ k"
proof (induction t arbitrary: i k)
  case (TSplit l r)
  then have "k \<noteq> 0" by (cases k) auto
  then obtain j where j: "k = Suc j" by (cases k) auto
  with TSplit show ?case by (simp add: algebra_simps)
qed auto

end
