(* ===== verification/Buddy.thy ===== *)
theory Buddy
  imports Buddy_Tree
begin

text \<open>
  The buddy allocator of \<open>hw5_vmm/buddy.c\<close> and \<open>buddy.h\<close> on an explicit heap of tree nodes.
  Every statement that touches a node is a load or a store that faults on a null or dead
  pointer; \<open>bmalloc\<close> (\<open>malloc\<close>/\<open>vmalloc\<close>, outside the repository) is a parameter, which
  may fail and leaves new memory with arbitrary contents; the recursions carry the
  number of stack frames left, so an endless recursion is the value \<open>StackOverflow\<close>.
  Theory Buddy_Refine shows that each operation implements its reference version of theory Buddy_Tree.
\<close>

section \<open>Nodes and the heap\<close>

datatype node_state = FREE | SPLIT | ALLOC

record node_t =
  n_idx :: int
  n_state :: node_state
  n_size :: int
  n_left :: ptr
  n_right :: ptr

type_synonym heap = "ptr \<Rightarrow> node_t option"

text \<open>
  The memory allocator the code is linked with: the address \<open>bmalloc(sizeof(node_t))\<close> returns
  in a given heap (\<open>NULL\<close> for failure), what a fresh node holds before it is
  written, whether \<open>bmalloc(size)\<close> of the pool succeeds, and the pool's initial bytes.
\<close>

record allocator =
  bm_node :: "heap \<Rightarrow> ptr"
  bm_junk :: "ptr \<Rightarrow> node_t"
  bm_pool :: "int \<Rightarrow> bool"
  bm_bytes :: "int \<Rightarrow> byte"

text \<open>The contract of \<open>malloc\<close>: memory it hands out is not in use.\<close>

definition malloc_ok :: "allocator \<Rightarrow> bool" where
  "malloc_ok am \<longleftrightarrow> (\<forall>h. bm_node am h = NULL \<or> h (bm_node am h) = None)"

text \<open>An allocator that can hold \<open>k\<close> nodes at a time.\<close>

definition malloc_serves :: "allocator \<Rightarrow> nat \<Rightarrow> bool" where
  "malloc_serves am k \<longleftrightarrow> (\<forall>h. finite (dom h) \<longrightarrow> card (dom h) < k \<longrightarrow> bm_node am h \<noteq> NULL)"

definition load :: "heap \<Rightarrow> ptr \<Rightarrow> fault + node_t" where
  "load h p = (if p = NULL then Inl NullDeref
               else case h p of None \<Rightarrow> Inl BadDeref | Some n \<Rightarrow> Inr n)"

definition modify :: "heap \<Rightarrow> ptr \<Rightarrow> (node_t \<Rightarrow> node_t) \<Rightarrow> fault + heap" where
  "modify h p f = bindE (load h p) (\<lambda>n. Inr (h(p \<mapsto> f n)))"

definition malloc_node :: "allocator \<Rightarrow> heap \<Rightarrow> ptr \<times> heap" where
  "malloc_node am h =
     (let a = bm_node am h in (a, if a = NULL then h else h(a \<mapsto> bm_junk am a)))"

definition bfree :: "heap \<Rightarrow> ptr \<Rightarrow> fault + heap" where
  "bfree h p = (if p = NULL then Inr h
                else case h p of None \<Rightarrow> Inl BadFree | Some n \<Rightarrow> Inr (h(p := None)))"

text \<open>\<open>n->left->field = e\<close> and \<open>n->right->field = e\<close>, where \<open>e\<close> may read \<open>n\<close>.\<close>

definition set_left :: "heap \<Rightarrow> ptr \<Rightarrow> (node_t \<Rightarrow> node_t \<Rightarrow> node_t) \<Rightarrow> fault + heap" where
  "set_left h p f = bindE (load h p) (\<lambda>n. modify h (n_left n) (f n))"

definition set_right :: "heap \<Rightarrow> ptr \<Rightarrow> (node_t \<Rightarrow> node_t \<Rightarrow> node_t) \<Rightarrow> fault + heap" where
  "set_right h p f = bindE (load h p) (\<lambda>n. modify h (n_right n) (f n))"

section \<open>The operations\<close>

text \<open>
  The body of the split in \<open>_buddy_alloc\<close>, one statement per line: first the state and
  the two \<open>bmalloc\<close> calls, then the children's fields.
\<close>

definition attach_children :: "allocator \<Rightarrow> ptr \<Rightarrow> heap \<Rightarrow> fault + heap" where
  "attach_children am p h =
     bindE (modify h p (n_state_update (\<lambda>_. SPLIT))) (\<lambda>h.
     case malloc_node am h of (l, h) \<Rightarrow>
     bindE (modify h p (n_left_update (\<lambda>_. l))) (\<lambda>h.
     case malloc_node am h of (r, h) \<Rightarrow>
     modify h p (n_right_update (\<lambda>_. r))))"

definition init_children :: "ptr \<Rightarrow> heap \<Rightarrow> fault + heap" where
  "init_children p h =
     bindE (set_left h p (\<lambda>n. n_state_update (\<lambda>_. FREE))) (\<lambda>h.
     bindE (set_right h p (\<lambda>n. n_state_update (\<lambda>_. FREE))) (\<lambda>h.
     bindE (set_left h p (\<lambda>n. n_size_update (\<lambda>_. c_div (n_size n) 2))) (\<lambda>h.
     bindE (set_right h p (\<lambda>n. n_size_update (\<lambda>_. c_div (n_size n) 2))) (\<lambda>h.
     bindE (set_left h p (\<lambda>n. n_idx_update (\<lambda>_. n_idx n))) (\<lambda>h.
     bindE (set_right h p (\<lambda>n. n_idx_update (\<lambda>_. n_idx n + c_div (n_size n) 2))) (\<lambda>h.
     bindE (set_left h p (\<lambda>n. n_left_update (\<lambda>_. NULL))) (\<lambda>h.
     set_right h p (\<lambda>n. n_right_update (\<lambda>_. NULL)))))))))"

definition split_node :: "allocator \<Rightarrow> ptr \<Rightarrow> heap \<Rightarrow> fault + heap" where
  "split_node am p h = bindE (attach_children am p h) (init_children p)"

fun buddy_alloc_rec :: "allocator \<Rightarrow> nat \<Rightarrow> ptr \<Rightarrow> int \<Rightarrow> heap \<Rightarrow> fault + (int \<times> heap)" where
  "buddy_alloc_rec am 0 p sz h = Inl StackOverflow"
| "buddy_alloc_rec am (Suc d) p sz h =
     bindE (load h p) (\<lambda>n.
       if n_state n = SPLIT then
         bindE (buddy_alloc_rec am d (n_left n) sz h) (\<lambda>(rt, h1).
           if rt \<ge> 0 then Inr (rt, h1)
           else bindE (load h1 p) (\<lambda>n1. buddy_alloc_rec am d (n_right n1) sz h1))
       else if n_state n \<noteq> FREE then Inr (-1, h)
       else if n_size n < sz then Inr (-1, h)
       else if c_div (n_size n) 2 \<ge> sz then
         bindE (split_node am p h) (\<lambda>h1.
         bindE (load h1 p) (\<lambda>n1. buddy_alloc_rec am d (n_left n1) sz h1))
       else
         bindE (modify h p (n_state_update (\<lambda>_. ALLOC))) (\<lambda>h1.
         bindE (load h1 p) (\<lambda>n1. Inr (n_idx n1, h1))))"

text \<open>The merge after both recursive frees; \<open>&&\<close> reads the right child only if the left is free.\<close>

definition merge_node :: "ptr \<Rightarrow> heap \<Rightarrow> fault + heap" where
  "merge_node p h =
     bindE (load h p) (\<lambda>n.
     bindE (load h (n_left n)) (\<lambda>l.
     if n_state l \<noteq> FREE then Inr h else
     bindE (load h (n_right n)) (\<lambda>r.
     if n_state r \<noteq> FREE then Inr h else
     bindE (bfree h (n_left n)) (\<lambda>h.
     bindE (load h p) (\<lambda>n.
     bindE (bfree h (n_right n)) (\<lambda>h.
     bindE (modify h p (n_left_update (\<lambda>_. NULL))) (\<lambda>h.
     bindE (modify h p (n_right_update (\<lambda>_. NULL))) (\<lambda>h.
     modify h p (n_state_update (\<lambda>_. FREE))))))))))"

fun buddy_free_rec :: "nat \<Rightarrow> ptr \<Rightarrow> int \<Rightarrow> heap \<Rightarrow> fault + (int \<times> heap)" where
  "buddy_free_rec 0 p idx h = Inl StackOverflow"
| "buddy_free_rec (Suc d) p idx h =
     bindE (load h p) (\<lambda>n.
       if n_state n = SPLIT then
         bindE (buddy_free_rec d (n_left n) idx h) (\<lambda>(rt_left, h1).
         bindE (load h1 p) (\<lambda>n1.
         bindE (buddy_free_rec d (n_right n1) idx h1) (\<lambda>(rt_right, h2).
         bindE (merge_node p h2) (\<lambda>h3.
         if rt_left = 0 \<or> rt_right = 0 then Inr (0, h3) else Inr (-1, h3)))))
       else if n_idx n = idx \<and> n_state n = ALLOC then
         bindE (modify h p (n_state_update (\<lambda>_. FREE))) (\<lambda>h1. Inr (0, h1))
       else Inr (-1, h))"

fun buddy_size_rec :: "nat \<Rightarrow> ptr \<Rightarrow> int \<Rightarrow> heap \<Rightarrow> fault + int" where
  "buddy_size_rec 0 p idx h = Inl StackOverflow"
| "buddy_size_rec (Suc d) p idx h =
     bindE (load h p) (\<lambda>n.
       if n_state n = SPLIT then
         bindE (buddy_size_rec d (n_right n) idx h) (\<lambda>rt.
           if rt < 0 then buddy_size_rec d (n_left n) idx h else Inr rt)
       else if idx \<ge> n_idx n \<and> idx < n_idx n + n_size n \<and> n_state n = ALLOC
       then Inr ((n_idx n + n_size n) - idx)
       else Inr (-1))"

fun buddy_kill_rec :: "nat \<Rightarrow> ptr \<Rightarrow> heap \<Rightarrow> fault + heap" where
  "buddy_kill_rec 0 p h = Inl StackOverflow"
| "buddy_kill_rec (Suc d) p h =
     bindE (load h p) (\<lambda>n.
     bindE (if n_state n = SPLIT then
              bindE (buddy_kill_rec d (n_left n) h) (\<lambda>h1.
              bindE (load h1 p) (\<lambda>n1. buddy_kill_rec d (n_right n1) h1))
            else Inr h) (\<lambda>h2.
     bfree h2 p))"

fun buddy_print_rec :: "nat \<Rightarrow> ptr \<Rightarrow> heap \<Rightarrow> fault + string" where
  "buddy_print_rec 0 p h = Inl StackOverflow"
| "buddy_print_rec (Suc d) p h =
     bindE (load h p) (\<lambda>n.
       if n_state n = SPLIT then
         bindE (buddy_print_rec d (n_left n) h) (\<lambda>out1.
         bindE (buddy_print_rec d (n_right n) h) (\<lambda>out2. Inr (out1 @ out2)))
       else Inr (concat (replicate (nat (n_size n))
                   (if n_state n = FREE then ''-,'' else fmt_d (n_idx n) @ '','')) @ ''|''))"

section \<open>The library's state and its entry points\<close>

text \<open>
  The globals \<open>buddy_head\<close> and \<open>buddy_pool\<close>. The pool is the memory at
  \<open>buddy_pool + k\<close> for any \<open>k\<close>, \<open>pool_len\<close> the bytes \<open>bmalloc\<close> granted, and
  \<open>pools_live\<close> counts the pools obtained from \<open>bmalloc\<close> and not given back.
\<close>

record buddy =
  cells :: heap
  buddy_head :: ptr
  buddy_pool :: "int \<Rightarrow> byte"
  pool_len :: int
  pools_live :: nat

definition buddy_init :: "allocator \<Rightarrow> int \<Rightarrow> buddy \<Rightarrow> fault + (int \<times> buddy)" where
  "buddy_init am sz b =
     (if \<not> bm_pool am sz then Inr (-1, b\<lparr>pool_len := 0\<rparr>)
      else case b\<lparr>buddy_pool := bm_bytes am, pool_len := sz, pools_live := Suc (pools_live b)\<rparr> of b \<Rightarrow>
        case malloc_node am (cells b) of (a, h) \<Rightarrow>
        case b\<lparr>buddy_head := a, cells := h\<rparr> of b \<Rightarrow>
        if a = NULL then Inr (-1, b)
        else
          bindE (modify h a (n_left_update (\<lambda>_. NULL))) (\<lambda>h.
          bindE (modify h a (n_right_update (\<lambda>_. NULL))) (\<lambda>h.
          bindE (modify h a (n_state_update (\<lambda>_. FREE))) (\<lambda>h.
          bindE (modify h a (n_size_update (\<lambda>_. sz))) (\<lambda>h.
          bindE (modify h a (n_idx_update (\<lambda>_. 0))) (\<lambda>h.
          Inr (0, b\<lparr>cells := h\<rparr>)))))))"

definition buddy_alloc :: "allocator \<Rightarrow> nat \<Rightarrow> int \<Rightarrow> buddy \<Rightarrow> fault + (int \<times> buddy)" where
  "buddy_alloc am d sz b =
     bindE (buddy_alloc_rec am d (buddy_head b) sz (cells b)) (\<lambda>(rt, h). Inr (rt, b\<lparr>cells := h\<rparr>))"

definition buddy_free :: "nat \<Rightarrow> int \<Rightarrow> buddy \<Rightarrow> fault + (int \<times> buddy)" where
  "buddy_free d idx b =
     bindE (buddy_free_rec d (buddy_head b) idx (cells b)) (\<lambda>(rt, h). Inr (rt, b\<lparr>cells := h\<rparr>))"

definition buddy_size :: "nat \<Rightarrow> int \<Rightarrow> buddy \<Rightarrow> fault + int" where
  "buddy_size d idx b = buddy_size_rec d (buddy_head b) idx (cells b)"

definition buddy_print :: "nat \<Rightarrow> buddy \<Rightarrow> fault + string" where
  "buddy_print d b = buddy_print_rec d (buddy_head b) (cells b)"

definition buddy_kill :: "nat \<Rightarrow> buddy \<Rightarrow> fault + buddy" where
  "buddy_kill d b = bindE (buddy_kill_rec d (buddy_head b) (cells b)) (\<lambda>h. Inr (b\<lparr>cells := h\<rparr>))"

end
