(* ===== verification/Buddy_Refine.thy ===== *)
theory Buddy_Refine
  imports Buddy
begin

text \<open>
  The heap-level allocator of theory Buddy implements the reference operations of theory
  Buddy_Tree. \<open>rep h p i s t A\<close> says that the nodes reachable from \<open>p\<close> represent
  the tree \<open>t\<close> over \<open>[i, i + s)\<close> and that they are exactly the cells \<open>A\<close>, each used
  once. Every lemma also says which cells changed, so that trees can be put side by side.
\<close>

section \<open>Representation\<close>

fun rep :: "heap \<Rightarrow> ptr \<Rightarrow> int \<Rightarrow> int \<Rightarrow> btree \<Rightarrow> ptr set \<Rightarrow> bool" where
  "rep h p i s TFree A \<longleftrightarrow> p \<noteq> NULL \<and> A = {p} \<and>
     (\<exists>n. h p = Some n \<and> n_state n = FREE \<and> n_idx n = i \<and> n_size n = s)"
| "rep h p i s TAlloc A \<longleftrightarrow> p \<noteq> NULL \<and> A = {p} \<and>
     (\<exists>n. h p = Some n \<and> n_state n = ALLOC \<and> n_idx n = i \<and> n_size n = s)"
| "rep h p i s (TSplit l r) A \<longleftrightarrow> p \<noteq> NULL \<and>
     (\<exists>n B C. h p = Some n \<and> n_state n = SPLIT \<and> n_idx n = i \<and> n_size n = s \<and>
        rep h (n_left n) i (s div 2) l B \<and> rep h (n_right n) (i + s div 2) (s div 2) r C \<and>
        p \<notin> B \<and> p \<notin> C \<and> B \<inter> C = {} \<and> A = insert p (B \<union> C))"

lemma rep_cell: "rep h p i s t A \<Longrightarrow> p \<noteq> NULL \<and> p \<in> A \<and> (\<exists>n. h p = Some n)"
  by (cases t) auto

lemma rep_mem: "rep h p i s t A \<Longrightarrow> a \<in> A \<Longrightarrow> \<exists>n. h a = Some n"
proof (induction t arbitrary: p i s A)
  case (TSplit l r)
  then show ?case by (simp only: rep.simps) blast
qed auto

lemma rep_dom: "rep h p i s t A \<Longrightarrow> A \<subseteq> dom h"
  using rep_mem [of h p i s t A] by blast

lemma rep_null: "rep h p i s t A \<Longrightarrow> NULL \<notin> A"
  by (induction t arbitrary: p i s A) auto

lemma rep_finite: "rep h p i s t A \<Longrightarrow> finite A"
  by (induction t arbitrary: p i s A) auto

lemma rep_frame: "rep h p i s t A \<Longrightarrow> (\<And>a. a \<in> A \<Longrightarrow> h' a = h a) \<Longrightarrow> rep h' p i s t A"
proof (induction t arbitrary: p i s A)
  case (TSplit l r)
  from TSplit.prems(1) obtain n B C where *: "p \<noteq> NULL" "h p = Some n" "n_state n = SPLIT"
    "n_idx n = i" "n_size n = s"
    "rep h (n_left n) i (s div 2) l B" "rep h (n_right n) (i + s div 2) (s div 2) r C"
    "p \<notin> B" "p \<notin> C" "B \<inter> C = {}" "A = insert p (B \<union> C)" by auto
  have "rep h' (n_left n) i (s div 2) l B" using * TSplit by auto
  moreover have "rep h' (n_right n) (i + s div 2) (s div 2) r C" using * TSplit by auto
  ultimately show ?case using * TSplit.prems(2) [of p] by auto
qed auto

lemma rep_state:
  assumes "rep h p i s t A" "h p = Some n"
  shows "n_state n = FREE \<longleftrightarrow> t = TFree" "n_state n = SPLIT \<longleftrightarrow> (\<exists>l r. t = TSplit l r)"
    "n_state n = ALLOC \<longleftrightarrow> t = TAlloc"
  using assms by (cases t; auto)+

section \<open>Evaluating loads and stores\<close>

lemma load_ok [heap_simps]: "p \<noteq> NULL \<Longrightarrow> h p = Some n \<Longrightarrow> load h p = Inr n"
  by (simp add: load_def)

lemma modify_ok [heap_simps]: "p \<noteq> NULL \<Longrightarrow> h p = Some n \<Longrightarrow> modify h p f = Inr (h(p \<mapsto> f n))"
  by (simp add: modify_def load_def)

lemma modify_null [heap_simps]: "modify h NULL f = Inl NullDeref"
  by (simp add: modify_def load_def)

lemma set_left_ok [heap_simps]:
  "p \<noteq> NULL \<Longrightarrow> h p = Some n \<Longrightarrow> set_left h p f = modify h (n_left n) (f n)"
  by (simp add: set_left_def load_def)

lemma set_right_ok [heap_simps]:
  "p \<noteq> NULL \<Longrightarrow> h p = Some n \<Longrightarrow> set_right h p f = modify h (n_right n) (f n)"
  by (simp add: set_right_def load_def)

lemma bfree_ok [heap_simps]: "p \<noteq> NULL \<Longrightarrow> h p = Some n \<Longrightarrow> bfree h p = Inr (h(p := None))"
  by (simp add: bfree_def)

lemma malloc_okD: "malloc_ok am \<Longrightarrow> bm_node am h \<noteq> NULL \<Longrightarrow> h (bm_node am h) = None"
  unfolding malloc_ok_def by metis

section \<open>Splitting and merging a node\<close>

text \<open>
  A split either dereferences the null pointer of a failed \<open>bmalloc\<close>, or hangs two fresh free
  halves below the node and touches nothing else.
\<close>

lemma attach_children_eq:
  assumes am: "malloc_ok am" and p: "p \<noteq> NULL" "h p = Some n"
  obtains l r h' where "attach_children am p h = Inr h'"
    "l \<noteq> NULL \<longrightarrow> h l = None \<and> l \<noteq> p" "r \<noteq> NULL \<longrightarrow> h r = None \<and> r \<noteq> p \<and> r \<noteq> l"
    "h' p = Some (n\<lparr>n_state := SPLIT, n_left := l, n_right := r\<rparr>)"
    "l \<noteq> NULL \<longrightarrow> h' l = Some (bm_junk am l)" "r \<noteq> NULL \<longrightarrow> h' r = Some (bm_junk am r)"
    "\<And>a. a \<noteq> p \<Longrightarrow> (a \<noteq> l \<or> l = NULL) \<Longrightarrow> (a \<noteq> r \<or> r = NULL) \<Longrightarrow> h' a = h a"
    "\<exists>g. dom g = dom h \<and> l = bm_node am g" "\<exists>g. dom g \<subseteq> insert l (dom h) \<and> r = bm_node am g"
proof -
  define h1 where "h1 = h(p \<mapsto> n\<lparr>n_state := SPLIT\<rparr>)"
  define l where "l = bm_node am h1"
  define h2 where "h2 = (if l = NULL then h1 else h1(l \<mapsto> bm_junk am l))"
  define h3 where "h3 = h2(p \<mapsto> n\<lparr>n_state := SPLIT, n_left := l\<rparr>)"
  define r where "r = bm_node am h3"
  define h4 where "h4 = (if r = NULL then h3 else h3(r \<mapsto> bm_junk am r))"
  define h5 where "h5 = h4(p \<mapsto> n\<lparr>n_state := SPLIT, n_left := l, n_right := r\<rparr>)"
  have fl: "h1 l = None" if "l \<noteq> NULL" using malloc_okD [OF am, of h1] that by (simp add: l_def)
  have fr: "h3 r = None" if "r \<noteq> NULL" using malloc_okD [OF am, of h3] that by (simp add: r_def)
  have l: "l \<noteq> NULL \<longrightarrow> h l = None \<and> l \<noteq> p"
    using fl by (auto simp: h1_def split: if_splits)
  have r: "r \<noteq> NULL \<longrightarrow> h r = None \<and> r \<noteq> p \<and> r \<noteq> l"
    using fr by (auto simp: h3_def h2_def h1_def split: if_splits)
  have m1: "modify h p (n_state_update (\<lambda>_. SPLIT)) = Inr h1"
    using p by (simp add: heap_simps h1_def)
  have m2: "modify h2 p (n_left_update (\<lambda>_. l)) = Inr h3"
    using p l by (auto simp: modify_def load_def h3_def h2_def h1_def)
  have m3: "modify h4 p (n_right_update (\<lambda>_. r)) = Inr h5"
    using p r by (auto simp: modify_def load_def h5_def h4_def h3_def)
  have a1: "malloc_node am h1 = (l, h2)" and a2: "malloc_node am h3 = (r, h4)"
    by (simp_all add: malloc_node_def Let_def l_def h2_def r_def h4_def)
  have "attach_children am p h = Inr h5"
    by (simp add: attach_children_def m1 m2 m3 a1 a2)
  moreover have "\<And>a. a \<noteq> p \<Longrightarrow> (a \<noteq> l \<or> l = NULL) \<Longrightarrow> (a \<noteq> r \<or> r = NULL) \<Longrightarrow> h5 a = h a"
    by (auto simp: h5_def h4_def h3_def h2_def h1_def)
  moreover have "h5 p = Some (n\<lparr>n_state := SPLIT, n_left := l, n_right := r\<rparr>)"
    by (simp add: h5_def)
  moreover have "l \<noteq> NULL \<longrightarrow> h5 l = Some (bm_junk am l)" "r \<noteq> NULL \<longrightarrow> h5 r = Some (bm_junk am r)"
    using l r by (auto simp: h5_def h4_def h3_def h2_def)
  moreover have "dom h1 = dom h" "dom h3 \<subseteq> insert l (dom h)"
    using p by (auto simp: h1_def h3_def h2_def)
  ultimately show thesis using l r that l_def r_def by blast
qed

lemma init_children_null:
  assumes "p \<noteq> NULL" "h p = Some n" "n_left n = NULL \<or> n_right n = NULL" "n_left n \<noteq> p"
    "n_left n \<noteq> NULL \<longrightarrow> h (n_left n) = Some nl"
  shows "init_children p h = Inl NullDeref"
  using assms by (cases "n_left n = NULL") (simp_all add: init_children_def heap_simps)

lemma init_children_ok:
  assumes "p \<noteq> NULL" "h p = Some n" "n_left n = l" "n_right n = r" "l \<noteq> NULL" "r \<noteq> NULL"
    "l \<noteq> p" "r \<noteq> p" "r \<noteq> l" "h l = Some nl" "h r = Some nr" "0 \<le> n_size n"
  shows "init_children p h = Inr (h(
     l \<mapsto> nl\<lparr>n_state := FREE, n_size := n_size n div 2, n_idx := n_idx n, n_left := NULL\<rparr>,
     r \<mapsto> nr\<lparr>n_state := FREE, n_size := n_size n div 2,
               n_idx := n_idx n + n_size n div 2, n_right := NULL\<rparr>))"
  using assms by (simp add: init_children_def heap_simps fun_upd_twist [of l r])

lemma split_node_cases:
  assumes am: "malloc_ok am" and p: "p \<noteq> NULL" "h p = Some n" "0 \<le> n_size n"
  obtains (fault) "split_node am p h = Inl NullDeref"
    | (split) l r n' nl nr h' where "split_node am p h = Inr h'"
      "l \<noteq> NULL" "r \<noteq> NULL" "l \<noteq> r" "l \<noteq> p" "r \<noteq> p" "h l = None" "h r = None"
      "h' p = Some n'" "n_state n' = SPLIT" "n_idx n' = n_idx n" "n_size n' = n_size n"
      "n_left n' = l" "n_right n' = r"
      "h' l = Some nl" "n_state nl = FREE" "n_idx nl = n_idx n" "n_size nl = n_size n div 2"
      "h' r = Some nr" "n_state nr = FREE" "n_idx nr = n_idx n + n_size n div 2"
      "n_size nr = n_size n div 2"
      "\<And>a. a \<noteq> p \<Longrightarrow> a \<noteq> l \<Longrightarrow> a \<noteq> r \<Longrightarrow> h' a = h a"
proof (rule attach_children_eq [where h = h and p = p, OF am p(1) p(2)])
  fix l r h1
  let ?n = "n\<lparr>n_state := SPLIT, n_left := l, n_right := r\<rparr>"
  assume att: "attach_children am p h = Inr h1"
    and l: "l \<noteq> NULL \<longrightarrow> h l = None \<and> l \<noteq> p" and r: "r \<noteq> NULL \<longrightarrow> h r = None \<and> r \<noteq> p \<and> r \<noteq> l"
    and h1: "h1 p = Some ?n" "l \<noteq> NULL \<longrightarrow> h1 l = Some (bm_junk am l)"
      "r \<noteq> NULL \<longrightarrow> h1 r = Some (bm_junk am r)"
    and fr: "\<And>a. a \<noteq> p \<Longrightarrow> (a \<noteq> l \<or> l = NULL) \<Longrightarrow> (a \<noteq> r \<or> r = NULL) \<Longrightarrow> h1 a = h a"
  show thesis
  proof (cases "l = NULL \<or> r = NULL")
    case True
    have "init_children p h1 = Inl NullDeref"
      by (rule init_children_null [where h = h1 and p = p, OF p(1) h1(1), where nl = "bm_junk am l"])
         (use True p l h1 in auto)
    then show ?thesis by (intro fault) (simp add: split_node_def att)
  next
    case False
    let ?nl = "(bm_junk am l)\<lparr>n_state := FREE, n_size := n_size n div 2, n_idx := n_idx n,
      n_left := NULL\<rparr>"
    let ?nr = "(bm_junk am r)\<lparr>n_state := FREE, n_size := n_size n div 2,
      n_idx := n_idx n + n_size n div 2, n_right := NULL\<rparr>"
    have "init_children p h1 = Inr (h1(l \<mapsto> ?nl, r \<mapsto> ?nr))"
      using init_children_ok [where h = h1 and p = p, OF p(1) h1(1), of l r "bm_junk am l" "bm_junk am r"] False l r h1 p
      by simp
    then show ?thesis
      by (intro split [of "h1(l \<mapsto> ?nl, r \<mapsto> ?nr)" l r ?n ?nl ?nr])
         (use False l r h1 fr in \<open>auto simp: split_node_def att\<close>)
  qed
qed

text \<open>With room for two more nodes the split succeeds.\<close>

lemma split_node_serves:
  assumes am: "malloc_ok am" "malloc_serves am N" and p: "p \<noteq> NULL" "h p = Some n" "0 \<le> n_size n"
    and room: "finite (dom h)" "card (dom h) + 2 \<le> N"
  shows "\<exists>h'. split_node am p h = Inr h'"
proof (rule attach_children_eq [where h = h and p = p, OF am(1) p(1) p(2)])
  fix l r h1
  assume att: "attach_children am p h = Inr h1"
    and l: "l \<noteq> NULL \<longrightarrow> h l = None \<and> l \<noteq> p" and r: "r \<noteq> NULL \<longrightarrow> h r = None \<and> r \<noteq> p \<and> r \<noteq> l"
    and h1: "h1 p = Some (n\<lparr>n_state := SPLIT, n_left := l, n_right := r\<rparr>)"
      "l \<noteq> NULL \<longrightarrow> h1 l = Some (bm_junk am l)" "r \<noteq> NULL \<longrightarrow> h1 r = Some (bm_junk am r)"
    and gl: "\<exists>g. dom g = dom h \<and> l = bm_node am g"
    and gr: "\<exists>g. dom g \<subseteq> insert l (dom h) \<and> r = bm_node am g"
  from gl obtain g where g: "dom g = dom h" "l = bm_node am g" by blast
  from gr obtain g' where g': "dom g' \<subseteq> insert l (dom h)" "r = bm_node am g'" by blast
  have "card (dom g') \<le> card (insert l (dom h))"
    using g'(1) room(1) by (intro card_mono) auto
  also have "\<dots> \<le> Suc (card (dom h))" using card_insert_le_m1 room(1) by (simp add: card_insert_if)
  finally have "card (dom g') < N" using room(2) by simp
  moreover have "finite (dom g')" using g'(1) room(1) by (auto intro: finite_subset)
  ultimately have lr: "l \<noteq> NULL" "r \<noteq> NULL"
    using am(2) g g'(2) room by (auto simp: malloc_serves_def)
  show ?thesis
    using init_children_ok [where h = h1 and p = p, OF p(1) h1(1), of l r "bm_junk am l" "bm_junk am r"]
      lr l r h1 p att by (auto simp: split_node_def)
qed

section \<open>Allocation\<close>

text \<open>
  After a successful allocation the old cells are still there, new ones were unused before,
  and no other cell changed.
\<close>

definition alloc_post :: "heap \<Rightarrow> heap \<Rightarrow> ptr \<Rightarrow> int \<Rightarrow> int \<Rightarrow> btree \<Rightarrow> ptr set \<Rightarrow> bool" where
  "alloc_post h h' p i s t' A \<longleftrightarrow>
     (\<exists>A'. rep h' p i s t' A' \<and> A \<subseteq> A' \<and> (\<forall>x \<in> A' - A. h x = None) \<and> (\<forall>x. x \<notin> A' \<longrightarrow> h' x = h x))"

lemma alloc_postI:
  "rep h' p i s t' A' \<Longrightarrow> A \<subseteq> A' \<Longrightarrow> (\<And>x. x \<in> A' \<Longrightarrow> x \<notin> A \<Longrightarrow> h x = None) \<Longrightarrow>
     (\<And>x. x \<notin> A' \<Longrightarrow> h' x = h x) \<Longrightarrow> alloc_post h h' p i s t' A"
  unfolding alloc_post_def by blast

lemma alloc_postE:
  assumes "alloc_post h h' p i s t' A"
  obtains A' where "rep h' p i s t' A'" "A \<subseteq> A'" "\<And>x. x \<in> A' \<Longrightarrow> x \<notin> A \<Longrightarrow> h x = None"
    "\<And>x. x \<notin> A' \<Longrightarrow> h' x = h x"
  using assms unfolding alloc_post_def by blast

lemma alloc_post_left:
  assumes rep: "h p = Some n" "p \<noteq> NULL" "n_state n = SPLIT" "n_idx n = i" "n_size n = s"
      "rep h (n_left n) i (s div 2) l B" "rep h (n_right n) (i + s div 2) (s div 2) r C"
      "p \<notin> B" "p \<notin> C" "B \<inter> C = {}"
    and post: "alloc_post h h' (n_left n) i (s div 2) l' B"
  shows "alloc_post h h' p i s (TSplit l' r) (insert p (B \<union> C))"
  using post
proof (rule alloc_postE)
  fix B'
  assume B': "rep h' (n_left n) i (s div 2) l' B'" "B \<subseteq> B'"
    "\<And>x. x \<in> B' \<Longrightarrow> x \<notin> B \<Longrightarrow> h x = None" "\<And>x. x \<notin> B' \<Longrightarrow> h' x = h x"
  have pB: "p \<notin> B'" using B'(3) [of p] rep by auto
  have BC: "B' \<inter> C = {}" using B'(3) rep_mem [OF rep(7)] rep(10) by (metis disjoint_iff option.distinct(1))
  have "rep h' (n_right n) (i + s div 2) (s div 2) r C"
    using BC B'(4) by (intro rep_frame [OF rep(7)]) blast
  with rep pB BC B' have "rep h' p i s (TSplit l' r) (insert p (B' \<union> C))" by auto
  then show ?thesis by (rule alloc_postI) (use B' in auto)
qed

lemma alloc_post_right:
  assumes rep: "h p = Some n" "p \<noteq> NULL" "n_state n = SPLIT" "n_idx n = i" "n_size n = s"
      "rep h (n_left n) i (s div 2) l B" "rep h (n_right n) (i + s div 2) (s div 2) r C"
      "p \<notin> B" "p \<notin> C" "B \<inter> C = {}"
    and post: "alloc_post h h' (n_right n) (i + s div 2) (s div 2) r' C"
  shows "alloc_post h h' p i s (TSplit l r') (insert p (B \<union> C))"
  using post
proof (rule alloc_postE)
  fix C'
  assume C': "rep h' (n_right n) (i + s div 2) (s div 2) r' C'" "C \<subseteq> C'"
    "\<And>x. x \<in> C' \<Longrightarrow> x \<notin> C \<Longrightarrow> h x = None" "\<And>x. x \<notin> C' \<Longrightarrow> h' x = h x"
  have pC: "p \<notin> C'" using C'(3) [of p] rep by auto
  have BC: "B \<inter> C' = {}" using C'(3) rep_mem [OF rep(6)] rep(10) by (metis disjoint_iff option.distinct(1))
  have "rep h' (n_left n) i (s div 2) l B"
    using BC C'(4) by (intro rep_frame [OF rep(6)]) blast
  with rep pC BC C' have "rep h' p i s (TSplit l r') (insert p (B \<union> C'))" by auto
  then show ?thesis by (rule alloc_postI) (use C' in auto)
qed

text \<open>The three ways an allocation can end, against the reference allocation.\<close>

definition alloc_sim :: "fault + (int \<times> heap) \<Rightarrow> (int \<times> btree) option \<Rightarrow> heap \<Rightarrow> ptr \<Rightarrow> int \<Rightarrow> int \<Rightarrow> ptr set \<Rightarrow> bool" where
  "alloc_sim res ref h p i s A \<longleftrightarrow>
     (case res of
        Inl f \<Rightarrow> f = NullDeref
      | Inr (rt, h') \<Rightarrow>
          (case ref of
             None \<Rightarrow> rt = -1 \<and> h' = h
           | Some (a, t') \<Rightarrow> rt = a \<and> alloc_post h h' p i s t' A))"

lemma alloc_sim_cases:
  assumes "alloc_sim res ref h p i s A"
  obtains (fault) "res = Inl NullDeref"
    | (none) "res = Inr (-1, h)" "ref = None"
    | (some) a t' h' where "res = Inr (a, h')" "ref = Some (a, t')" "alloc_post h h' p i s t' A"
proof (cases res)
  case (Inl f)
  then show thesis using assms fault by (simp add: alloc_sim_def)
next
  case (Inr x)
  obtain rt h' where x: "x = (rt, h')" by (cases x)
  show thesis
  proof (cases ref)
    case None
    then show thesis using assms none Inr x by (simp add: alloc_sim_def)
  next
    case (Some y)
    then show thesis using assms some [of rt h' "snd y"] Inr x by (cases y) (simp add: alloc_sim_def)
  qed
qed

lemma alloc_sim_intros [intro]:
  "alloc_sim (Inl NullDeref) ref h p i s A"
  "alloc_sim (Inr (-1, h)) None h p i s A"
  "alloc_post h h' p i s t' A \<Longrightarrow> alloc_sim (Inr (a, h')) (Some (a, t')) h p i s A"
  by (simp_all add: alloc_sim_def)

declare buddy_alloc_rec.simps(2) [simp del]
lemmas alloc_run = buddy_alloc_rec.simps(2) heap_simps

lemma buddy_alloc_leaf:
  assumes IH: "\<And>h p i s A. rep h p i s TFree A \<Longrightarrow> 0 \<le> s \<Longrightarrow> 0 \<le> i \<Longrightarrow> s < 2 ^ d \<Longrightarrow> 0 < d \<Longrightarrow>
        alloc_sim (buddy_alloc_rec am d p k h) (t_alloc i s TFree k) h p i s A"
    and am: "malloc_ok am" and k: "1 \<le> k"
    and rep: "rep h p i s TFree A" and i: "0 \<le> i" and s: "0 \<le> s" "s < 2 ^ Suc d"
  shows "alloc_sim (buddy_alloc_rec am (Suc d) p k h) (t_alloc i s TFree k) h p i s A"
proof -
  from rep obtain n where n: "p \<noteq> NULL" "h p = Some n" "n_state n = FREE" "n_idx n = i"
    "n_size n = s" and A: "A = {p}" by auto
  consider "s < k" | "k \<le> s" "s div 2 < k" | "k \<le> s div 2" by linarith
  then show ?thesis
  proof cases
    case 1
    with n show ?thesis by (auto simp: alloc_run t_alloc.simps)
  next
    case 2
    let ?h = "h(p \<mapsto> n\<lparr>n_state := ALLOC\<rparr>)"
    have "alloc_post h ?h p i s TAlloc A"
      by (rule alloc_postI [where A' = "{p}"]) (use n A in auto)
    with 2 n s show ?thesis
      by (auto simp: alloc_run t_alloc.simps split_down.simps [of s k])
  next
    case 3
    then have ks: "k \<le> s" "s div 2 < 2 ^ d" "0 < d" "1 \<le> s div 2"
      using s k by (auto intro: gr0I)
    have sd: "t_alloc i s TFree k = Some (i, TSplit (split_down (s div 2) k) TFree)"
      using 3 k ks by (simp add: t_alloc.simps split_down.simps [of s k])
    have run: "buddy_alloc_rec am (Suc d) p k h =
        bindE (split_node am p h) (\<lambda>h1. bindE (load h1 p) (\<lambda>n1. buddy_alloc_rec am d (n_left n1) k h1))"
      using n 3 ks s by (simp add: alloc_run)
    have ns: "0 \<le> n_size n" using n s by simp
    show ?thesis
      using am n(1) n(2) ns
    proof (cases rule: split_node_cases [where h = h and p = p, consumes 4, case_names fault split])
      case fault
      then show ?thesis by (simp add: run alloc_sim_intros)
    next
      case (split l r n' nl nr h1)
      have "rep h1 l i (s div 2) TFree {l}" using split n by auto
      then have "alloc_sim (buddy_alloc_rec am d l k h1) (t_alloc i (s div 2) TFree k) h1 l i (s div 2) {l}"
        using IH [of h1 l i "s div 2" "{l}"] ks i by simp
      then show ?thesis
      proof (cases rule: alloc_sim_cases)
        case fault
        then show ?thesis using split n by (simp add: run heap_simps alloc_sim_intros)
      next
        case none
        then show ?thesis using 3 by (simp add: t_alloc.simps)
      next
        case (some a t' h')
        then have at: "a = i" "t' = split_down (s div 2) k" using 3 by (auto simp: t_alloc.simps)
        have "alloc_post h1 h' (n_left n') i (s div 2) (split_down (s div 2) k) {l}"
          using some at split by simp
        then have "alloc_post h1 h' p i s (TSplit (split_down (s div 2) k) TFree) (insert p ({l} \<union> {r}))"
          by (rule alloc_post_left [where l = TFree, rotated 10]) (use split n in auto)
        then have "alloc_post h h' p i s (TSplit (split_down (s div 2) k) TFree) A"
        proof (rule alloc_postE)
          fix A'
          assume A': "rep h' p i s (TSplit (split_down (s div 2) k) TFree) A'"
            "insert p ({l} \<union> {r}) \<subseteq> A'" "\<And>x. x \<in> A' \<Longrightarrow> x \<notin> insert p ({l} \<union> {r}) \<Longrightarrow> h1 x = None"
            "\<And>x. x \<notin> A' \<Longrightarrow> h' x = h1 x"
          show ?thesis
          proof (rule alloc_postI [OF A'(1)])
            show "A \<subseteq> A'" using A'(2) A by simp
            show "h x = None" if "x \<in> A'" "x \<notin> A" for x
              using that A A'(3) [of x] split(7,8) split(23) [of x]
              by (cases "x = l \<or> x = r") auto
            show "h' x = h x" if "x \<notin> A'" for x
              using that A'(2) A'(4) [of x] split(23) [of x] by auto
          qed
        qed
        then show ?thesis using some at split n by (simp add: run sd heap_simps alloc_sim_intros)
      qed
    qed
  qed
qed

lemma buddy_alloc_rec_sim:
  assumes am: "malloc_ok am" and k: "1 \<le> k"
  shows "rep h p i s t A \<Longrightarrow> t_wf s t \<Longrightarrow> 0 \<le> i \<Longrightarrow> s < 2 ^ d \<Longrightarrow> 0 < d \<Longrightarrow>
     alloc_sim (buddy_alloc_rec am d p k h) (t_alloc i s t k) h p i s A"
proof (induction d arbitrary: h p i s t A)
  case (Suc d)
  show ?case
  proof (cases t)
    case TFree
    then show ?thesis
      using buddy_alloc_leaf [OF _ am k, of d h p i s A] Suc by simp
  next
    case TAlloc
    then show ?thesis using Suc.prems by (auto simp: alloc_run t_alloc.simps)
  next
    case (TSplit l r)
    with Suc.prems obtain n B C where n: "h p = Some n" "p \<noteq> NULL" "n_state n = SPLIT" "n_idx n = i"
      "n_size n = s" "rep h (n_left n) i (s div 2) l B" "rep h (n_right n) (i + s div 2) (s div 2) r C"
      "p \<notin> B" "p \<notin> C" "B \<inter> C = {}" and A: "A = insert p (B \<union> C)"
      by auto
    have d: "s div 2 < 2 ^ d" "0 < d" "t_wf (s div 2) l" "t_wf (s div 2) r" "0 \<le> i + s div 2" "2 \<le> s"
      using Suc.prems TSplit by (auto intro: gr0I)
    have "alloc_sim (buddy_alloc_rec am d (n_left n) k h) (t_alloc i (s div 2) l k) h (n_left n) i (s div 2) B"
      using Suc.IH [OF n(6)] d Suc.prems by simp
    then show ?thesis
    proof (cases rule: alloc_sim_cases)
      case fault
      then show ?thesis using n by (simp add: alloc_run alloc_sim_intros)
    next
      case (some a l' h')
      have "0 \<le> a" using t_alloc_idx [OF some(2) k d(3)] Suc.prems by simp
      moreover have "alloc_post h h' p i s (TSplit l' r) A"
        unfolding A by (rule alloc_post_left [OF n some(3)])
      ultimately show ?thesis
        using n some TSplit by (simp add: alloc_run t_alloc.simps alloc_sim_intros)
    next
      case none
      have "alloc_sim (buddy_alloc_rec am d (n_right n) k h) (t_alloc (i + s div 2) (s div 2) r k)
          h (n_right n) (i + s div 2) (s div 2) C"
        using Suc.IH [OF n(7)] d by simp
      then show ?thesis
      proof (cases rule: alloc_sim_cases)
        case fault
        then show ?thesis using n none by (simp add: alloc_run alloc_sim_intros)
      next
        case none2: none
        then show ?thesis using n none TSplit by (simp add: alloc_run t_alloc.simps alloc_sim_intros)
      next
        case (some a r' h')
        have "alloc_post h h' p i s (TSplit l r') A"
          unfolding A by (rule alloc_post_right [OF n some(3)])
        then show ?thesis
          using n some none TSplit by (simp add: alloc_run t_alloc.simps alloc_sim_intros)
      qed
    qed
  qed
qed simp

text \<open>
  With room for two nodes per halving an allocation never faults; \<open>e\<close> bounds the
  halvings left.
\<close>

lemma buddy_alloc_leaf_serves:
  assumes IH: "\<And>h p i s A e. rep h p i s TFree A \<Longrightarrow> 0 \<le> s \<Longrightarrow> 0 \<le> i \<Longrightarrow> s < 2 ^ d \<Longrightarrow> 0 < d \<Longrightarrow>
        s < 2 ^ e \<Longrightarrow> finite (dom h) \<Longrightarrow> card (dom h) + 2 * e \<le> N \<Longrightarrow>
        \<exists>r. buddy_alloc_rec am d p k h = Inr r"
    and am: "malloc_ok am" "malloc_serves am N" and k: "1 \<le> k"
    and rep: "rep h p i s TFree A" and i: "0 \<le> i" and s: "0 \<le> s" "s < 2 ^ Suc d" "s < 2 ^ e"
    and room: "finite (dom h)" "card (dom h) + 2 * e \<le> N"
  shows "\<exists>r. buddy_alloc_rec am (Suc d) p k h = Inr r"
proof -
  from rep obtain n where n: "p \<noteq> NULL" "h p = Some n" "n_state n = FREE" "n_idx n = i"
    "n_size n = s" by auto
  show ?thesis
  proof (cases "k \<le> s div 2")
    case False
    then show ?thesis using n s by (simp add: alloc_run)
  next
    case True
    then have ks: "k \<le> s" "s div 2 < 2 ^ d" "0 < d" "0 < e" using s k by (auto intro: gr0I)
    then obtain e' where e: "e = Suc e'" by (cases e) auto
    have run: "buddy_alloc_rec am (Suc d) p k h =
        bindE (split_node am p h) (\<lambda>h1. bindE (load h1 p) (\<lambda>n1. buddy_alloc_rec am d (n_left n1) k h1))"
      using n True ks s by (simp add: alloc_run)
    have ns: "0 \<le> n_size n" using n s by simp
    have ok: "\<exists>h'. split_node am p h = Inr h'"
      using split_node_serves [where h = h and p = p, OF am n(1) n(2) ns] room e by simp
    show ?thesis
      using am(1) n(1) n(2) ns
    proof (cases rule: split_node_cases [where h = h and p = p, consumes 4, case_names fault split])
      case fault
      with ok show ?thesis by simp
    next
      case (split l r n' nl nr h1)
      have "dom h1 \<subseteq> insert l (insert r (dom h))"
        using split(23) n(2) by (auto simp: domIff) (metis option.distinct(1))
      then have "finite (dom h1)" "card (dom h1) \<le> card (insert l (insert r (dom h)))"
        using room(1) by (auto intro: finite_subset card_mono)
      then have "finite (dom h1)" "card (dom h1) + 2 * e' \<le> N"
        using room e by (auto simp: card_insert_if split: if_splits)
      moreover have "rep h1 l i (s div 2) TFree {l}" using split n by auto
      moreover have "s div 2 < 2 ^ e'" "0 \<le> s div 2" using s e by auto
      ultimately obtain res where "buddy_alloc_rec am d l k h1 = Inr res"
        using IH [of h1 l i "s div 2" "{l}" e'] ks(2,3) i by blast
      then show ?thesis using split n by (simp add: run heap_simps)
    qed
  qed
qed

lemma buddy_alloc_rec_serves:
  assumes am: "malloc_ok am" "malloc_serves am N" and k: "1 \<le> k"
  shows "rep h p i s t A \<Longrightarrow> t_wf s t \<Longrightarrow> 0 \<le> i \<Longrightarrow> s < 2 ^ d \<Longrightarrow> 0 < d \<Longrightarrow> s < 2 ^ e \<Longrightarrow>
     finite (dom h) \<Longrightarrow> card (dom h) + 2 * e \<le> N \<Longrightarrow> \<exists>r. buddy_alloc_rec am d p k h = Inr r"
proof (induction d arbitrary: h p i s t A e)
  case (Suc d)
  show ?case
  proof (cases t)
    case TFree
    have "0 \<le> s" using Suc.prems TFree by simp
    have IH: "\<exists>r. buddy_alloc_rec am d p k h = Inr r"
      if "rep h p i s TFree A" "0 \<le> s" "0 \<le> i" "s < 2 ^ d" "0 < d" "s < 2 ^ e" "finite (dom h)"
        "card (dom h) + 2 * e \<le> N" for h p i s A e
      by (rule Suc.IH [OF that(1) _ that(3-8)]) (simp add: that(2))
    show ?thesis
      by (rule buddy_alloc_leaf_serves [OF IH am k Suc.prems(1) [unfolded TFree] Suc.prems(3) \<open>0 \<le> s\<close>
            Suc.prems(4,6,7,8)])
  next
    case TAlloc
    then show ?thesis using Suc.prems by (auto simp: alloc_run)
  next
    case (TSplit l r)
    with Suc.prems obtain n B C where n: "h p = Some n" "p \<noteq> NULL" "n_state n = SPLIT"
      "rep h (n_left n) i (s div 2) l B" "rep h (n_right n) (i + s div 2) (s div 2) r C" by auto
    have d: "s div 2 < 2 ^ d" "0 < d" "s div 2 < 2 ^ e" "t_wf (s div 2) l" "t_wf (s div 2) r"
      "0 \<le> i + s div 2" "2 \<le> s"
      using Suc.prems TSplit by (auto intro: gr0I)
    obtain res where res: "buddy_alloc_rec am d (n_left n) k h = Inr res"
      using Suc.IH [OF n(4) d(4) _ d(1-3)] Suc.prems by auto
    have "alloc_sim (buddy_alloc_rec am d (n_left n) k h) (t_alloc i (s div 2) l k) h (n_left n) i (s div 2) B"
      using buddy_alloc_rec_sim [OF am(1) k n(4)] d Suc.prems by simp
    then show ?thesis
    proof (cases rule: alloc_sim_cases)
      case none
      then show ?thesis
        using Suc.IH [OF n(5) d(5,6) d(1-3)] Suc.prems n by (auto simp: alloc_run)
    next
      case (some a t' h')
      moreover have "0 \<le> a" using t_alloc_idx [OF some(2) k d(4)] Suc.prems by simp
      ultimately show ?thesis using n by (simp add: alloc_run)
    qed (use res in simp)
  qed
qed simp

text \<open>
  A request for zero or fewer bytes halves a free leaf for ever: whatever the stack, the
  recursion ends in a fault.
\<close>

lemma buddy_alloc_leaf_endless:
  assumes am: "malloc_ok am" and k: "k \<le> 0"
  shows "p \<noteq> NULL \<Longrightarrow> h p = Some n \<Longrightarrow> n_state n = FREE \<Longrightarrow> 0 \<le> n_size n \<Longrightarrow>
     \<exists>f. buddy_alloc_rec am d p k h = Inl f"
proof (induction d arbitrary: h p n)
  case (Suc d)
  have run: "buddy_alloc_rec am (Suc d) p k h =
      bindE (split_node am p h) (\<lambda>h1. bindE (load h1 p) (\<lambda>n1. buddy_alloc_rec am d (n_left n1) k h1))"
  proof -
    have "0 \<le> n_size n div 2" using Suc.prems(4) by simp
    then have "k \<le> n_size n div 2" "k \<le> n_size n" using k Suc.prems(4) by linarith+
    then show ?thesis using Suc.prems by (simp add: alloc_run)
  qed
  show ?case
    using am Suc.prems(1,2,4)
  proof (cases rule: split_node_cases [where h = h and p = p, consumes 4, case_names fault split])
    case fault
    then show ?thesis by (simp add: run)
  next
    case (split l r n' nl nr h1)
    have "0 \<le> n_size nl" using split(18) Suc.prems(4) by simp
    then obtain f where "buddy_alloc_rec am d l k h1 = Inl f"
      using Suc.IH [where h = h1 and p = l, OF split(2) split(15) split(16)] by blast
    then show ?thesis using split Suc.prems by (simp add: run heap_simps)
  qed
qed simp

lemma buddy_alloc_rec_full:
  "rep h p i s t A \<Longrightarrow> free_sizes s t = [] \<Longrightarrow> 
     (\<exists>f. buddy_alloc_rec am d p k h = Inl f) \<or> buddy_alloc_rec am d p k h = Inr (-1, h)"
proof (induction d arbitrary: p i s t A)
  case (Suc d)
  show ?case
  proof (cases t)
    case (TSplit l r)
    with Suc.prems obtain n B C where n: "h p = Some n" "p \<noteq> NULL" "n_state n = SPLIT"
      "rep h (n_left n) i (s div 2) l B" "rep h (n_right n) (i + s div 2) (s div 2) r C" by auto
    have "free_sizes (s div 2) l = []" "free_sizes (s div 2) r = []" using Suc.prems TSplit by auto
    with Suc.IH [OF n(4)] Suc.IH [OF n(5)] show ?thesis using n by (auto simp: alloc_run)
  qed (use Suc.prems in \<open>auto simp: alloc_run\<close>)
qed simp

lemma buddy_alloc_rec_endless:
  assumes am: "malloc_ok am" and k: "k \<le> 0"
  shows "rep h p i s t A \<Longrightarrow> t_wf s t \<Longrightarrow> free_sizes s t \<noteq> [] \<Longrightarrow> \<exists>f. buddy_alloc_rec am d p k h = Inl f"
proof (induction d arbitrary: p i s t A)
  case (Suc d)
  show ?case
  proof (cases t)
    case TFree
    then show ?thesis
      using Suc.prems buddy_alloc_leaf_endless [OF am k, of p h _ "Suc d"] by auto
  next
    case (TSplit l r)
    with Suc.prems obtain n B C where n: "h p = Some n" "p \<noteq> NULL" "n_state n = SPLIT"
      "rep h (n_left n) i (s div 2) l B" "rep h (n_right n) (i + s div 2) (s div 2) r C" by auto
    have wf: "t_wf (s div 2) l" "t_wf (s div 2) r" using Suc.prems TSplit by auto
    show ?thesis
    proof (cases "free_sizes (s div 2) l = []")
      case False
      with Suc.IH [OF n(4) wf(1)] show ?thesis using n by (auto simp: alloc_run)
    next
      case True
      then have "free_sizes (s div 2) r \<noteq> []" using Suc.prems TSplit by simp
      with Suc.IH [OF n(5) wf(2)] obtain f where f: "buddy_alloc_rec am d (n_right n) k h = Inl f" by blast
      have left: "(\<exists>f. buddy_alloc_rec am d (n_left n) k h = Inl f) \<or>
          buddy_alloc_rec am d (n_left n) k h = Inr (-1, h)"
        by (rule buddy_alloc_rec_full [OF n(4) True])
      show ?thesis using left n f by (auto simp: alloc_run)
    qed
  qed (use Suc.prems in simp)
qed simp

section \<open>Freeing\<close>

text \<open>After a free the tree uses a subset of its cells; the cells it no longer uses are dead.\<close>

definition free_post :: "heap \<Rightarrow> heap \<Rightarrow> ptr \<Rightarrow> int \<Rightarrow> int \<Rightarrow> btree \<Rightarrow> ptr set \<Rightarrow> bool" where
  "free_post h h' p i s t' A \<longleftrightarrow>
     (\<exists>A'. rep h' p i s t' A' \<and> A' \<subseteq> A \<and> (\<forall>x \<in> A - A'. h' x = None) \<and> (\<forall>x. x \<notin> A \<longrightarrow> h' x = h x))"

lemma free_postI:
  "rep h' p i s t' A' \<Longrightarrow> A' \<subseteq> A \<Longrightarrow> (\<And>x. x \<in> A \<Longrightarrow> x \<notin> A' \<Longrightarrow> h' x = None) \<Longrightarrow>
     (\<And>x. x \<notin> A \<Longrightarrow> h' x = h x) \<Longrightarrow> free_post h h' p i s t' A"
  unfolding free_post_def by blast

lemma free_postE:
  assumes "free_post h h' p i s t' A"
  obtains A' where "rep h' p i s t' A'" "A' \<subseteq> A" "\<And>x. x \<in> A \<Longrightarrow> x \<notin> A' \<Longrightarrow> h' x = None"
    "\<And>x. x \<notin> A \<Longrightarrow> h' x = h x"
  using assms unfolding free_post_def by blast

lemma merge_node_ok:
  assumes n: "h p = Some n" "p \<noteq> NULL" "n_state n = SPLIT" "n_idx n = i" "n_size n = s"
      "rep h (n_left n) i (s div 2) l B" "rep h (n_right n) (i + s div 2) (s div 2) r C"
      "p \<notin> B" "p \<notin> C" "B \<inter> C = {}"
  shows "\<exists>h'. merge_node p h = Inr h' \<and> free_post h h' p i s (join l r) (insert p (B \<union> C))"
proof -
  obtain nl nr where nl: "n_left n \<noteq> NULL" "h (n_left n) = Some nl" "n_left n \<in> B"
    and nr: "n_right n \<noteq> NULL" "h (n_right n) = Some nr" "n_right n \<in> C"
    using rep_cell [OF n(6)] rep_cell [OF n(7)] by blast
  have st: "n_state nl = FREE \<longleftrightarrow> l = TFree" "n_state nr = FREE \<longleftrightarrow> r = TFree"
    using rep_state(1) [OF n(6) nl(2)] rep_state(1) [OF n(7) nr(2)] by auto
  show ?thesis
  proof (cases "l = TFree \<and> r = TFree")
    case True
    then have BC: "B = {n_left n}" "C = {n_right n}" using n by auto
    let ?h = "h(n_left n := None, n_right n := None, p \<mapsto> n\<lparr>n_left := NULL, n_right := NULL, n_state := FREE\<rparr>)"
    have ne: "n_left n \<noteq> p" "n_right n \<noteq> p" "n_left n \<noteq> n_right n" using n BC by auto
    have "merge_node p h = Inr ?h"
      using n nl nr st True ne by (simp add: merge_node_def heap_simps)
    moreover have "free_post h ?h p i s TFree (insert p (B \<union> C))"
      by (rule free_postI [where A' = "{p}"]) (use n BC ne in auto)
    ultimately show ?thesis using True by simp
  next
    case False
    then have "merge_node p h = Inr h"
      using n nl nr st by (auto simp: merge_node_def heap_simps)
    moreover have "free_post h h p i s (TSplit l r) (insert p (B \<union> C))"
      by (rule free_postI [where A' = "insert p (B \<union> C)"]) (use n in auto)
    moreover have "join l r = TSplit l r" using False by (auto simp: join_eq)
    ultimately show ?thesis by simp
  qed
qed

lemma free_post_trans:
  assumes "\<And>x. x \<in> A \<Longrightarrow> x \<notin> A1 \<Longrightarrow> h1 x = None" "\<And>x. x \<notin> A \<Longrightarrow> h1 x = h x" "A1 \<subseteq> A"
    and "free_post h1 h2 p i s t A1"
  shows "free_post h h2 p i s t A"
  using assms(4)
proof (rule free_postE)
  fix A'
  assume A': "rep h2 p i s t A'" "A' \<subseteq> A1" "\<And>x. x \<in> A1 \<Longrightarrow> x \<notin> A' \<Longrightarrow> h2 x = None"
    "\<And>x. x \<notin> A1 \<Longrightarrow> h2 x = h1 x"
  show ?thesis
    by (rule free_postI [OF A'(1)]) (use A' assms in \<open>blast, metis, metis subsetD\<close>)
qed

declare buddy_free_rec.simps(2) [simp del]
lemmas free_run = buddy_free_rec.simps(2) heap_simps

lemma buddy_free_rec_sim:
  "rep h p i s t A \<Longrightarrow> height t < d \<Longrightarrow>
     \<exists>h'. buddy_free_rec d p x h = Inr (if fst (t_free i s t x) then 0 else -1, h') \<and>
          free_post h h' p i s (snd (t_free i s t x)) A"
proof (induction d arbitrary: h p i s t A)
  case (Suc d)
  show ?case
  proof (cases t)
    case TFree
    have "free_post h h p i s TFree A"
      by (rule free_postI [where A' = A]) (use Suc.prems TFree in auto)
    with Suc.prems TFree show ?thesis by (auto simp: free_run)
  next
    case TAlloc
    with Suc.prems obtain n where n: "p \<noteq> NULL" "h p = Some n" "n_state n = ALLOC" "n_idx n = i"
      "n_size n = s" "A = {p}" by auto
    show ?thesis
    proof (cases "i = x")
      case True
      have "free_post h (h(p \<mapsto> n\<lparr>n_state := FREE\<rparr>)) p i s TFree A"
        by (rule free_postI [where A' = "{p}"]) (use n in auto)
      with n True TAlloc show ?thesis by (simp add: free_run)
    next
      case False
      have "free_post h h p i s TAlloc A"
        by (rule free_postI [where A' = A]) (use n in auto)
      with n False TAlloc show ?thesis by (simp add: free_run)
    qed
  next
    case (TSplit l r)
    with Suc.prems obtain n B C where n: "h p = Some n" "p \<noteq> NULL" "n_state n = SPLIT" "n_idx n = i"
      "n_size n = s" "rep h (n_left n) i (s div 2) l B" "rep h (n_right n) (i + s div 2) (s div 2) r C"
      "p \<notin> B" "p \<notin> C" "B \<inter> C = {}" and A: "A = insert p (B \<union> C)"
      by auto
    let ?tl = "t_free i (s div 2) l x" and ?tr = "t_free (i + s div 2) (s div 2) r x"
    have d: "height l < d" "height r < d" using Suc.prems TSplit by auto
    obtain h1 where h1: "buddy_free_rec d (n_left n) x h = Inr (if fst ?tl then 0 else -1, h1)"
      "free_post h h1 (n_left n) i (s div 2) (snd ?tl) B"
      using Suc.IH [OF n(6) d(1)] by blast
    from h1(2) obtain B' where B': "rep h1 (n_left n) i (s div 2) (snd ?tl) B'" "B' \<subseteq> B"
      "\<And>x. x \<in> B \<Longrightarrow> x \<notin> B' \<Longrightarrow> h1 x = None" "\<And>x. x \<notin> B \<Longrightarrow> h1 x = h x" by (rule free_postE) blast
    have r1: "rep h1 (n_right n) (i + s div 2) (s div 2) r C"
      using B'(4) n(10) by (intro rep_frame [OF n(7)]) blast
    obtain h2 where h2: "buddy_free_rec d (n_right n) x h1 = Inr (if fst ?tr then 0 else -1, h2)"
      "free_post h1 h2 (n_right n) (i + s div 2) (s div 2) (snd ?tr) C"
      using Suc.IH [OF r1 d(2)] by blast
    from h2(2) obtain C' where C': "rep h2 (n_right n) (i + s div 2) (s div 2) (snd ?tr) C'" "C' \<subseteq> C"
      "\<And>x. x \<in> C \<Longrightarrow> x \<notin> C' \<Longrightarrow> h2 x = None" "\<And>x. x \<notin> C \<Longrightarrow> h2 x = h1 x" by (rule free_postE) blast
    have l2: "rep h2 (n_left n) i (s div 2) (snd ?tl) B'"
      using C'(4) B'(2) n(10) by (intro rep_frame [OF B'(1)]) blast
    have p1: "h1 p = Some n" and p2: "h2 p = Some n"
      using B'(4) C'(4) n by auto
    have disj: "p \<notin> B'" "p \<notin> C'" "B' \<inter> C' = {}" using B'(2) C'(2) n by auto
    obtain h3 where h3: "merge_node p h2 = Inr h3"
      "free_post h2 h3 p i s (join (snd ?tl) (snd ?tr)) (insert p (B' \<union> C'))"
      using merge_node_ok [OF p2 n(2-5) l2 C'(1) disj] by blast
    have "free_post h h3 p i s (join (snd ?tl) (snd ?tr)) A"
    proof (rule free_post_trans [OF _ _ _ h3(2)])
      show "h2 y = None" if "y \<in> A" "y \<notin> insert p (B' \<union> C')" for y
        using that A B' C' n(10) by (metis UnE UnI1 UnI2 disjoint_iff insertE insertI1 insertI2)
      show "h2 y = h y" if "y \<notin> A" for y using that A B'(4) C'(4) by auto
      show "insert p (B' \<union> C') \<subseteq> A" using A B'(2) C'(2) by auto
    qed
    then show ?thesis using n TSplit h1(1) h2(1) h3(1) p1 by (simp add: free_run)
  qed
qed simp

section \<open>Size, printing and destruction\<close>

lemma buddy_size_rec_sim:
  "rep h p i s t A \<Longrightarrow> height t < d \<Longrightarrow> buddy_size_rec d p x h = Inr (t_size i s t x)"
proof (induction d arbitrary: p i s t A)
  case (Suc d)
  show ?case
  proof (cases t)
    case (TSplit l r)
    with Suc.prems obtain n B C where n: "h p = Some n" "p \<noteq> NULL" "n_state n = SPLIT"
      "rep h (n_left n) i (s div 2) l B" "rep h (n_right n) (i + s div 2) (s div 2) r C"
      by auto
    with Suc.IH [OF n(4)] Suc.IH [OF n(5)] Suc.prems TSplit show ?thesis
      by (simp add: heap_simps Let_def)
  qed (use Suc.prems in \<open>auto simp: heap_simps\<close>)
qed simp

fun t_print :: "int \<Rightarrow> int \<Rightarrow> btree \<Rightarrow> string" where
  "t_print i s TFree = concat (replicate (nat s) ''-,'') @ ''|''"
| "t_print i s TAlloc = concat (replicate (nat s) (fmt_d i @ '','')) @ ''|''"
| "t_print i s (TSplit l r) = t_print i (s div 2) l @ t_print (i + s div 2) (s div 2) r"

lemma buddy_print_rec_sim:
  "rep h p i s t A \<Longrightarrow> height t < d \<Longrightarrow> buddy_print_rec d p h = Inr (t_print i s t)"
proof (induction d arbitrary: p i s t A)
  case (Suc d)
  show ?case
  proof (cases t)
    case (TSplit l r)
    with Suc.prems obtain n B C where n: "h p = Some n" "p \<noteq> NULL" "n_state n = SPLIT"
      "rep h (n_left n) i (s div 2) l B" "rep h (n_right n) (i + s div 2) (s div 2) r C"
      by auto
    with Suc.IH [OF n(4)] Suc.IH [OF n(5)] Suc.prems TSplit show ?thesis
      by (simp add: heap_simps)
  qed (use Suc.prems in \<open>auto simp: heap_simps\<close>)
qed simp

text \<open>Destruction frees every node exactly once and touches nothing else.\<close>

lemma buddy_kill_rec_sim:
  "rep h p i s t A \<Longrightarrow> height t < d \<Longrightarrow>
     \<exists>h'. buddy_kill_rec d p h = Inr h' \<and> (\<forall>x. h' x = (if x \<in> A then None else h x))"
proof (induction d arbitrary: h p i s t A)
  case (Suc d)
  show ?case
  proof (cases t)
    case (TSplit l r)
    with Suc.prems obtain n B C where n: "h p = Some n" "p \<noteq> NULL" "n_state n = SPLIT"
      "rep h (n_left n) i (s div 2) l B" "rep h (n_right n) (i + s div 2) (s div 2) r C"
      "p \<notin> B" "p \<notin> C" "B \<inter> C = {}" and A: "A = insert p (B \<union> C)"
      by auto
    obtain h1 where h1: "buddy_kill_rec d (n_left n) h = Inr h1" "\<And>x. h1 x = (if x \<in> B then None else h x)"
      using Suc.IH [OF n(4)] Suc.prems TSplit by auto
    have r1: "rep h1 (n_right n) (i + s div 2) (s div 2) r C"
      using h1(2) n(8) by (intro rep_frame [OF n(5)]) auto
    have "height r < d" using Suc.prems TSplit by simp
    from Suc.IH [OF r1 this] obtain h2 where h2: "buddy_kill_rec d (n_right n) h1 = Inr h2"
        "\<And>x. h2 x = (if x \<in> C then None else h1 x)" by blast
    have "h1 p = Some n" "h2 p = Some n" using h1(2) h2(2) n by auto
    then show ?thesis using n h1 h2 A by (simp add: heap_simps)
  qed (use Suc.prems in \<open>auto simp: heap_simps\<close>)
qed simp

end
