(* ===== verification/Buddy_Pages.thy ===== *)
theory Buddy_Pages
  imports Buddy_Refine
begin

text \<open>
  The allocator as its clients see it: a set of disjoint pages. The locale \<open>page_allocator\<close>
  is the contract between \<open>hw5_vmm/vmm.c\<close> (the client) and \<open>hw5_vmm/buddy.c\<close> (the
  provider); what follows from the contract alone is proved inside it. The interpretation
  at the end shows that the model of \<open>buddy.c\<close> keeps the contract.
\<close>

section \<open>The contract\<close>

locale page_allocator =
  fixes alloc :: "int \<Rightarrow> 's \<Rightarrow> fault + (int \<times> 's)"
    and release :: "int \<Rightarrow> 's \<Rightarrow> fault + (int \<times> 's)"
    and room :: "int \<Rightarrow> 's \<Rightarrow> fault + int"
    and pgs :: "'s \<Rightarrow> (int \<times> int) set"
    and limit :: "'s \<Rightarrow> int"
    and inv :: "'s \<Rightarrow> bool"
  assumes pg_bounds: "inv s \<Longrightarrow> (a, m) \<in> pgs s \<Longrightarrow> 0 \<le> a \<and> 1 \<le> m \<and> a + m \<le> limit s"
    and pg_disjoint: "inv s \<Longrightarrow> p \<in> pgs s \<Longrightarrow> q \<in> pgs s \<Longrightarrow> p \<noteq> q \<Longrightarrow> before p q \<or> before q p"
    and alloc_ret: "inv s \<Longrightarrow> 1 \<le> n \<Longrightarrow> alloc n s = Inr (a, s') \<Longrightarrow>
      inv s' \<and> limit s' = limit s \<and>
      (a = -1 \<and> s' = s \<or> 0 \<le> a \<and> (\<exists>m. n \<le> m \<and> (a, m) \<notin> pgs s \<and> pgs s' = insert (a, m) (pgs s)))"
    and release_ret: "inv s \<Longrightarrow> \<exists>s'. release a s = Inr (if \<exists>m. (a, m) \<in> pgs s then 0 else -1, s') \<and>
      inv s' \<and> limit s' = limit s \<and> pgs s' = {p \<in> pgs s. fst p \<noteq> a}"
    and room_hit: "inv s \<Longrightarrow> (a, m) \<in> pgs s \<Longrightarrow> a \<le> x \<Longrightarrow> x < a + m \<Longrightarrow> room x s = Inr (a + m - x)"
    and room_miss: "inv s \<Longrightarrow> \<forall>(a, m) \<in> pgs s. \<not> (a \<le> x \<and> x < a + m) \<Longrightarrow> room x s = Inr (-1)"
begin

lemma pg_unique:
  assumes "inv s" "(a, m) \<in> pgs s" "(b, k) \<in> pgs s" "a \<le> x" "x < a + m" "b \<le> x" "x < b + k"
  shows "(a, m) = (b, k)"
  using pg_disjoint [OF assms(1-3)] assms(4-7) by (force simp: before_def)

text \<open>\<open>room\<close> answers a positive count exactly inside a page, and the count stays inside it.\<close>

lemma room_total: "inv s \<Longrightarrow> \<exists>r. room x s = Inr r"
proof (cases "\<exists>(a, m) \<in> pgs s. a \<le> x \<and> x < a + m")
  case True
  assume "inv s"
  with True show ?thesis using room_hit by blast
next
  case False
  assume "inv s"
  with False show ?thesis using room_miss [of s x] by blast
qed

lemma room_cases:
  assumes "inv s"
  obtains (miss) "room x s = Inr (-1)" "\<forall>(a, m) \<in> pgs s. \<not> (a \<le> x \<and> x < a + m)"
    | (hit) a m where "(a, m) \<in> pgs s" "a \<le> x" "x < a + m" "room x s = Inr (a + m - x)"
proof (cases "\<exists>a m. (a, m) \<in> pgs s \<and> a \<le> x \<and> x < a + m")
  case True
  with that(2) room_hit [OF assms] show thesis by blast
next
  case False
  then have "\<forall>(a, m) \<in> pgs s. \<not> (a \<le> x \<and> x < a + m)" by auto
  with that(1) room_miss [OF assms] show thesis by blast
qed

lemma alloc_release:
  assumes "inv s" "1 \<le> n" "alloc n s = Inr (a, s1)" "0 \<le> a"
  shows "\<exists>s2. release a s1 = Inr (0, s2) \<and> inv s2 \<and> pgs s2 = pgs s \<and>
           (\<exists>s3. release a s2 = Inr (-1, s3) \<and> pgs s3 = pgs s)"
proof -
  obtain m where m: "inv s1" "1 \<le> m" "(a, m) \<notin> pgs s" "pgs s1 = insert (a, m) (pgs s)"
    using alloc_ret [OF assms(1-3)] assms(2,4) by (auto dest: order_trans)
  have "b \<noteq> a" if "(b, k) \<in> pgs s" for b k
  proof
    assume "b = a"
    with that have "(a, k) \<in> pgs s1" "1 \<le> k" using m pg_bounds [OF assms(1) that] by auto
    then have "(a, k) = (a, m)"
      using pg_unique [OF m(1), of a k a m a] m by simp
    with that \<open>b = a\<close> m show False by simp
  qed
  then have only: "{p \<in> pgs s1. fst p \<noteq> a} = pgs s" "{p \<in> pgs s. fst p \<noteq> a} = pgs s"
    and no: "\<nexists>k. (a, k) \<in> pgs s" and yes: "\<exists>k. (a, k) \<in> pgs s1" using m by fastforce+
  obtain s2 where s2: "release a s1 = Inr (0, s2)" "inv s2" "pgs s2 = pgs s"
    using release_ret [OF m(1), of a] yes only by (simp only: if_True) blast
  obtain s3 where "release a s2 = Inr (-1, s3)" "pgs s3 = pgs s"
    using release_ret [OF s2(2), of a] s2(3) only no by auto
  with s2 show ?thesis by blast
qed

lemma release_other:
  assumes "inv s" "release a s = Inr (r, s')" "(b, k) \<in> pgs s" "b \<noteq> a" "b \<le> x" "x < b + k"
  shows "room x s' = room x s"
proof -
  have s': "inv s'" "(b, k) \<in> pgs s'" using release_ret [OF assms(1), of a] assms by auto
  show ?thesis using room_hit [OF s'] room_hit [OF assms(1,3)] assms by simp
qed

end

section \<open>Pages of the heap\<close>

definition pages :: "buddy \<Rightarrow> (int \<times> int) set" where
  "pages b = {(n_idx n, n_size n) | p n. cells b p = Some n \<and> n_state n = ALLOC}"

definition free_leaves :: "buddy \<Rightarrow> int set" where
  "free_leaves b = {n_size n | p n. cells b p = Some n \<and> n_state n = FREE}"

text \<open>
  The invariant: the heap holds one coalesced tree and nothing else (no node leaked, none
  shared), over a pool whose size is a nonnegative \<open>int\<close>.
\<close>

definition buddy_tree :: "buddy \<Rightarrow> btree \<Rightarrow> bool" where
  "buddy_tree b t \<longleftrightarrow> rep (cells b) (buddy_head b) 0 (pool_len b) t (dom (cells b)) \<and>
     t_wf (pool_len b) t \<and> coalesced t \<and> pool_len b \<le> INT_MAX"

lemma buddy_treeD:
  assumes "buddy_tree b t"
  shows "rep (cells b) (buddy_head b) 0 (pool_len b) t (dom (cells b))"
    "t_wf (pool_len b) t" "coalesced t" "pool_len b \<le> INT_MAX"
  using assms by (simp_all add: buddy_tree_def)

definition buddy_inv :: "buddy \<Rightarrow> bool" where
  "buddy_inv b \<longleftrightarrow> (\<exists>t. buddy_tree b t)"

lemma rep_leaves:
  "rep h p i s t A \<Longrightarrow>
     {(n_idx n, n_size n) | q n. q \<in> A \<and> h q = Some n \<and> n_state n = ALLOC} = set (blocks i s t) \<and>
     {n_size n | q n. q \<in> A \<and> h q = Some n \<and> n_state n = FREE} = set (free_sizes s t)"
proof (induction t arbitrary: p i s A)
  case (TSplit l r)
  then obtain n B C where n: "h p = Some n" "n_state n = SPLIT"
    "rep h (n_left n) i (s div 2) l B" "rep h (n_right n) (i + s div 2) (s div 2) r C"
    and A: "A = insert p (B \<union> C)" by auto
  have "{(n_idx n, n_size n) | q n. q \<in> A \<and> h q = Some n \<and> n_state n = ALLOC} =
      {(n_idx n, n_size n) | q n. q \<in> B \<and> h q = Some n \<and> n_state n = ALLOC} \<union>
      {(n_idx n, n_size n) | q n. q \<in> C \<and> h q = Some n \<and> n_state n = ALLOC}"
    using n A by auto
  moreover have "{n_size n | q n. q \<in> A \<and> h q = Some n \<and> n_state n = FREE} =
      {n_size n | q n. q \<in> B \<and> h q = Some n \<and> n_state n = FREE} \<union>
      {n_size n | q n. q \<in> C \<and> h q = Some n \<and> n_state n = FREE}"
    using n A by auto
  ultimately show ?case using TSplit.IH(1) [OF n(3)] TSplit.IH(2) [OF n(4)] by simp
qed auto

lemma rep_node_bounds:
  "rep h p i s t A \<Longrightarrow> t_wf s t \<Longrightarrow> q \<in> A \<Longrightarrow> h q = Some n \<Longrightarrow>
     i \<le> n_idx n \<and> 0 \<le> n_size n \<and> n_idx n + n_size n \<le> i + s"
proof (induction t arbitrary: p i s A)
  case (TSplit l r)
  then obtain m B C where m: "h p = Some m" "n_idx m = i" "n_size m = s"
    "rep h (n_left m) i (s div 2) l B" "rep h (n_right m) (i + s div 2) (s div 2) r C"
    and A: "A = insert p (B \<union> C)" and wf: "2 \<le> s" "t_wf (s div 2) l" "t_wf (s div 2) r" by auto
  have h: "s div 2 + s div 2 \<le> s" "0 \<le> s div 2" using wf half_le [of s] by auto
  consider "q = p" | "q \<in> B" | "q \<in> C" using A TSplit.prems by auto
  then show ?case
  proof cases
    case 1
    with m wf TSplit.prems show ?thesis by simp
  next
    case 2
    with TSplit.IH(1) [OF m(4) wf(2)] TSplit.prems h show ?thesis by fastforce
  next
    case 3
    with TSplit.IH(2) [OF m(5) wf(3)] TSplit.prems h show ?thesis by fastforce
  qed
qed auto

lemma dom_leaves:
  "{(n_idx n, n_size n) | q n. q \<in> dom h \<and> h q = Some n \<and> n_state n = X} =
     {(n_idx n, n_size n) | q n. h q = Some n \<and> n_state n = X}"
  "{n_size n | q n. q \<in> dom h \<and> h q = Some n \<and> n_state n = X} =
     {n_size n | q n. h q = Some n \<and> n_state n = X}"
  by auto

lemma pages_blocks: "buddy_tree b t \<Longrightarrow> pages b = set (blocks 0 (pool_len b) t)"
  using rep_leaves [of "cells b" "buddy_head b" 0 "pool_len b" t "dom (cells b)"]
  by (simp add: buddy_tree_def pages_def dom_leaves)

lemma free_leaves_sizes: "buddy_tree b t \<Longrightarrow> free_leaves b = set (free_sizes (pool_len b) t)"
  using rep_leaves [of "cells b" "buddy_head b" 0 "pool_len b" t "dom (cells b)"]
  by (simp add: buddy_tree_def free_leaves_def dom_leaves)

text \<open>31 stack frames are enough for every pool an \<open>int\<close> can describe.\<close>

lemma frames_enough:
  assumes "buddy_tree b t" "31 \<le> d"
  shows "pool_len b < 2 ^ d" "height t < d"
proof -
  have "pool_len b < 2 ^ 31" using assms(1) by (simp add: buddy_tree_def INT_MAX_def)
  also have "(2::int) ^ 31 \<le> 2 ^ d" using assms(2) by (intro power_increasing) auto
  finally show lt: "pool_len b < 2 ^ d" .
  show "height t < d"
  proof (cases "1 \<le> pool_len b")
    case True
    then have "(2::int) ^ height t \<le> pool_len b"
      using assms(1) height_bound by (simp add: buddy_tree_def)
    with lt have "(2::int) ^ height t < 2 ^ d" by linarith
    then show ?thesis by (simp add: power_strict_increasing_iff)
  next
    case False
    then have "height t = 0" using assms(1) by (cases t) (auto simp: buddy_tree_def)
    then show ?thesis using assms(2) by simp
  qed
qed

section \<open>Each entry point on the invariant\<close>

lemma buddy_alloc_tree:
  assumes am: "malloc_ok am" and t: "buddy_tree b t" and n: "1 \<le> n" and d: "31 \<le> d"
  obtains (fault) "buddy_alloc am d n b = Inl NullDeref"
    | (none) "buddy_alloc am d n b = Inr (-1, b)" "t_alloc 0 (pool_len b) t n = None"
    | (some) a t' b' where "buddy_alloc am d n b = Inr (a, b')"
        "t_alloc 0 (pool_len b) t n = Some (a, t')" "buddy_tree b' t'" "b' = b\<lparr>cells := cells b'\<rparr>"
proof -
  have rep: "rep (cells b) (buddy_head b) 0 (pool_len b) t (dom (cells b))" "t_wf (pool_len b) t"
    using t by (auto simp: buddy_tree_def)
  have "alloc_sim (buddy_alloc_rec am d (buddy_head b) n (cells b)) (t_alloc 0 (pool_len b) t n)
      (cells b) (buddy_head b) 0 (pool_len b) (dom (cells b))"
    using buddy_alloc_rec_sim [OF am n rep _ frames_enough(1) [OF t d]] d by simp
  then show thesis
  proof (cases rule: alloc_sim_cases)
    case fault
    then show ?thesis using that(1) by (simp add: buddy_alloc_def)
  next
    case none
    then show ?thesis using that(2) by (simp add: buddy_alloc_def)
  next
    case (some a t' h')
    then obtain A' where A': "rep h' (buddy_head b) 0 (pool_len b) t' A'" "dom (cells b) \<subseteq> A'"
      "\<And>x. x \<notin> A' \<Longrightarrow> h' x = cells b x" by (auto elim: alloc_postE)
    have "h' y = None" if "y \<notin> A'" for y using A'(2) A'(3) [of y] that by auto
    then have "dom h' = A'" using rep_dom [OF A'(1)] by (metis (no_types, lifting) domIff subsetI subset_antisym)
    then have "buddy_tree (b\<lparr>cells := h'\<rparr>) t'"
      using A' t t_alloc_wf [OF some(2) n rep(2)] t_alloc_coalesced [OF some(2)]
      by (simp add: buddy_tree_def)
    then show ?thesis using that(3) [of a "b\<lparr>cells := h'\<rparr>" t'] some by (simp add: buddy_alloc_def)
  qed
qed

lemma buddy_alloc_serves:
  assumes "malloc_ok am" "malloc_serves am N" "31 \<le> d" "buddy_tree b t" "1 \<le> n"
    and "card (dom (cells b)) + 62 \<le> N"
  shows "\<exists>r. buddy_alloc am d n b = Inr r"
proof -
  have e: "pool_len b < 2 ^ 31" by (rule frames_enough(1) [OF assms(4)]) simp
  have "\<exists>r. buddy_alloc_rec am d (buddy_head b) n (cells b) = Inr r"
    by (rule buddy_alloc_rec_serves [OF assms(1,2,5) buddy_treeD(1,2) [OF assms(4)] _
          frames_enough(1) [OF assms(4,3)] _ e])
       (use assms in \<open>auto simp: rep_finite [OF buddy_treeD(1)]\<close>)
  then show ?thesis by (auto simp: buddy_alloc_def)
qed

lemma buddy_free_tree:
  assumes t: "buddy_tree b t" and d: "31 \<le> d"
  obtains b' where "buddy_free d x b = Inr (if \<exists>m. (x, m) \<in> pages b then 0 else -1, b')"
    "buddy_tree b' (snd (t_free 0 (pool_len b) t x))" "b' = b\<lparr>cells := cells b'\<rparr>"
proof -
  let ?t = "snd (t_free 0 (pool_len b) t x)"
  have rep: "rep (cells b) (buddy_head b) 0 (pool_len b) t (dom (cells b))"
    using t by (auto simp: buddy_tree_def)
  obtain h' where h': "buddy_free_rec d (buddy_head b) x (cells b) =
      Inr (if fst (t_free 0 (pool_len b) t x) then 0 else -1, h')"
    "free_post (cells b) h' (buddy_head b) 0 (pool_len b) ?t (dom (cells b))"
    using buddy_free_rec_sim [OF rep frames_enough(2) [OF t d]] by blast
  from h'(2) obtain A' where A': "rep h' (buddy_head b) 0 (pool_len b) ?t A'" "A' \<subseteq> dom (cells b)"
    "\<And>y. y \<in> dom (cells b) \<Longrightarrow> y \<notin> A' \<Longrightarrow> h' y = None" "\<And>y. y \<notin> dom (cells b) \<Longrightarrow> h' y = cells b y"
    by (rule free_postE) blast
  have "h' y = None" if "y \<notin> A'" for y using A'(3) [of y] A'(4) [of y] that by (cases "y \<in> dom (cells b)") auto
  then have "dom h' = A'" using rep_dom [OF A'(1)] by (metis (no_types, lifting) domIff subsetI subset_antisym)
  then have "buddy_tree (b\<lparr>cells := h'\<rparr>) ?t"
    using A'(1) t t_free_wf [of "pool_len b" t 0 x] t_free_coalesced [of t 0 "pool_len b" x]
    by (simp add: buddy_tree_def)
  moreover have "fst (t_free 0 (pool_len b) t x) \<longleftrightarrow> (\<exists>m. (x, m) \<in> pages b)"
    by (simp add: pages_blocks [OF t] t_free_fst)
  ultimately show thesis
    using that [of "b\<lparr>cells := h'\<rparr>"] h'(1) by (simp add: buddy_free_def)
qed

lemma buddy_size_tree: "buddy_tree b t \<Longrightarrow> 31 \<le> d \<Longrightarrow> buddy_size d x b = Inr (t_size 0 (pool_len b) t x)"
  by (simp add: buddy_size_def buddy_size_rec_sim [OF buddy_treeD(1) frames_enough(2)])

lemma buddy_print_tree: "buddy_tree b t \<Longrightarrow> 31 \<le> d \<Longrightarrow> buddy_print d b = Inr (t_print 0 (pool_len b) t)"
  by (simp add: buddy_print_def buddy_print_rec_sim [OF buddy_treeD(1) frames_enough(2)])

lemma buddy_init_tree:
  assumes "cells b = Map.empty" "0 \<le> sz" "sz \<le> INT_MAX"
  shows "\<exists>rt b'. buddy_init am sz b = Inr (rt, b') \<and>
     (if bm_pool am sz \<and> bm_node am (cells b) \<noteq> NULL
      then rt = 0 \<and> buddy_inv b' \<and> pages b' = {} \<and> free_leaves b' = {sz} \<and> pool_len b' = sz \<and>
           buddy_pool b' = bm_bytes am \<and> pools_live b' = Suc (pools_live b)
      else rt = -1 \<and> cells b' = Map.empty \<and>
           pools_live b' = (if bm_pool am sz then Suc (pools_live b) else pools_live b))"
proof (cases "bm_pool am sz \<and> bm_node am (cells b) \<noteq> NULL")
  case False
  then show ?thesis using assms(1) by (auto simp: buddy_init_def malloc_node_def)
next
  case True
  obtain n where n: "n_state n = FREE" "n_idx n = 0" "n_size n = sz"
    and run: "buddy_init am sz b = Inr (0, b\<lparr>buddy_pool := bm_bytes am, pool_len := sz,
      pools_live := Suc (pools_live b), buddy_head := bm_node am Map.empty,
      cells := [bm_node am Map.empty \<mapsto> n]\<rparr>)" (is "_ = Inr (0, ?b)")
  proof -
    let ?n = "bm_junk am (bm_node am Map.empty)\<lparr>n_left := NULL, n_right := NULL, n_state := FREE, n_size := sz, n_idx := 0\<rparr>"
    show thesis
      by (rule that [of ?n]) (use True assms(1) in \<open>simp_all add: buddy_init_def malloc_node_def Let_def heap_simps\<close>)
  qed
  have t: "buddy_tree ?b TFree" using True n assms by (auto simp: buddy_tree_def)
  then have "buddy_inv ?b" "pages ?b = {}" "free_leaves ?b = {sz}"
    by (auto simp: buddy_inv_def pages_blocks free_leaves_sizes)
  then show ?thesis using run True by simp
qed

lemma buddy_kill_tree:
  assumes t: "buddy_tree b t" and d: "31 \<le> d"
  shows "\<exists>b'. buddy_kill d b = Inr b' \<and> cells b' = Map.empty \<and> pools_live b' = pools_live b"
proof -
  obtain h' where h': "buddy_kill_rec d (buddy_head b) (cells b) = Inr h'"
    "\<And>x. h' x = (if x \<in> dom (cells b) then None else cells b x)"
    using buddy_kill_rec_sim [OF buddy_treeD(1) [OF t] frames_enough(2) [OF t d]] by blast
  have "h' = Map.empty" by (rule ext) (use h'(2) in \<open>auto simp: domIff\<close>)
  with h'(1) show ?thesis by (simp add: buddy_kill_def)
qed

lemma pages_before:
  assumes t: "buddy_tree b t" and "p \<in> pages b" "q \<in> pages b" "p \<noteq> q"
  shows "before p q \<or> before q p"
proof -
  have srt: "sorted_wrt before (blocks 0 (pool_len b) t)"
    using t blocks_sorted by (simp add: buddy_tree_def)
  obtain u v where u: "u < length (blocks 0 (pool_len b) t)" "blocks 0 (pool_len b) t ! u = p"
    and v: "v < length (blocks 0 (pool_len b) t)" "blocks 0 (pool_len b) t ! v = q"
    using assms(2,3) by (auto simp: pages_blocks [OF t] in_set_conv_nth)
  with assms(4) have "u < v \<or> v < u" by (metis nat_neq_iff)
  then show ?thesis using sorted_wrt_nth_less [OF srt] u v by metis
qed

lemma pages_alloc:
  assumes "buddy_tree b t" "buddy_tree b' t'" "pool_len b' = pool_len b" "1 \<le> n"
    and a: "t_alloc 0 (pool_len b) t n = Some (a, t')"
  shows "\<exists>m. n \<le> m \<and> m div 2 < n \<and> (a, m) \<notin> pages b \<and> pages b' = insert (a, m) (pages b)"
proof -
  obtain m xs ys where m: "blocks 0 (pool_len b) t = xs @ ys"
    "blocks 0 (pool_len b) t' = xs @ (a, m) # ys" "n \<le> m" "m div 2 < n"
    using t_alloc_blocks [OF a assms(4)] by blast
  have wf: "t_wf (pool_len b) t'" using assms(2,3) by (simp add: buddy_tree_def)
  have "sorted_wrt before (xs @ (a, m) # ys)" using blocks_sorted [OF wf, of 0] m by simp
  then have "(a, m) \<notin> set (xs @ ys)"
    using m(3) assms(4) by (fastforce simp: sorted_wrt_append before_def)
  then show ?thesis using m pages_blocks [OF assms(1)] pages_blocks [OF assms(2)] assms(3) by auto
qed

section \<open>buddy.c keeps the contract\<close>

interpretation bd: page_allocator "buddy_alloc am d" "buddy_free d" "buddy_size d" pages pool_len
    "\<lambda>b. malloc_ok am \<and> 31 \<le> d \<and> buddy_inv b" for am d
proof (unfold_locales, goal_cases)
  case (1 b a m)
  then obtain t where t: "buddy_tree b t" by (auto simp: buddy_inv_def)
  with 1(2) show ?case
    using blocks_bounds [OF buddy_treeD(2) [OF t], of a m 0] by (simp add: pages_blocks [OF t])
next
  case (2 b p q)
  then obtain t where "buddy_tree b t" by (auto simp: buddy_inv_def)
  then show ?case using 2(2-4) by (rule pages_before)
next
  case (3 b n a b')
  then obtain t where t: "buddy_tree b t" and am: "malloc_ok am" and d: "31 \<le> d"
    by (auto simp: buddy_inv_def)
  show ?case
  proof (cases rule: buddy_alloc_tree [OF am t 3(2) d, case_names fault none some])
    case fault
    with 3 show ?thesis by simp
  next
    case none
    with 3 show ?thesis by auto
  next
    case (some a2 t' b2)
    with 3 have eq: "a2 = a" "b2 = b'" by auto
    with some have len: "pool_len b' = pool_len b" by (metis buddy.select_convs(4) buddy.surjective buddy.update_convs(1))
    have "0 \<le> a" using t_alloc_idx [OF some(2) 3(2)] t eq by (simp add: buddy_tree_def)
    then show ?thesis
      using some eq len am d pages_alloc [OF t some(3) _ 3(2)] by (auto simp: buddy_inv_def)
  qed
next
  case (4 b a)
  then obtain t where t: "buddy_tree b t" and am: "malloc_ok am" and d: "31 \<le> d"
    by (auto simp: buddy_inv_def)
  obtain b' where b': "buddy_free d a b = Inr (if \<exists>m. (a, m) \<in> pages b then 0 else -1, b')"
    "buddy_tree b' (snd (t_free 0 (pool_len b) t a))" "b' = b\<lparr>cells := cells b'\<rparr>"
    by (rule buddy_free_tree [OF t d])
  have len: "pool_len b' = pool_len b" by (subst b'(3)) simp
  have "pages b' = {p \<in> pages b. fst p \<noteq> a}"
    using pages_blocks [OF t] pages_blocks [OF b'(2)] by (auto simp: len t_free_blocks)
  with b' len am d show ?case by (auto simp: buddy_inv_def)
next
  case (5 b a m x)
  then obtain t where t: "buddy_tree b t" and d: "31 \<le> d" by (auto simp: buddy_inv_def)
  with 5 show ?case
    using t_size_inside [OF buddy_treeD(2) [OF t], of a m 0 x]
    by (simp add: buddy_size_tree [OF t] pages_blocks [OF t])
next
  case (6 b x)
  then obtain t where t: "buddy_tree b t" and d: "31 \<le> d" by (auto simp: buddy_inv_def)
  with 6 show ?case
    using t_size_outside [of 0 "pool_len b" t x]
    by (simp add: buddy_size_tree [OF t] pages_blocks [OF t])
qed

end
