(* ===== verification/Buddy_Props.thy ===== *)
theory Buddy_Props
  imports Buddy_Pages
begin

text \<open>
  Properties of the buddy allocator's entry points (\<open>hw5_vmm/buddy.c\<close>), over the model
  of theory Buddy. Each hypothesis is the invariant \<open>buddy_inv\<close>, the contract of
  \<open>malloc\<close>, or a stack of at least 31 frames; the witnesses run the model with a
  first-fit allocator of 200 cells.
\<close>

section \<open>A concrete allocator\<close>

fun fit_from :: "nat \<Rightarrow> nat \<Rightarrow> heap \<Rightarrow> ptr" where
  "fit_from 0 a h = NULL"
| "fit_from (Suc k) a h = (if h a = None then a else fit_from k (Suc a) h)"

definition first_fit :: "heap \<Rightarrow> ptr" where
  "first_fit h = fit_from 200 1 h"

lemma fit_from_fresh: "fit_from k a h \<noteq> NULL \<Longrightarrow> h (fit_from k a h) = None"
  by (induction k arbitrary: a) auto

lemma fit_from_full: "fit_from k a h = NULL \<Longrightarrow> a \<noteq> 0 \<Longrightarrow> {a..<a + k} \<subseteq> dom h"
proof (induction k arbitrary: a)
  case (Suc k)
  from Suc.prems have *: "h a \<noteq> None" "fit_from k (Suc a) h = NULL" by (auto split: if_splits)
  from Suc.IH [OF this(2)] have "{Suc a..<Suc a + k} \<subseteq> dom h" by simp
  moreover have "{a..<a + Suc k} = insert a {Suc a..<Suc a + k}" by auto
  ultimately show ?case using * by auto
qed simp

definition garbage :: node_t where
  "garbage = \<lparr>n_idx = 77, n_state = ALLOC, n_size = -9, n_left = 55, n_right = 66\<rparr>"

definition malloc_demo :: allocator where
  "malloc_demo = \<lparr>bm_node = first_fit, bm_junk = (\<lambda>a. garbage), bm_pool = (\<lambda>k. 0 \<le> k), bm_bytes = (\<lambda>k. 0)\<rparr>"

definition no_buddy :: buddy where
  "no_buddy = \<lparr>cells = Map.empty, buddy_head = NULL, buddy_pool = (\<lambda>k. 0), pool_len = 0, pools_live = 0\<rparr>"

lemma malloc_demo_ok: "malloc_ok malloc_demo"
proof -
  have "first_fit h = NULL \<or> h (first_fit h) = None" for h
    using fit_from_fresh [of 200 1 h] by (metis first_fit_def)
  then show ?thesis by (simp add: malloc_ok_def malloc_demo_def)
qed

lemma malloc_demo_serves: "malloc_serves malloc_demo 200"
proof -
  have "first_fit h \<noteq> NULL" if "finite (dom h)" "card (dom h) < 200" for h :: heap
  proof
    assume "first_fit h = NULL"
    then have "card {1..<1 + 200::nat} \<le> card (dom h)"
      using that(1) fit_from_full [of 200 1 h] by (intro card_mono) (auto simp: first_fit_def)
    with that(2) show False by simp
  qed
  then show ?thesis by (simp add: malloc_serves_def malloc_demo_def)
qed

definition demo_node :: "int \<Rightarrow> node_state \<Rightarrow> int \<Rightarrow> ptr \<Rightarrow> ptr \<Rightarrow> node_t" where
  "demo_node i st s l r = \<lparr>n_idx = i, n_state = st, n_size = s, n_left = l, n_right = r\<rparr>"

text \<open>A pool of 16 bytes with the page of 8 bytes at 0 allocated, and the pool before that.\<close>

definition demo_empty :: buddy where
  "demo_empty = \<lparr>cells = [1 \<mapsto> demo_node 0 FREE 16 NULL NULL], buddy_head = 1,
     buddy_pool = (\<lambda>k. 0), pool_len = 16, pools_live = 1\<rparr>"

definition demo_half :: buddy where
  "demo_half = demo_empty\<lparr>cells := [1 \<mapsto> demo_node 0 SPLIT 16 2 3,
     2 \<mapsto> demo_node 0 ALLOC 8 NULL 66, 3 \<mapsto> demo_node 8 FREE 8 55 NULL]\<rparr>"

lemma demo_empty_tree: "buddy_tree demo_empty TFree"
  by (simp add: buddy_tree_def demo_empty_def demo_node_def INT_MAX_def)

lemma demo_half_tree: "buddy_tree demo_half (TSplit TAlloc TFree)"
  by (auto simp: buddy_tree_def demo_half_def demo_empty_def demo_node_def INT_MAX_def)

lemma demo_invs: "buddy_inv demo_empty" "buddy_inv demo_half"
  using demo_empty_tree demo_half_tree by (auto simp: buddy_inv_def)

lemma demo_pages: "pages demo_empty = {}" "pages demo_half = {(0, 8)}"
  by (subst pages_blocks [OF demo_empty_tree], simp)
     (subst pages_blocks [OF demo_half_tree], simp add: demo_half_def demo_empty_def)

lemma demo_half_alloc: "\<exists>b1. buddy_alloc malloc_demo 31 5 demo_half = Inr (8, b1)"
proof -
  obtain r where r: "buddy_alloc malloc_demo 31 5 demo_half = Inr r"
    using buddy_alloc_rec_serves [OF malloc_demo_ok malloc_demo_serves, of 5 "cells demo_half" 1 0 16
        "TSplit TAlloc TFree" "dom (cells demo_half)" 31 31] demo_half_tree
    by (force simp: buddy_alloc_def buddy_tree_def demo_half_def demo_empty_def card_insert_if)
  have "t_alloc 0 16 (TSplit TAlloc TFree) 5 = Some (8, TSplit TAlloc TAlloc)"
    by (simp add: t_alloc.simps split_down.simps [of 8 5])
  moreover have "pool_len demo_half = 16" by (simp add: demo_half_def demo_empty_def)
  ultimately show ?thesis
    by (cases rule: buddy_alloc_tree [OF malloc_demo_ok demo_half_tree, of 5 31, case_names pos frames fault none some])
       (use r in auto)
qed

section \<open>Allocation\<close>

lemma buddy_alloc_outcome:
  assumes "malloc_ok am" "31 \<le> d" "buddy_inv b" "1 \<le> n"
  shows "case buddy_alloc am d n b of
      Inl f \<Rightarrow> f = NullDeref
    | Inr (rt, b') \<Rightarrow> buddy_inv b' \<and> pool_len b' = pool_len b \<and> buddy_pool b' = buddy_pool b \<and>
        (if \<exists>s \<in> free_leaves b. n \<le> s
         then 0 \<le> rt \<and> (\<exists>m. n \<le> m \<and> m div 2 < n \<and> rt + m \<le> pool_len b \<and>
                pages b' = insert (rt, m) (pages b) \<and>
                (\<forall>(a, k) \<in> pages b. a + k \<le> rt \<or> rt + m \<le> a))
         else rt = -1 \<and> b' = b)"
proof -
  obtain t where t: "buddy_tree b t" using assms(3) by (auto simp: buddy_inv_def)
  have none: "t_alloc 0 (pool_len b) t n = None \<longleftrightarrow> \<not> (\<exists>s \<in> free_leaves b. n \<le> s)"
    by (auto simp: t_alloc_None_iff free_leaves_sizes [OF t])
  show ?thesis
  proof (cases rule: buddy_alloc_tree [OF assms(1) t assms(4,2), case_names fault none some])
    case fault
    then show ?thesis by simp
  next
    case none2: none
    with none assms(3) show ?thesis by simp
  next
    case (some a t' b')
    have b': "pool_len b' = pool_len b" "buddy_pool b' = buddy_pool b"
      by (subst some(4), simp)+
    obtain m where m: "n \<le> m" "m div 2 < n" "(a, m) \<notin> pages b" "pages b' = insert (a, m) (pages b)"
      using pages_alloc [OF t some(3) b'(1) assms(4) some(2)] by blast
    have inv': "buddy_inv b'" using some(3) by (auto simp: buddy_inv_def)
    have bd: "0 \<le> a" "a + m \<le> pool_len b"
      using bd.pg_bounds [of am d b' a m] inv' assms m b' by auto
    have "a' + k \<le> a \<or> a + m \<le> a'" if "(a', k) \<in> pages b" for a' k
      using pages_before [OF some(3), of "(a', k)" "(a, m)"] that m by (auto simp: before_def)
    then have "\<forall>(a', k) \<in> pages b. a' + k \<le> a \<or> a + m \<le> a'" by blast
    then have "\<exists>m. n \<le> m \<and> m div 2 < n \<and> a + m \<le> pool_len b \<and> pages b' = insert (a, m) (pages b) \<and>
        (\<forall>(a', k) \<in> pages b. a' + k \<le> a \<or> a + m \<le> a')"
      using m bd(2) by blast
    moreover have "\<exists>s \<in> free_leaves b. n \<le> s" using none some(2) by simp
    ultimately show ?thesis using some(1) b' inv' bd(1) by simp
  qed
qed

text \<open>C1: \<open>buddy_alloc\<close> of a positive size returns -1, changing nothing, exactly when every free
  leaf is smaller than the request; otherwise it returns the index of a new page inside the pool, at least
  as large as the request and less than twice too large, overlapping no existing page, and no
  other page and no pool byte changes. The only possible fault is the unchecked result of a failed
  \<open>bmalloc\<close>.\<close>

theorem buddy_alloc_correct:
  assumes "malloc_ok am" "31 \<le> d" "buddy_inv b" "1 \<le> n"
  shows "case buddy_alloc am d n b of
      Inl f \<Rightarrow> f = NullDeref
    | Inr (rt, b') \<Rightarrow> buddy_inv b' \<and> pool_len b' = pool_len b \<and> buddy_pool b' = buddy_pool b \<and>
        (if \<exists>s \<in> free_leaves b. n \<le> s
         then 0 \<le> rt \<and> (\<exists>m. n \<le> m \<and> m div 2 < n \<and> rt + m \<le> pool_len b \<and>
                pages b' = insert (rt, m) (pages b) \<and>
                (\<forall>(a, k) \<in> pages b. a + k \<le> rt \<or> rt + m \<le> a))
         else rt = -1 \<and> b' = b)"
  by (rule buddy_alloc_outcome [OF assms])

theorem buddy_alloc_correct_witness:
  "\<exists>b' m. buddy_alloc malloc_demo 31 5 demo_half = Inr (8, b') \<and> buddy_inv b' \<and> 5 \<le> m \<and> 8 + m \<le> 16 \<and>
     pages b' = {(8, m), (0, 8)}"
proof -
  obtain b' where b': "buddy_alloc malloc_demo 31 5 demo_half = Inr (8, b')" using demo_half_alloc by blast
  have len: "pool_len demo_half = 16" by (simp add: demo_half_def demo_empty_def)
  then have "\<exists>s \<in> free_leaves demo_half. 5 \<le> s" by (simp add: free_leaves_sizes [OF demo_half_tree])
  then show ?thesis
    using buddy_alloc_correct [OF malloc_demo_ok _ demo_invs(2), of 31 5] b'
    by (auto simp: demo_pages len)
qed

text \<open>C2: If the memory allocator can hold 62 more tree nodes, \<open>buddy_alloc\<close> of a positive size
  returns (with 31 stack frames): no allocation needs more than 31 splits, whatever the pool.\<close>

theorem buddy_alloc_total:
  assumes "malloc_ok am" "malloc_serves am N" "31 \<le> d" "buddy_inv b" "1 \<le> n"
    and "card (dom (cells b)) + 62 \<le> N"
  shows "\<exists>rt b'. buddy_alloc am d n b = Inr (rt, b')"
proof -
  obtain t where t: "buddy_tree b t" using assms(4) by (auto simp: buddy_inv_def)
  show ?thesis using buddy_alloc_serves [OF assms(1-3) t assms(5,6)] by auto
qed

theorem buddy_alloc_total_witness: "\<exists>rt b'. buddy_alloc malloc_demo 31 5 demo_half = Inr (rt, b')"
  by (rule buddy_alloc_total [OF malloc_demo_ok malloc_demo_serves _ demo_invs(2)])
     (simp_all add: demo_half_def demo_empty_def card_insert_if)

text \<open>A request for zero or fewer bytes never returns while any leaf is free: the guard
  \<open>n->size / 2 >= size\<close> holds at every level, so the free leaf is halved for ever and the call
  ends in a fault (a null dereference when \<open>bmalloc\<close> fails, or an exhausted stack).\<close>

theorem buddy_alloc_nonpositive:
  assumes "malloc_ok am" "buddy_inv b" "n \<le> 0" "free_leaves b \<noteq> {}"
  shows "\<exists>f. buddy_alloc am d n b = Inl f"
proof -
  obtain t where t: "buddy_tree b t" using assms(2) by (auto simp: buddy_inv_def)
  have "free_sizes (pool_len b) t \<noteq> []" using assms(4) by (auto simp: free_leaves_sizes [OF t])
  from buddy_alloc_rec_endless [OF assms(1,3) buddy_treeD(1,2) [OF t] this, of d]
  show ?thesis by (auto simp: buddy_alloc_def)
qed

theorem buddy_alloc_nonpositive_witness: "\<exists>f. buddy_alloc malloc_demo 1000 0 demo_half = Inl f"
  by (rule buddy_alloc_nonpositive [OF malloc_demo_ok demo_invs(2)])
     (simp_all add: free_leaves_sizes [OF demo_half_tree])

section \<open>Freeing, sizes, printing\<close>

text \<open>C3: \<open>buddy_free\<close> always returns: 0 when a page starts at the index, -1 otherwise. Exactly
  the page at that index is gone, every other page, the pool's bytes and the coalesced tree
  invariant are kept; a free that returns -1 leaves the free leaves and the drawing of the pool
  as they were.\<close>

theorem buddy_free_correct:
  assumes "31 \<le> d" "buddy_inv b"
  shows "\<exists>b'. buddy_free d x b = Inr (if \<exists>m. (x, m) \<in> pages b then 0 else -1, b') \<and>
     buddy_inv b' \<and> pages b' = {p \<in> pages b. fst p \<noteq> x} \<and>
     pool_len b' = pool_len b \<and> buddy_pool b' = buddy_pool b \<and>
     ((\<nexists>m. (x, m) \<in> pages b) \<longrightarrow> free_leaves b' = free_leaves b \<and> buddy_print d b' = buddy_print d b)"
proof -
  obtain t where t: "buddy_tree b t" using assms(2) by (auto simp: buddy_inv_def)
  let ?t = "snd (t_free 0 (pool_len b) t x)"
  obtain b' where b': "buddy_free d x b = Inr (if \<exists>m. (x, m) \<in> pages b then 0 else -1, b')"
    "buddy_tree b' ?t" "b' = b\<lparr>cells := cells b'\<rparr>"
    by (rule buddy_free_tree [OF t assms(1)])
  have len: "pool_len b' = pool_len b" "buddy_pool b' = buddy_pool b" by (subst b'(3), simp)+
  have "pages b' = {p \<in> pages b. fst p \<noteq> x}"
    using pages_blocks [OF t] pages_blocks [OF b'(2)] by (auto simp: len t_free_blocks)
  moreover have "free_leaves b' = free_leaves b \<and> buddy_print d b' = buddy_print d b"
    if "\<nexists>m. (x, m) \<in> pages b"
  proof -
    have "?t = t"
      using t_free_miss [OF buddy_treeD(3) [OF t]] that by (simp add: pages_blocks [OF t] t_free_fst)
    with b'(2) show ?thesis
      using t assms(1) len by (simp add: free_leaves_sizes buddy_print_tree)
  qed
  ultimately show ?thesis using b'(1,2) len by (auto simp: buddy_inv_def)
qed

theorem buddy_free_correct_witness:
  "\<exists>b'. buddy_free 31 8 demo_half = Inr (-1, b') \<and> buddy_inv b' \<and> pages b' = {(0, 8)} \<and>
     buddy_print 31 b' = buddy_print 31 demo_half"
  using buddy_free_correct [OF _ demo_invs(2), of 31 8] by (auto simp: demo_pages)

text \<open>\<open>buddy_size\<close> always returns: the number of bytes from the index to the end of the page
  holding it (at least one), and -1 when no page holds the index.\<close>

theorem buddy_size_correct:
  assumes "31 \<le> d" "buddy_inv b"
  shows "(\<forall>(a, m) \<in> pages b. a \<le> x \<longrightarrow> x < a + m \<longrightarrow> buddy_size d x b = Inr (a + m - x)) \<and>
     ((\<forall>(a, m) \<in> pages b. \<not> (a \<le> x \<and> x < a + m)) \<longrightarrow> buddy_size d x b = Inr (-1))"
  using bd.room_hit [of malloc_demo d b _ _ x] bd.room_miss [of malloc_demo d b x] malloc_demo_ok assms
  by blast

theorem buddy_size_correct_witness:
  "buddy_size 31 7 demo_half = Inr 1 \<and> buddy_size 31 9 demo_half = Inr (-1)"
  using buddy_size_correct [OF _ demo_invs(2), of 31 7] buddy_size_correct [OF _ demo_invs(2), of 31 9]
  by (simp add: demo_pages)

text \<open>C4: Freeing a page just allocated returns 0 and restores the pages, the free leaves and the
  drawing of the pool (all splits made for it are undone); freeing it again returns -1.\<close>

theorem buddy_alloc_free_roundtrip:
  assumes "malloc_ok am" "31 \<le> d" "buddy_inv b" "1 \<le> n"
    and "buddy_alloc am d n b = Inr (a, b1)" "0 \<le> a"
  shows "\<exists>b2. buddy_free d a b1 = Inr (0, b2) \<and> buddy_inv b2 \<and> pages b2 = pages b \<and>
     free_leaves b2 = free_leaves b \<and> buddy_print d b2 = buddy_print d b \<and>
     (\<exists>b3. buddy_free d a b2 = Inr (-1, b3))"
proof -
  obtain t where t: "buddy_tree b t" using assms(3) by (auto simp: buddy_inv_def)
  obtain t1 where t1: "t_alloc 0 (pool_len b) t n = Some (a, t1)" "buddy_tree b1 t1" "b1 = b\<lparr>cells := cells b1\<rparr>"
    by (cases rule: buddy_alloc_tree [OF assms(1) t assms(4,2), case_names fault none some])
       (use assms(5,6) in auto)
  have len1: "pool_len b1 = pool_len b" by (subst t1(3)) simp
  have tf: "t_free 0 (pool_len b) t1 a = (True, t)"
    by (rule t_alloc_free [OF t1(1) assms(4) buddy_treeD(2,3) [OF t]])
  obtain b2 where b2: "buddy_free d a b1 = Inr (if \<exists>m. (a, m) \<in> pages b1 then 0 else -1, b2)"
    "buddy_tree b2 t" "b2 = b1\<lparr>cells := cells b2\<rparr>"
    by (rule buddy_free_tree [OF t1(2) assms(2), of a]) (simp add: len1 tf)
  have len2: "pool_len b2 = pool_len b" by (subst b2(3)) (simp add: len1)
  obtain b2' where "buddy_free d a b1 = Inr (0, b2')" and twice: "\<exists>s3. buddy_free d a b2' = Inr (-1, s3)"
    using bd.alloc_release [of am d b n a b1] assms by blast
  with b2(1) have "buddy_free d a b1 = Inr (0, b2)" "b2' = b2" by auto
  with twice b2(2) t assms(2) show ?thesis
    by (auto simp: buddy_inv_def pages_blocks free_leaves_sizes buddy_print_tree len2)
qed

theorem buddy_alloc_free_roundtrip_witness:
  "\<exists>b1 b2. buddy_alloc malloc_demo 31 5 demo_half = Inr (8, b1) \<and> buddy_free 31 8 b1 = Inr (0, b2) \<and>
     buddy_inv b2 \<and> pages b2 = pages demo_half \<and> free_leaves b2 = free_leaves demo_half \<and>
     buddy_print 31 b2 = buddy_print 31 demo_half \<and> (\<exists>b3. buddy_free 31 8 b2 = Inr (-1, b3))"
proof -
  obtain b1 where b1: "buddy_alloc malloc_demo 31 5 demo_half = Inr (8, b1)" using demo_half_alloc by blast
  from buddy_alloc_free_roundtrip [OF malloc_demo_ok _ demo_invs(2) _ b1] b1 show ?thesis by auto
qed

section \<open>The life of a pool\<close>

text \<open>When no page is allocated, the heap is a single free node that spans the pool: everything
  coalesces, however the pages were allocated and freed.\<close>

theorem buddy_all_freed:
  assumes "buddy_inv b" "pages b = {}"
  shows "\<exists>n. cells b = [buddy_head b \<mapsto> n] \<and> n_state n = FREE \<and> n_idx n = 0 \<and> n_size n = pool_len b"
proof -
  obtain t where t: "buddy_tree b t" using assms(1) by (auto simp: buddy_inv_def)
  have "t = TFree"
    using assms(2) blocks_nil_iff [OF buddy_treeD(3) [OF t]] by (simp add: pages_blocks [OF t])
  with buddy_treeD(1) [OF t] obtain n where n: "cells b (buddy_head b) = Some n"
    "dom (cells b) = {buddy_head b}" "n_state n = FREE" "n_idx n = 0" "n_size n = pool_len b" by auto
  have "cells b = [buddy_head b \<mapsto> n]"
  proof (rule ext)
    fix q show "cells b q = [buddy_head b \<mapsto> n] q"
      using n(1,2) by (cases "q = buddy_head b") (auto simp: domIff)
  qed
  with n show ?thesis by blast
qed

theorem buddy_all_freed_witness:
  "\<exists>n. cells demo_empty = [buddy_head demo_empty \<mapsto> n] \<and> n_state n = FREE \<and> n_idx n = 0 \<and>
     n_size n = pool_len demo_empty"
  by (rule buddy_all_freed [OF demo_invs(1) demo_pages(1)])

text \<open>\<open>buddy_init\<close> on an empty heap with a size in the range of \<open>int\<close> returns 0 and establishes
  the invariant with one free leaf of that size and no page when both \<open>bmalloc\<close> calls succeed;
  otherwise it returns -1, and when only the second one fails the pool stays allocated.\<close>

theorem buddy_init_correct:
  assumes "cells b = Map.empty" "0 \<le> sz" "sz \<le> INT_MAX"
  shows "\<exists>rt b'. buddy_init am sz b = Inr (rt, b') \<and>
     (if bm_pool am sz \<and> bm_node am (cells b) \<noteq> NULL
      then rt = 0 \<and> buddy_inv b' \<and> pages b' = {} \<and> free_leaves b' = {sz} \<and> pool_len b' = sz \<and>
           buddy_pool b' = bm_bytes am \<and> pools_live b' = Suc (pools_live b)
      else rt = -1 \<and> cells b' = Map.empty \<and>
           pools_live b' = (if bm_pool am sz then Suc (pools_live b) else pools_live b))"
  by (rule buddy_init_tree [OF assms])

theorem buddy_init_correct_witness:
  "\<exists>rt b'. buddy_init malloc_demo 16 no_buddy = Inr (rt, b') \<and>
     (if bm_pool malloc_demo 16 \<and> bm_node malloc_demo (cells no_buddy) \<noteq> NULL
      then rt = 0 \<and> buddy_inv b' \<and> pages b' = {} \<and> free_leaves b' = {16} \<and> pool_len b' = 16 \<and>
           buddy_pool b' = bm_bytes malloc_demo \<and> pools_live b' = Suc (pools_live no_buddy)
      else rt = -1 \<and> cells b' = Map.empty \<and>
           pools_live b' = (if bm_pool malloc_demo 16 then Suc (pools_live no_buddy) else pools_live no_buddy))"
  by (rule buddy_init_correct) (simp_all add: no_buddy_def INT_MAX_def)

text \<open>C5: \<open>buddy_kill\<close> frees every tree node exactly once (no double free, no leaked node), but
  the pool obtained by \<open>buddy_init\<close> is not given back.\<close>

theorem buddy_kill_correct:
  assumes "31 \<le> d" "buddy_inv b"
  shows "\<exists>b'. buddy_kill d b = Inr b' \<and> cells b' = Map.empty \<and> pools_live b' = pools_live b"
proof -
  obtain t where "buddy_tree b t" using assms(2) by (auto simp: buddy_inv_def)
  then show ?thesis by (rule buddy_kill_tree) (rule assms(1))
qed

theorem buddy_kill_correct_witness:
  "\<exists>b'. buddy_kill 31 demo_half = Inr b' \<and> cells b' = Map.empty \<and> pools_live b' = pools_live demo_half"
  by (rule buddy_kill_correct [OF _ demo_invs(2)]) simp

text \<open>No \<open>int\<close> arithmetic of the allocator overflows: in a state of the invariant every node, used or
  free, lies inside the pool, so its index, its size and their sum are between 0 and \<open>INT_MAX\<close>.\<close>

theorem buddy_no_overflow:
  assumes "buddy_inv b" "cells b p = Some n"
  shows "0 \<le> n_idx n \<and> 0 \<le> n_size n \<and> n_idx n + n_size n \<le> pool_len b \<and> pool_len b \<le> INT_MAX"
proof -
  obtain t where t: "buddy_tree b t" using assms(1) by (auto simp: buddy_inv_def)
  show ?thesis
    using rep_node_bounds [OF buddy_treeD(1,2) [OF t], of p n] assms(2) buddy_treeD(4) [OF t] by auto
qed

theorem buddy_no_overflow_witness:
  "0 \<le> n_idx (demo_node 8 FREE 8 55 NULL) \<and> 0 \<le> n_size (demo_node 8 FREE 8 55 NULL) \<and>
   n_idx (demo_node 8 FREE 8 55 NULL) + n_size (demo_node 8 FREE 8 55 NULL) \<le> pool_len demo_half \<and>
   pool_len demo_half \<le> INT_MAX"
  by (rule buddy_no_overflow [OF demo_invs(2), of 3]) (simp add: demo_half_def)

end
