(* ===== verification/Buddy_Test.thy ===== *)
theory Buddy_Test
  imports Buddy_Props
begin

text \<open>
  The allocator's test program, \<open>hw5_vmm/buddy_test.c\<close>: its three checking functions, its
  19 scenarios and its output, run on the model of \<open>buddy.c\<close>. A failed \<open>assert\<close> stops the
  program and is the result \<open>None\<close>. The scenarios are evaluated on the tree of theory
  Buddy_Tree and carried to the heap by the simulation lemmas, so the result holds for every
  \<open>malloc\<close> that can serve them and not for one allocator only.
\<close>

section \<open>The test program\<close>

datatype check = Alloc_check int int | Free_check int int | Size_check int int

definition returned :: "int \<Rightarrow> string" where
  "returned rt = (if rt < 0 then ''  <-- returned '' @ fmt_d rt else []) @ [CHR 0x0A]"

definition alloc_line :: "int \<Rightarrow> string \<Rightarrow> int \<Rightarrow> string" where
  "alloc_line n pic rt = ''ALLOCED '' @ fmt_d n @ '' BYTES'' @ [CHR 0x09] @ ''|'' @ pic @ returned rt"

definition free_line :: "int \<Rightarrow> string \<Rightarrow> int \<Rightarrow> string" where
  "free_line i pic rt = ''FREED IDX '' @ fmt_d i @ [CHR 0x09] @ ''|'' @ pic @ returned rt"

definition size_line :: "int \<Rightarrow> int \<Rightarrow> string" where
  "size_line i rt = ''SIZE IDX '' @ fmt_d i @ '' == '' @ fmt_d rt @ [CHR 0x0A]"

fun run_check :: "allocator \<Rightarrow> nat \<Rightarrow> check \<Rightarrow> buddy \<Rightarrow> fault + (string \<times> buddy option)" where
  "run_check am d (Alloc_check n i) b =
     bindE (buddy_alloc am d n b) (\<lambda>(rt, b). bindE (buddy_print d b) (\<lambda>pic.
     Inr (alloc_line n pic rt, if rt = i then Some b else None)))"
| "run_check am d (Free_check i e) b =
     bindE (buddy_free d i b) (\<lambda>(rt, b). bindE (buddy_print d b) (\<lambda>pic.
     Inr (free_line i pic rt, if rt = e then Some b else None)))"
| "run_check am d (Size_check i s) b =
     bindE (buddy_size d i b) (\<lambda>rt. Inr (size_line i rt, if rt = s then Some b else None))"

fun run_checks :: "allocator \<Rightarrow> nat \<Rightarrow> check list \<Rightarrow> buddy \<Rightarrow> fault + (string \<times> buddy option)" where
  "run_checks am d [] b = Inr ([], Some b)"
| "run_checks am d (c # cs) b =
     bindE (run_check am d c b) (\<lambda>(out, r).
       case r of None \<Rightarrow> Inr (out, None)
       | Some b1 \<Rightarrow> bindE (run_checks am d cs b1) (\<lambda>(out1, r1). Inr (out @ out1, r1)))"

text \<open>A scenario: its banner, the size given to \<open>buddy_init\<close>, its checks, and whether it ends in
  \<open>buddy_kill\<close>.\<close>

type_synonym scenario = "string \<times> int \<times> check list \<times> bool"

definition banner :: "nat \<Rightarrow> string \<Rightarrow> string" where
  "banner k s = ''------------ Test '' @ digits_of k @ '': '' @ s @ '' ------------'' @ [CHR 0x0A]"

definition run_scenario ::
  "allocator \<Rightarrow> nat \<Rightarrow> nat \<Rightarrow> scenario \<Rightarrow> buddy \<Rightarrow> fault + (string \<times> buddy option)" where
  "run_scenario am d k sc b = (case sc of (name, sz, cs, kill) \<Rightarrow>
     bindE (buddy_init am sz b) (\<lambda>(rt, b). bindE (run_checks am d cs b) (\<lambda>(out, r).
     case r of None \<Rightarrow> Inr (banner k name @ out, None)
     | Some b1 \<Rightarrow>
         if kill then bindE (buddy_kill d b1) (\<lambda>b2. Inr (banner k name @ out, Some b2))
         else Inr (banner k name @ out, Some b1))))"

fun run_suite :: "allocator \<Rightarrow> nat \<Rightarrow> nat \<Rightarrow> scenario list \<Rightarrow> buddy \<Rightarrow> fault + (string \<times> buddy option)" where
  "run_suite am d k [] b = Inr ([], Some b)"
| "run_suite am d k (sc # scs) b =
     bindE (run_scenario am d k sc b) (\<lambda>(out, r).
       case r of None \<Rightarrow> Inr (out, None)
       | Some b1 \<Rightarrow> bindE (run_suite am d (Suc k) scs b1) (\<lambda>(out1, r1). Inr (out @ out1, r1)))"

definition buddy_tests :: "scenario list" where
  "buddy_tests = [
  (''PDF'', 16,
     [Alloc_check 2 0, Alloc_check 4 4, Alloc_check 2 2, Alloc_check 2 8, Free_check 4 0,
      Free_check 8 0, Free_check 0 0, Free_check 2 0], True),
  (''Fill'', 16,
     [Alloc_check 2 0, Alloc_check 4 4, Alloc_check 2 2, Alloc_check 2 8, Alloc_check 4 12,
      Alloc_check 2 10, Free_check 4 0, Free_check 8 0, Free_check 0 0, Free_check 2 0], True),
  (''no space'', 16,
     [Alloc_check 2 0, Alloc_check 4 4, Alloc_check 2 2, Alloc_check 2 8, Alloc_check 4 12,
      Alloc_check 2 10, Alloc_check 2 (-1)], True),
  (''no split'', 16,
     [Alloc_check 16 0, Free_check 0 0], True),
  (''remove non existent'', 16,
     [Alloc_check 2 0, Alloc_check 4 4, Free_check 2 (-1), Free_check 8 (-1)], True),
  (''two even'', 16,
     [Alloc_check 8 0, Alloc_check 8 8, Free_check 8 0, Free_check 0 0], True),
  (''first too big'', 16,
     [Alloc_check 20 (-1)], True),
  (''free empty'', 16,
     [Free_check 0 (-1), Free_check 8 (-1)], True),
  (''free out of range'', 16,
     [Alloc_check 2 0, Alloc_check 4 4, Alloc_check 2 2, Free_check 20 (-1)], True),
  (''pool size 1'', 1,
     [Alloc_check 2 (-1), Alloc_check 4 (-1), Alloc_check 1 0, Free_check 0 0], True),
  (''pool size 0'', 0,
     [Alloc_check 2 (-1), Alloc_check 4 (-1), Alloc_check 1 (-1), Free_check 0 (-1)], True),
  (''test 1'', 16,
     [Alloc_check 8 0, Alloc_check 2 8, Alloc_check 4 12, Free_check 0 0, Alloc_check 2 0,
      Alloc_check 2 2, Alloc_check 2 4, Free_check 4 0, Alloc_check 6 (-1), Alloc_check 4 4,
      Free_check 0 0, Free_check 2 0, Free_check 4 0, Free_check 12 0, Free_check 8 0], True),
  (''test 2'', 8,
     [Alloc_check 8 0, Alloc_check 4 (-1), Free_check 2 (-1), Free_check 0 0, Alloc_check 4 0,
      Alloc_check 2 4, Alloc_check 4 (-1), Alloc_check 2 6, Free_check 4 0, Free_check 6 0,
      Free_check 0 0], True),
  (''size check PDF'', 16,
     [Alloc_check 2 0, Alloc_check 4 4, Alloc_check 2 2, Alloc_check 2 8, Size_check 0 2,
      Size_check 4 4, Size_check 2 2, Size_check 8 2, Free_check 4 0, Free_check 8 0,
      Free_check 0 0, Free_check 2 0], True),
  (''size check test 1'', 16,
     [Alloc_check 8 0, Alloc_check 2 8, Alloc_check 4 12, Free_check 0 0, Size_check 0 (-1),
      Size_check 8 2, Size_check 12 4, Alloc_check 2 0, Alloc_check 2 2, Alloc_check 2 4,
      Size_check 12 4, Size_check 0 2, Size_check 2 2, Size_check 4 2, Free_check 4 0,
      Size_check 4 (-1)], True),
  (''size check pool size 1'', 1,
     [Alloc_check 1 0, Size_check 0 1, Free_check 0 0, Size_check 0 (-1)], True),
  (''size check two even'', 16,
     [Alloc_check 8 0, Alloc_check 8 8, Size_check 0 8, Size_check 8 8, Free_check 8 0,
      Free_check 0 0, Size_check 0 (-1), Size_check 8 (-1)], True),
  (''non power 2'', 16,
     [Alloc_check 3 0, Alloc_check 6 8, Alloc_check 1 4, Alloc_check 1 5, Size_check 0 4,
      Size_check 8 8, Size_check 4 1, Size_check 5 1, Free_check 8 0, Alloc_check 5 8], True),
  (''size left test'', 16,
     [Alloc_check 8 0, Size_check 0 8, Size_check 1 7, Size_check 2 6, Size_check 3 5,
      Size_check 4 4, Size_check 5 3, Size_check 6 2, Size_check 7 1, Size_check 8 (-1)], False)]"

section \<open>The same program on trees\<close>

fun t_check :: "int \<Rightarrow> check \<Rightarrow> btree \<Rightarrow> string \<times> btree option" where
  "t_check s (Alloc_check n i) t =
     (case (case t_alloc 0 s t n of None \<Rightarrow> (-1, t) | Some r \<Rightarrow> r) of
        (rt, t') \<Rightarrow> (alloc_line n (t_print 0 s t') rt, if rt = i then Some t' else None))"
| "t_check s (Free_check i e) t =
     (case t_free 0 s t i of (ok, t') \<Rightarrow>
        (free_line i (t_print 0 s t') (if ok then 0 else -1), if (if ok then 0 else -1) = e then Some t' else None))"
| "t_check s (Size_check i k) t = (size_line i (t_size 0 s t i), if t_size 0 s t i = k then Some t else None)"

fun t_checks :: "int \<Rightarrow> check list \<Rightarrow> btree \<Rightarrow> string \<times> btree option" where
  "t_checks s [] t = ([], Some t)"
| "t_checks s (c # cs) t =
     (case t_check s c t of (out, r) \<Rightarrow>
        case r of None \<Rightarrow> (out, None)
        | Some t1 \<Rightarrow> (case t_checks s cs t1 of (out1, r1) \<Rightarrow> (out @ out1, r1)))"

primrec asks :: "check \<Rightarrow> bool" where
  "asks (Alloc_check n i) \<longleftrightarrow> 1 \<le> n"
| "asks (Free_check i e) \<longleftrightarrow> True"
| "asks (Size_check i k) \<longleftrightarrow> True"

text \<open>A tree over \<open>s\<close> bytes has at most \<open>2 * s + 1\<close> nodes.\<close>

lemma rep_card: "rep h p i s t A \<Longrightarrow> t_wf s t \<Longrightarrow> int (card A) \<le> (if s = 0 then 1 else 2 * s - 1)"
proof (induction t arbitrary: p i s A)
  case (TSplit l r)
  from TSplit.prems(1) obtain n :: node_t and B C where n: "rep h (n_left n) i (s div 2) l B"
    "rep h (n_right n) (i + s div 2) (s div 2) r C" and A: "p \<notin> B" "p \<notin> C" "B \<inter> C = {}" "A = insert p (B \<union> C)"
    by (simp only: rep.simps) blast
  have s: "2 \<le> s" "t_wf (s div 2) l" "t_wf (s div 2) r" using TSplit.prems(2) by auto
  have "finite B" "finite C" using rep_finite n by auto
  then have "card A = Suc (card B + card C)" using A by (simp add: card_Un_disjoint)
  moreover have "s div 2 \<noteq> 0" "s div 2 + s div 2 \<le> s" using s half_le [of s] by auto
  ultimately show ?case using TSplit.IH(1) [OF n(1) s(2)] TSplit.IH(2) [OF n(2) s(3)] s(1)
    by (simp split: if_splits)
qed auto

text \<open>The contract of the memory allocator the scenarios need.\<close>

definition serves_tests :: "allocator \<Rightarrow> bool" where
  "serves_tests am \<longleftrightarrow> malloc_ok am \<and> malloc_serves am 100 \<and> (\<forall>k. 0 \<le> k \<longrightarrow> k \<le> 16 \<longrightarrow> bm_pool am k)"

definition follows :: "buddy \<Rightarrow> btree option \<Rightarrow> buddy option \<Rightarrow> bool" where
  "follows b r rb = (case r of None \<Rightarrow> rb = None
     | Some t' \<Rightarrow> (\<exists>b'. rb = Some b' \<and> buddy_tree b' t' \<and> pool_len b' = pool_len b \<and> pools_live b' = pools_live b))"

lemma run_check_sim:
  assumes am: "serves_tests am" and d: "31 \<le> d" and t: "buddy_tree b t" and b: "pool_len b \<le> 16" and c: "asks c"
  shows "\<exists>rb. run_check am d c b = Inr (fst (t_check (pool_len b) c t), rb) \<and>
           follows b (snd (t_check (pool_len b) c t)) rb"
proof (cases c)
  case (Alloc_check n i)
  have am': "malloc_ok am" "malloc_serves am 100" and n: "1 \<le> n" using am c Alloc_check by (auto simp: serves_tests_def)
  have "int (card (dom (cells b))) \<le> 33"
    using rep_card [OF buddy_treeD(1,2) [OF t]] b by (simp split: if_splits)
  then have "card (dom (cells b)) + 62 \<le> 100" by simp
  then obtain res where res: "buddy_alloc am d n b = Inr res"
    using buddy_alloc_serves [OF am' d t n] by blast
  show ?thesis
  proof (cases rule: buddy_alloc_tree [OF am'(1) t n d, case_names fault none some])
    case (some a t' b')
    have "pool_len b' = pool_len b" "pools_live b' = pools_live b" by (subst some(4), simp)+
    with some d show ?thesis by (auto simp: Alloc_check buddy_print_tree [OF some(3)] follows_def)
  qed (use res t d in \<open>auto simp: Alloc_check buddy_print_tree follows_def\<close>)
next
  case (Free_check i e)
  obtain b' where b': "buddy_free d i b = Inr (if \<exists>m. (i, m) \<in> pages b then 0 else -1, b')"
    "buddy_tree b' (snd (t_free 0 (pool_len b) t i))" "b' = b\<lparr>cells := cells b'\<rparr>"
    by (rule buddy_free_tree [OF t d])
  have "pool_len b' = pool_len b" "pools_live b' = pools_live b" by (subst b'(3), simp)+
  with b' d show ?thesis
    by (auto simp: Free_check buddy_print_tree [OF b'(2)] follows_def case_prod_beta pages_blocks [OF t] t_free_fst)
next
  case (Size_check i k)
  then show ?thesis using t d by (auto simp: buddy_size_tree follows_def)
qed

lemma run_checks_sim:
  assumes am: "serves_tests am" and d: "31 \<le> d"
  shows "buddy_tree b t \<Longrightarrow> pool_len b \<le> 16 \<Longrightarrow> list_all asks cs \<Longrightarrow>
     \<exists>rb. run_checks am d cs b = Inr (fst (t_checks (pool_len b) cs t), rb) \<and>
          follows b (snd (t_checks (pool_len b) cs t)) rb"
proof (induction cs arbitrary: b t)
  case Nil
  then show ?case by (simp add: follows_def)
next
  case (Cons c cs)
  let ?r = "t_check (pool_len b) c t"
  obtain rb where rb: "run_check am d c b = Inr (fst ?r, rb)" "follows b (snd ?r) rb"
    using run_check_sim [OF am d Cons.prems(1,2)] Cons.prems(3) by auto
  show ?case
  proof (cases "snd ?r")
    case None
    then show ?thesis using rb by (auto simp: case_prod_beta follows_def)
  next
    case (Some t1)
    then obtain b1 where b1: "rb = Some b1" "buddy_tree b1 t1" "pool_len b1 = pool_len b" "pools_live b1 = pools_live b"
      using rb(2) by (auto simp: follows_def)
    obtain rb1 where "run_checks am d cs b1 = Inr (fst (t_checks (pool_len b) cs t1), rb1)"
      "follows b1 (snd (t_checks (pool_len b) cs t1)) rb1"
      using Cons.IH [OF b1(2)] Cons.prems b1(3) by auto
    then show ?thesis
      using rb b1 Some by (auto simp: case_prod_beta follows_def split: option.splits)
  qed
qed

text \<open>What a scenario prints, and whether all its assertions hold, computed on trees.\<close>

definition t_scenario :: "nat \<Rightarrow> scenario \<Rightarrow> string \<times> bool" where
  "t_scenario k sc = (case sc of (name, sz, cs, kill) \<Rightarrow>
     case t_checks sz cs TFree of (out, r) \<Rightarrow> (banner k name @ out, r \<noteq> None))"

definition fits :: "scenario \<Rightarrow> bool" where
  "fits sc \<longleftrightarrow> (case sc of (name, sz, cs, kill) \<Rightarrow> 0 \<le> sz \<and> sz \<le> 16 \<and> list_all asks cs)"

lemma serves_testsD:
  assumes "serves_tests am"
  shows "malloc_ok am" "malloc_serves am 100" "0 \<le> k \<Longrightarrow> k \<le> 16 \<Longrightarrow> bm_pool am k" "bm_node am Map.empty \<noteq> NULL"
  using assms by (auto simp: serves_tests_def malloc_serves_def)

lemma run_scenario_sim:
  assumes am: "serves_tests am" and d: "31 \<le> d" and b: "cells b = Map.empty" and sc: "fits sc"
  shows "\<exists>rb. run_scenario am d k sc b = Inr (fst (t_scenario k sc), rb) \<and>
     (if snd (t_scenario k sc)
      then \<exists>b'. rb = Some b' \<and> pools_live b' = Suc (pools_live b) \<and> (snd (snd (snd sc)) \<longrightarrow> cells b' = Map.empty)
      else rb = None)"
proof -
  obtain name sz cs kill where sc': "sc = (name, sz, cs, kill)" by (cases sc)
  have sz: "0 \<le> sz" "sz \<le> 16" "list_all asks cs" using sc by (auto simp: fits_def sc')
  obtain b1 where b1: "buddy_init am sz b = Inr (0, b1)" "buddy_inv b1" "pages b1 = {}" "pool_len b1 = sz"
      "pools_live b1 = Suc (pools_live b)"
    using buddy_init_tree [OF b sz(1), of am] sz serves_testsD [OF am] b by (auto simp: INT_MAX_def)
  obtain t where "buddy_tree b1 t" using b1(2) by (auto simp: buddy_inv_def)
  with b1(3) have t: "buddy_tree b1 TFree"
    by (metis blocks_nil_iff buddy_treeD(3) pages_blocks set_empty)
  obtain rb where rb: "run_checks am d cs b1 = Inr (fst (t_checks sz cs TFree), rb)"
    "follows b1 (snd (t_checks sz cs TFree)) rb"
    using run_checks_sim [OF am d t _ sz(3)] b1(4) sz(2) by auto
  show ?thesis
  proof (cases "snd (t_checks sz cs TFree)")
    case None
    then show ?thesis
      using b1(1) rb by (auto simp: sc' run_scenario_def t_scenario_def case_prod_beta follows_def)
  next
    case (Some t')
    then obtain b2 where b2: "rb = Some b2" "buddy_tree b2 t'" "pools_live b2 = Suc (pools_live b)"
      using rb(2) b1(5) by (auto simp: follows_def)
    obtain b3 where b3: "buddy_kill d b2 = Inr b3" "cells b3 = Map.empty" "pools_live b3 = pools_live b2"
      using buddy_kill_tree [OF b2(2) d] by blast
    show ?thesis
      using b1(1) rb(1) b2 b3 Some
      by (cases kill) (simp_all add: sc' run_scenario_def t_scenario_def case_prod_beta)
  qed
qed

lemma run_suite_sim:
  assumes am: "serves_tests am" and d: "31 \<le> d"
  shows "cells b = Map.empty \<Longrightarrow> list_all (\<lambda>sc. fits sc) scs \<Longrightarrow>
     list_all (\<lambda>sc. snd (snd (snd sc))) (butlast scs) \<Longrightarrow>
     list_all (\<lambda>sc. \<forall>k. snd (t_scenario k sc)) scs \<Longrightarrow>
     \<exists>out b'. run_suite am d k scs b = Inr (out, Some b') \<and> pools_live b' = pools_live b + length scs"
proof (induction scs arbitrary: b k)
  case (Cons sc scs)
  obtain b1 where b1: "run_scenario am d k sc b = Inr (fst (t_scenario k sc), Some b1)"
    "pools_live b1 = Suc (pools_live b)" "snd (snd (snd sc)) \<longrightarrow> cells b1 = Map.empty"
    using run_scenario_sim [OF am d Cons.prems(1), of sc k] Cons.prems(2,4) by auto
  show ?case
  proof (cases "scs = []")
    case True
    with b1 show ?thesis by simp
  next
    case False
    with Cons.prems(3) b1(3) have "cells b1 = Map.empty" by simp
    with Cons.IH [of b1 "Suc k"] Cons.prems False b1(1,2) show ?thesis by fastforce
  qed
qed simp

section \<open>The outcome of the tests\<close>

lemma scenario_ok_iff: "snd (t_scenario k (name, sz, cs, kill)) \<longleftrightarrow> snd (t_checks sz cs TFree) \<noteq> None"
  by (simp add: t_scenario_def case_prod_beta)

text \<open>Assertions do not depend on the output: a version that computes the outcome only.\<close>

fun t_asserts :: "int \<Rightarrow> check list \<Rightarrow> btree \<Rightarrow> bool" where
  "t_asserts s [] t \<longleftrightarrow> True"
| "t_asserts s (Alloc_check n i # cs) t \<longleftrightarrow>
     (case t_alloc 0 s t n of None \<Rightarrow> i = -1 \<and> t_asserts s cs t | Some (rt, t') \<Rightarrow> rt = i \<and> t_asserts s cs t')"
| "t_asserts s (Free_check i e # cs) t \<longleftrightarrow>
     (if fst (t_free 0 s t i) then e = 0 else e = -1) \<and> t_asserts s cs (snd (t_free 0 s t i))"
| "t_asserts s (Size_check i k # cs) t \<longleftrightarrow> t_size 0 s t i = k \<and> t_asserts s cs t"

lemma t_asserts_iff: "t_asserts s cs t \<longleftrightarrow> snd (t_checks s cs t) \<noteq> None"
  by (induction s cs t rule: t_asserts.induct) (auto simp: case_prod_beta split: option.splits)

lemma buddy_tests_ok: "list_all (\<lambda>sc. t_asserts (fst (snd sc)) (fst (snd (snd sc))) TFree) buddy_tests"
  by code_simp

lemma buddy_tests_fit:
  "list_all fits buddy_tests" "list_all (\<lambda>sc. snd (snd (snd sc))) (butlast buddy_tests)" "length buddy_tests = 19"
  by code_simp+

text \<open>C6: All 19 scenarios of \<open>buddy_test.c\<close> pass their assertions on the model of \<open>buddy.c\<close>, run in
  one program with every memory allocator that can hold 100 cells; the program leaves 19 pools unfreed.\<close>

theorem buddy_test_passes:
  assumes "serves_tests am" "31 \<le> d"
  shows "\<exists>out b'. run_suite am d 1 buddy_tests no_buddy = Inr (out, Some b') \<and> pools_live b' = 19"
proof -
  have "list_all (\<lambda>sc. \<forall>k. snd (t_scenario k sc)) buddy_tests"
    using buddy_tests_ok by (auto simp: list_all_iff scenario_ok_iff t_asserts_iff)
  from run_suite_sim [OF assms _ buddy_tests_fit(1,2) this, of no_buddy 1] show ?thesis
    by (simp add: no_buddy_def buddy_tests_fit(3))
qed

lemma malloc_demo_tests: "serves_tests malloc_demo"
proof -
  have "malloc_serves malloc_demo 100" using malloc_demo_serves by (auto simp: malloc_serves_def)
  then show ?thesis using malloc_demo_ok by (simp add: serves_tests_def) (simp add: malloc_demo_def)
qed

theorem buddy_test_passes_witness:
  "\<exists>out b'. run_suite malloc_demo 31 1 buddy_tests no_buddy = Inr (out, Some b') \<and> pools_live b' = 19"
  by (rule buddy_test_passes [OF malloc_demo_tests]) simp

text \<open>The example of \<open>hw5_vmm/README.md\<close> and its drawing.\<close>

definition readme_example :: scenario where
  "readme_example = (''Example'', 16, [Alloc_check 2 0, Alloc_check 4 4], True)"

definition readme_output :: string where
  "readme_output =
     ''------------ Test 1: Example ------------'' @ [CHR 0x0A] @
     ''ALLOCED 2 BYTES'' @ [CHR 0x09] @ ''|0,0,|-,-,|-,-,-,-,|-,-,-,-,-,-,-,-,|'' @ [CHR 0x0A] @
     ''ALLOCED 4 BYTES'' @ [CHR 0x09] @ ''|0,0,|-,-,|4,4,4,4,|-,-,-,-,-,-,-,-,|'' @ [CHR 0x0A]"

lemma readme_tree: "t_scenario 1 readme_example = (readme_output, True)" "fits readme_example"
  "snd (snd (snd readme_example))"
  by code_simp+

text \<open>The example of the README prints exactly the lines the README shows, with every memory
  allocator that can hold 100 cells, and leaves no tree node allocated.\<close>

theorem buddy_readme_example:
  assumes "serves_tests am" "31 \<le> d"
  shows "\<exists>b'. run_scenario am d 1 readme_example no_buddy = Inr (readme_output, Some b') \<and> cells b' = Map.empty"
  using run_scenario_sim [OF assms _ readme_tree(2), of no_buddy 1, unfolded readme_tree(1)] readme_tree(3)
  by (auto simp: no_buddy_def)

theorem buddy_readme_example_witness:
  "\<exists>b'. run_scenario malloc_demo 31 1 readme_example no_buddy = Inr (readme_output, Some b') \<and>
     cells b' = Map.empty"
  by (rule buddy_readme_example [OF malloc_demo_tests]) simp

end
