(* ===== verification/Vmm.thy ===== *)
theory Vmm
  imports Buddy_Pages
begin

text \<open>
  The character device of \<open>hw5_vmm/vmm.c\<close>: its globals, its \<open>ioctl\<close> handler on top of the buddy
  allocator, module load and unload, and the user-space wrappers of \<open>hw5_vmm/vmm_test.c\<close>.
  User memory is a map from addresses to bytes: \<open>get_user\<close> of an unmapped address yields 0 and
  \<open>put_user\<close> to one does nothing (the handler ignores their results). A store outside
  the pool is the fault \<open>Overrun\<close>.
\<close>

section \<open>State\<close>

type_synonym uaddr = "64 word"
type_synonym umem = "uaddr \<Rightarrow> byte option"

datatype ioctl_num =
    IOCTL_ALLOC
  | IOCTL_FREE
  | IOCTL_SET_IDX
  | IOCTL_SET_READ_SIZE
  | IOCTL_WRITE
  | IOCTL_READ
  | IOCTL_OTHER

definition DEFAULT_POOL_SIZE :: int where "DEFAULT_POOL_SIZE = 16777216"

definition ENOMEM :: int where "ENOMEM = 12"

text \<open>The globals of \<open>vmm.c\<close>, the allocator's, and whether the device is registered.\<close>

record vmm =
  bud :: buddy
  current_idx :: int
  read_size :: int
  registered :: bool

definition get_user :: "umem \<Rightarrow> uaddr \<Rightarrow> byte" where
  "get_user u a = (case u a of None \<Rightarrow> 0 | Some c \<Rightarrow> c)"

definition put_user :: "byte \<Rightarrow> uaddr \<Rightarrow> umem \<Rightarrow> umem" where
  "put_user c a u = (case u a of None \<Rightarrow> u | Some _ \<Rightarrow> u(a \<mapsto> c))"

definition pool_get :: "buddy \<Rightarrow> int \<Rightarrow> fault + byte" where
  "pool_get b k = (if 0 \<le> k \<and> k < pool_len b then Inr (buddy_pool b k) else Inl Overrun)"

definition pool_set :: "buddy \<Rightarrow> int \<Rightarrow> byte \<Rightarrow> fault + buddy" where
  "pool_set b k c = (if 0 \<le> k \<and> k < pool_len b then Inr (b\<lparr>buddy_pool := (buddy_pool b)(k := c)\<rparr>)
                     else Inl Overrun)"

section \<open>The ioctl handler\<close>

text \<open>The loop of \<open>IOCTL_WRITE\<close>: \<open>sz\<close> is the local \<open>size\<close>, \<open>k\<close> the local \<open>bytes\<close>.\<close>

function write_loop :: "umem \<Rightarrow> uaddr \<Rightarrow> int \<Rightarrow> int \<Rightarrow> int \<Rightarrow> buddy \<Rightarrow> fault + (int \<times> buddy)" where
  "write_loop u p idx sz k b =
     (let ch = get_user u (p + of_int k) in
      if ch = 0 then Inr (k, b)
      else if k > sz then Inr (-1, b)
      else bindE (pool_set b (idx + k) ch) (\<lambda>b. write_loop u p idx sz (k + 1) b))"
  by pat_completeness auto
termination
  by (relation "measure (\<lambda>(u, p, idx, sz, k, b). nat (sz + 1 - k))") auto

text \<open>The loop of \<open>IOCTL_READ\<close>: \<open>n\<close> is \<open>read_size\<close>.\<close>

function read_loop :: "uaddr \<Rightarrow> int \<Rightarrow> int \<Rightarrow> int \<Rightarrow> buddy \<Rightarrow> umem \<Rightarrow> fault + (int \<times> umem)" where
  "read_loop p idx n k b u =
     (if k < n
      then bindE (pool_get b (idx + k)) (\<lambda>c. read_loop p idx n (k + 1) b (put_user c (p + of_int k) u))
      else Inr (k, u))"
  by pat_completeness auto
termination
  by (relation "measure (\<lambda>(p, idx, n, k, b, u). nat (n - k))") auto

declare write_loop.simps [simp del] read_loop.simps [simp del]

fun vmm_ioctl ::
  "allocator \<Rightarrow> nat \<Rightarrow> ioctl_num \<Rightarrow> uaddr \<Rightarrow> umem \<Rightarrow> vmm \<Rightarrow> fault + (int \<times> umem \<times> vmm)" where
  "vmm_ioctl am d IOCTL_ALLOC x u v =
     bindE (buddy_alloc am d (int_of_long x) (bud v)) (\<lambda>(rt, b). Inr (rt, u, v\<lparr>bud := b\<rparr>))"
| "vmm_ioctl am d IOCTL_FREE x u v =
     bindE (buddy_free d (int_of_long x) (bud v)) (\<lambda>(rt, b). Inr (rt, u, v\<lparr>bud := b\<rparr>))"
| "vmm_ioctl am d IOCTL_SET_IDX x u v = Inr (0, u, v\<lparr>current_idx := int_of_long x\<rparr>)"
| "vmm_ioctl am d IOCTL_SET_READ_SIZE x u v = Inr (0, u, v\<lparr>read_size := int_of_long x\<rparr>)"
| "vmm_ioctl am d IOCTL_WRITE x u v =
     bindE (buddy_size d (current_idx v) (bud v)) (\<lambda>sz.
     bindE (write_loop u x (current_idx v) sz 0 (bud v)) (\<lambda>(rt, b). Inr (rt, u, v\<lparr>bud := b\<rparr>)))"
| "vmm_ioctl am d IOCTL_READ x u v =
     bindE (buddy_size d (current_idx v) (bud v)) (\<lambda>sz.
     if read_size v > sz then Inr (-1, u, v)
     else bindE (read_loop x (current_idx v) (read_size v) 0 (bud v) u) (\<lambda>(rt, u). Inr (rt, u, v)))"
| "vmm_ioctl am d IOCTL_OTHER x u v = Inr (0, u, v)"

section \<open>Module load and unload\<close>

text \<open>\<open>reg\<close> is the result of \<open>register_chrdev\<close>, \<open>pool_size\<close> the module parameter.\<close>

definition vmm_init_mod :: "allocator \<Rightarrow> int \<Rightarrow> int \<Rightarrow> vmm \<Rightarrow> fault + (int \<times> vmm)" where
  "vmm_init_mod am reg pool_size v =
     (if reg < 0 then Inr (reg, v)
      else let v = v\<lparr>registered := True\<rparr> in
        bindE (buddy_init am pool_size (bud v)) (\<lambda>(ret, b).
          if ret < 0 then Inr (- ENOMEM, v\<lparr>bud := b\<rparr>) else Inr (0, v\<lparr>bud := b\<rparr>)))"

definition vmm_exit_mod :: "nat \<Rightarrow> vmm \<Rightarrow> fault + vmm" where
  "vmm_exit_mod d v = bindE (buddy_kill d (bud v)) (\<lambda>b. Inr (v\<lparr>bud := b, registered := False\<rparr>))"

section \<open>The user-space wrappers of vmm_test.c\<close>

definition get_mem :: "allocator \<Rightarrow> nat \<Rightarrow> int \<Rightarrow> umem \<Rightarrow> vmm \<Rightarrow> fault + (int \<times> umem \<times> vmm)" where
  "get_mem am d bytes u v = vmm_ioctl am d IOCTL_ALLOC (of_int bytes) u v"

definition free_mem :: "allocator \<Rightarrow> nat \<Rightarrow> int \<Rightarrow> umem \<Rightarrow> vmm \<Rightarrow> fault + (int \<times> umem \<times> vmm)" where
  "free_mem am d idx u v = vmm_ioctl am d IOCTL_FREE (of_int idx) u v"

definition write_mem ::
  "allocator \<Rightarrow> nat \<Rightarrow> int \<Rightarrow> uaddr \<Rightarrow> umem \<Rightarrow> vmm \<Rightarrow> fault + (int \<times> umem \<times> vmm)" where
  "write_mem am d idx buf u v =
     bindE (vmm_ioctl am d IOCTL_SET_IDX (of_int idx) u v) (\<lambda>(rt, u, v).
     if rt < 0 then Inr (rt, u, v) else vmm_ioctl am d IOCTL_WRITE buf u v)"

definition read_mem ::
  "allocator \<Rightarrow> nat \<Rightarrow> int \<Rightarrow> uaddr \<Rightarrow> int \<Rightarrow> umem \<Rightarrow> vmm \<Rightarrow> fault + (int \<times> umem \<times> vmm)" where
  "read_mem am d idx buf sz u v =
     bindE (vmm_ioctl am d IOCTL_SET_IDX (of_int idx) u v) (\<lambda>(rt, u, v).
     if rt < 0 then Inr (rt, u, v) else
     bindE (vmm_ioctl am d IOCTL_SET_READ_SIZE (of_int sz) u v) (\<lambda>(rt, u, v).
     if rt < 0 then Inr (rt, u, v) else vmm_ioctl am d IOCTL_READ buf u v))"

section \<open>Bytes in user memory and in the pool\<close>

fun put_bytes :: "byte list \<Rightarrow> uaddr \<Rightarrow> umem \<Rightarrow> umem" where
  "put_bytes [] p u = u"
| "put_bytes (c # cs) p u = put_bytes cs (p + 1) (put_user c p u)"

definition bytes_of :: "string \<Rightarrow> byte list" where
  "bytes_of s = map of_char s"

text \<open>What \<open>%s\<close> prints from a buffer of \<open>n\<close> bytes; reading past it is a fault.\<close>

fun c_str :: "nat \<Rightarrow> umem \<Rightarrow> uaddr \<Rightarrow> fault + string" where
  "c_str 0 u p = Inl Overrun"
| "c_str (Suc n) u p =
     (if get_user u p = 0 then Inr []
      else bindE (c_str n u (p + 1)) (\<lambda>s. Inr (char_of (unat (get_user u p)) # s)))"

text \<open>The \<open>main\<close> of \<open>vmm_test.c\<close>: \<open>fd\<close> is the result of \<open>open\<close>, \<open>p\<close> the address of \<open>buffer\<close>. The
  result is the exit code, the output, user memory and the device.\<close>

definition vmm_test_main ::
  "allocator \<Rightarrow> nat \<Rightarrow> int \<Rightarrow> uaddr \<Rightarrow> umem \<Rightarrow> vmm \<Rightarrow> fault + (int \<times> string \<times> umem \<times> vmm)" where
  "vmm_test_main am d fd p u v =
     (if fd < 0 then Inr (-1, ''Can't open device file'' @ [CHR 0x0A], u, v)
      else
        bindE (get_mem am d 100 u v) (\<lambda>(ref, u, v).
        bindE (write_mem am d ref p (put_bytes (bytes_of ''Hello buddy'' @ [0]) p u) v) (\<lambda>(_, u, v).
        bindE (read_mem am d (ref + 3) p 10 u v) (\<lambda>(_, u, v).
        bindE (c_str 4096 u p) (\<lambda>s.
        bindE (free_mem am d ref u v) (\<lambda>(_, u, v).
        Inr (0, ''buffer: '' @ s @ [CHR 0x0A], u, v)))))))"

text \<open>A zero-terminated user string, a block of mapped user memory, and the effect of copying.\<close>

definition user_string :: "umem \<Rightarrow> uaddr \<Rightarrow> byte list \<Rightarrow> bool" where
  "user_string u p bs \<longleftrightarrow> (\<forall>i < length bs. get_user u (p + of_nat i) = bs ! i \<and> bs ! i \<noteq> 0) \<and>
     get_user u (p + of_nat (length bs)) = 0"

definition poke :: "(int \<Rightarrow> byte) \<Rightarrow> int \<Rightarrow> byte list \<Rightarrow> int \<Rightarrow> byte" where
  "poke f a bs x = (if a \<le> x \<and> x < a + int (length bs) then bs ! nat (x - a) else f x)"

definition pool_bytes :: "buddy \<Rightarrow> int \<Rightarrow> int \<Rightarrow> byte list" where
  "pool_bytes b a n = map (buddy_pool b) [a..a + n - 1]"

lemma poke_Nil [simp]: "poke f a [] = f"
  by (rule ext) (auto simp: poke_def)

lemma poke_Cons: "poke f a (c # cs) = poke (f(a := c)) (a + 1) cs"
proof (rule ext)
  fix x
  show "poke f a (c # cs) x = poke (f(a := c)) (a + 1) cs x"
  proof (cases "a < x")
    case True
    then have "nat (x - a) = Suc (nat (x - (a + 1)))" by simp
    then show ?thesis using True by (simp add: poke_def)
  next
    case False
    then show ?thesis by (cases "x = a") (simp_all add: poke_def)
  qed
qed

lemma user_string_Cons:
  "user_string u p (c # cs) \<longleftrightarrow> get_user u p = c \<and> c \<noteq> 0 \<and> user_string u (p + 1) cs"
proof -
  have "(\<forall>i < Suc (length cs). get_user u (p + of_nat i) = (c # cs) ! i \<and> (c # cs) ! i \<noteq> 0) \<longleftrightarrow>
      (get_user u p = c \<and> c \<noteq> 0) \<and>
      (\<forall>i < length cs. get_user u (p + 1 + of_nat i) = cs ! i \<and> cs ! i \<noteq> 0)"
    by (subst All_less_Suc2) (simp add: add.assoc)
  then show ?thesis by (simp add: user_string_def add.assoc)
qed

lemma user_string_Nil: "user_string u p [] \<longleftrightarrow> get_user u p = 0"
  by (simp add: user_string_def)

lemma pool_bytes_step: "0 < n \<Longrightarrow> pool_bytes b a n = buddy_pool b a # pool_bytes b (a + 1) (n - 1)"
  by (simp add: pool_bytes_def upto_rec1 algebra_simps)

lemma pool_bytes_none: "n \<le> 0 \<Longrightarrow> pool_bytes b a n = []"
  by (simp add: pool_bytes_def)

end
