(* ===== verification/Vmm_Props.thy ===== *)
theory Vmm_Props
  imports Vmm Buddy_Test
begin

text \<open>
  The device of \<open>hw5_vmm/vmm.c\<close> on the allocator's contract: what each loop copies, where its
  bounds hold and where they do not, the invariant over every sequence of ioctl calls, the
  user-space wrappers, and the module's load and unload paths.
\<close>

section \<open>The two loops\<close>

lemma write_loop_end:
  "get_user u (p + of_int k) = 0 \<Longrightarrow> write_loop u p idx sz k b = Inr (k, b)"
  by (subst write_loop.simps) simp

lemma write_loop_full:
  "get_user u (p + of_int k) \<noteq> 0 \<Longrightarrow> sz < k \<Longrightarrow> write_loop u p idx sz k b = Inr (-1, b)"
  by (subst write_loop.simps) (simp add: Let_def)

lemma write_loop_step:
  "get_user u (p + of_int k) = c \<Longrightarrow> c \<noteq> 0 \<Longrightarrow> k \<le> sz \<Longrightarrow> 0 \<le> idx + k \<Longrightarrow> idx + k < pool_len b \<Longrightarrow>
     write_loop u p idx sz k b =
     write_loop u p idx sz (k + 1) (b\<lparr>buddy_pool := (buddy_pool b)(idx + k := c)\<rparr>)"
  by (subst write_loop.simps) (simp add: Let_def pool_set_def)

lemma write_loop_overrun:
  "get_user u (p + of_int k) \<noteq> 0 \<Longrightarrow> k \<le> sz \<Longrightarrow> pool_len b \<le> idx + k \<Longrightarrow>
     write_loop u p idx sz k b = Inl Overrun"
  by (subst write_loop.simps) (simp add: Let_def pool_set_def)

text \<open>
  The loop on a user string: it stores up to \<open>sz + 1\<close> bytes; it answers the length if that
  many were enough, -1 if not, and overruns the pool if the pool ends before.
\<close>

definition write_outcome :: "int \<Rightarrow> int \<Rightarrow> int \<Rightarrow> byte list \<Rightarrow> buddy \<Rightarrow> fault + (int \<times> buddy)" where
  "write_outcome idx sz k bs b =
     (let n = min (int (length bs)) (sz + 1 - k) in
      if 0 < n \<and> pool_len b < idx + k + n then Inl Overrun
      else Inr (if k + int (length bs) \<le> sz + 1 then k + int (length bs) else -1,
                b\<lparr>buddy_pool := poke (buddy_pool b) (idx + k) (take (nat n) bs)\<rparr>))"

lemma write_loop_string:
  "user_string u (p + of_int k) bs \<Longrightarrow> 0 \<le> idx + k \<Longrightarrow> k \<le> sz + 1 \<Longrightarrow>
     write_loop u p idx sz k b = write_outcome idx sz k bs b"
proof (induction bs arbitrary: k b)
  case Nil
  then show ?case by (simp add: user_string_Nil write_loop_end write_outcome_def Let_def)
next
  case (Cons c cs)
  have c: "get_user u (p + of_int k) = c" "c \<noteq> 0" and cs: "user_string u (p + of_int (k + 1)) cs"
    using Cons.prems(1) by (auto simp: user_string_Cons add.assoc)
  consider "sz < k" | "k \<le> sz" "pool_len b \<le> idx + k" | "k \<le> sz" "idx + k < pool_len b" by linarith
  then show ?case
  proof cases
    case 1
    with c Cons.prems(3) show ?thesis by (simp add: write_loop_full write_outcome_def Let_def)
  next
    case 2
    with c show ?thesis by (simp add: write_loop_overrun write_outcome_def Let_def)
  next
    case 3
    let ?b = "b\<lparr>buddy_pool := (buddy_pool b)(idx + k := c)\<rparr>"
    have "write_loop u p idx sz k b = write_outcome idx sz (k + 1) cs ?b"
      using write_loop_step [OF c 3(1) Cons.prems(2) 3(2)] Cons.IH [OF cs] Cons.prems(2) 3(1) by simp
    moreover define m where "m = min (int (length cs)) (sz - k)"
    moreover have "0 \<le> m" "min (int (length cs) + 1) (sz + 1 - k) = m + 1" "nat (m + 1) = Suc (nat m)"
      "nat (sz + 1 - k) = Suc (nat (sz - k))"
      using 3(1) by (auto simp: m_def)
    ultimately show ?thesis
      using 3 by (auto simp: write_outcome_def Let_def poke_Cons add.assoc)
  qed
qed

lemma read_loop_bytes:
  "k \<le> n \<Longrightarrow> 0 \<le> idx + k \<Longrightarrow> idx + n \<le> pool_len b \<Longrightarrow>
     read_loop p idx n k b u = Inr (n, put_bytes (pool_bytes b (idx + k) (n - k)) (p + of_int k) u)"
proof (induction "nat (n - k)" arbitrary: k u)
  case 0
  then show ?case by (subst read_loop.simps) (simp add: pool_bytes_none)
next
  case (Suc m)
  then have k: "k < n" by simp
  have "read_loop p idx n (k + 1) b (put_user (buddy_pool b (idx + k)) (p + of_int k) u) =
      Inr (n, put_bytes (pool_bytes b (idx + (k + 1)) (n - (k + 1))) (p + of_int (k + 1))
        (put_user (buddy_pool b (idx + k)) (p + of_int k) u))"
    using Suc k by (intro Suc.hyps(1)) auto
  then show ?case
    using Suc.prems k
    by (subst read_loop.simps) (simp add: pool_get_def pool_bytes_step [of "n - k"] algebra_simps)
qed

text \<open>Without any assumption on user memory: what the loops may change, and how they may fault.\<close>

lemma write_loop_frame:
  "0 \<le> idx + k \<Longrightarrow>
   case write_loop u p idx sz k b of
     Inl f \<Rightarrow> f = Overrun \<and> pool_len b \<le> idx + sz
   | Inr (rt, b') \<Rightarrow> \<exists>f. b' = b\<lparr>buddy_pool := f\<rparr> \<and> (\<forall>x. x < idx + k \<or> idx + sz < x \<longrightarrow> f x = buddy_pool b x)"
proof (induction u p idx sz k b rule: write_loop.induct)
  case (1 u p idx sz k b)
  let ?c = "get_user u (p + of_int k)"
  consider "?c = 0" | "?c \<noteq> 0" "sz < k" | "?c \<noteq> 0" "k \<le> sz" "pool_len b \<le> idx + k"
    | "?c \<noteq> 0" "k \<le> sz" "idx + k < pool_len b" by linarith
  then show ?case
  proof cases
    case 1
    then show ?thesis by (auto simp: write_loop_end intro!: exI [of _ "buddy_pool b"])
  next
    case 2
    then show ?thesis by (auto simp: write_loop_full intro!: exI [of _ "buddy_pool b"])
  next
    case 3
    then show ?thesis by (simp add: write_loop_overrun)
  next
    case 4
    let ?b = "b\<lparr>buddy_pool := (buddy_pool b)(idx + k := ?c)\<rparr>"
    have "pool_set b (idx + k) ?c = Inr ?b" using 4 "1.prems" by (simp add: pool_set_def)
    note IH = "1.IH" [OF refl _ _ this]
    have run: "write_loop u p idx sz k b = write_loop u p idx sz (k + 1) ?b"
      using 4 "1.prems" by (intro write_loop_step) auto
    show ?thesis
      unfolding run using IH 4 "1.prems" by (fastforce split: sum.splits)
  qed
qed

lemma buddy_tree_pool [simp]: "buddy_tree (b\<lparr>buddy_pool := f\<rparr>) t \<longleftrightarrow> buddy_tree b t"
  by (simp add: buddy_tree_def)

lemma buddy_inv_pool [simp]: "buddy_inv (b\<lparr>buddy_pool := f\<rparr>) \<longleftrightarrow> buddy_inv b"
  by (simp add: buddy_inv_def)

lemma pages_pool [simp]: "pages (b\<lparr>buddy_pool := f\<rparr>) = pages b"
  by (simp add: pages_def)

text \<open>What the handler learns about the current page.\<close>

lemma current_room:
  assumes "31 \<le> d" "buddy_inv b"
  obtains (miss) "buddy_size d x b = Inr (-1)" "\<forall>(a, m) \<in> pages b. \<not> (a \<le> x \<and> x < a + m)"
    | (hit) a m where "(a, m) \<in> pages b" "a \<le> x" "x < a + m" "buddy_size d x b = Inr (a + m - x)"
  using bd.room_cases [of malloc_demo d b x] assms malloc_demo_ok by blast

lemma page_room:
  assumes "31 \<le> d" "buddy_inv b" "(a, m) \<in> pages b"
  shows "0 \<le> a" "1 \<le> m" "a + m \<le> pool_len b"
    and "a \<le> x \<Longrightarrow> x < a + m \<Longrightarrow> buddy_size d x b = Inr (a + m - x)"
  using bd.pg_bounds [of malloc_demo d b a m] bd.room_hit [of malloc_demo d b a m x] assms malloc_demo_ok
  by auto

lemma pages_disjoint:
  "buddy_inv b \<Longrightarrow> p \<in> pages b \<Longrightarrow> q \<in> pages b \<Longrightarrow> p \<noteq> q \<Longrightarrow> before p q \<or> before q p"
  by (auto simp: buddy_inv_def dest: pages_before)

lemma no_room:
  assumes "31 \<le> d" "buddy_inv b" "\<forall>(a, m) \<in> pages b. \<not> (a \<le> x \<and> x < a + m)"
  shows "buddy_size d x b = Inr (-1)"
  using bd.room_miss [of malloc_demo d b x] assms malloc_demo_ok by blast

section \<open>The invariant of the device\<close>

definition vmm_inv :: "vmm \<Rightarrow> bool" where
  "vmm_inv v \<longleftrightarrow> buddy_inv (bud v) \<and> in_int (current_idx v) \<and> in_int (read_size v)"

lemma buddy_alloc_any:
  assumes "malloc_ok am" "31 \<le> d" "buddy_inv b" "buddy_alloc am d n b = Inr (rt, b')"
  shows "buddy_inv b' \<and> pool_len b' = pool_len b"
proof (cases "1 \<le> n")
  case True
  with bd.alloc_ret [of am d b n rt b'] assms show ?thesis by blast
next
  case False
  obtain t where t: "buddy_tree b t" using assms(3) by (auto simp: buddy_inv_def)
  have "\<nexists>f. buddy_alloc_rec am d (buddy_head b) n (cells b) = Inl f"
    using assms(4) by (auto simp: buddy_alloc_def bindE_Inr_iff)
  then have "free_sizes (pool_len b) t = []"
    using buddy_alloc_rec_endless [OF assms(1) _ buddy_treeD(1,2) [OF t], of n d] False by fastforce
  from buddy_alloc_rec_full [OF buddy_treeD(1) [OF t] this, of am d n] assms(3,4)
  show ?thesis by (auto simp: buddy_alloc_def)
qed

lemma read_loop_total: "0 \<le> idx + k \<Longrightarrow> idx + n \<le> pool_len b \<Longrightarrow> \<exists>rt u'. read_loop p idx n k b u = Inr (rt, u')"
proof (cases "k \<le> n")
  case True
  assume "0 \<le> idx + k" "idx + n \<le> pool_len b"
  with True show ?thesis using read_loop_bytes [of k n idx b p u] by simp
next
  case False
  then show ?thesis by (subst read_loop.simps) simp
qed

lemma vmm_ioctl_cases:
  assumes "malloc_ok am" "31 \<le> d" "vmm_inv v"
  shows "case vmm_ioctl am d c x u v of
      Inl f \<Rightarrow> c = IOCTL_ALLOC \<and> (1 \<le> int_of_long x \<longrightarrow> f = NullDeref) \<or>
        c = IOCTL_WRITE \<and> f = Overrun \<and>
          (\<exists>(a, m) \<in> pages (bud v). a \<le> current_idx v \<and> current_idx v < a + m \<and> a + m = pool_len (bud v))
    | Inr (rt, u', v') \<Rightarrow> vmm_inv v' \<and> pool_len (bud v') = pool_len (bud v)"
proof (cases c)
  case IOCTL_ALLOC
  show ?thesis
  proof (cases "buddy_alloc am d (int_of_long x) (bud v)")
    case (Inl f)
    moreover have "f = NullDeref" if "1 \<le> int_of_long x"
    proof -
      obtain t where t: "buddy_tree (bud v) t" using assms(3) by (auto simp: vmm_inv_def buddy_inv_def)
      show ?thesis
        by (cases rule: buddy_alloc_tree [OF assms(1) t that assms(2), case_names fault none some]) (use Inl in auto)
    qed
    ultimately show ?thesis using IOCTL_ALLOC by simp
  next
    case (Inr r)
    then show ?thesis
      using IOCTL_ALLOC assms buddy_alloc_any [OF assms(1,2), of "bud v" "int_of_long x" "fst r" "snd r"]
      by (cases r) (auto simp: vmm_inv_def)
  qed
next
  case IOCTL_FREE
  then show ?thesis
    using bd.release_ret [of am d "bud v" "int_of_long x"] assms by (auto simp: vmm_inv_def)
next
  case IOCTL_WRITE
  show ?thesis
  proof (cases rule: current_room [OF assms(2), of "bud v" "current_idx v", case_names inv miss hit])
    case inv
    then show ?case using assms(3) by (simp add: vmm_inv_def)
  next
    case miss
    have "write_loop u x (current_idx v) (-1) 0 (bud v) = Inr (0, bud v) \<or>
        write_loop u x (current_idx v) (-1) 0 (bud v) = Inr (-1, bud v)"
      by (cases "get_user u x = 0") (simp_all add: write_loop_end write_loop_full)
    then show ?thesis using IOCTL_WRITE miss assms(3) by auto
  next
    case (hit a m)
    have "0 \<le> a" "a + m \<le> pool_len (bud v)"
      using page_room [OF assms(2) _ hit(1)] assms(3) by (auto simp: vmm_inv_def)
    with write_loop_frame [where u = u and p = x and idx = "current_idx v" and k = 0 and sz = "a + m - current_idx v" and b = "bud v"] hit assms(3) IOCTL_WRITE
    show ?thesis by (fastforce simp: vmm_inv_def split: sum.splits)
  qed
next
  case IOCTL_READ
  show ?thesis
  proof (cases rule: current_room [OF assms(2), of "bud v" "current_idx v", case_names inv miss hit])
    case inv
    then show ?case using assms(3) by (simp add: vmm_inv_def)
  next
    case miss
    show ?thesis
    proof (cases "-1 < read_size v")
      case False
      then have "read_loop x (current_idx v) (read_size v) 0 (bud v) u = Inr (0, u)"
        by (subst read_loop.simps) simp
      then show ?thesis using IOCTL_READ miss assms(3) False by simp
    qed (use IOCTL_READ miss assms(3) in simp)
  next
    case (hit a m)
    have "0 \<le> a" "a + m \<le> pool_len (bud v)"
      using page_room [OF assms(2) _ hit(1)] assms(3) by (auto simp: vmm_inv_def)
    show ?thesis
    proof (cases "a + m - current_idx v < read_size v")
      case False
      then obtain rt u' where "read_loop x (current_idx v) (read_size v) 0 (bud v) u = Inr (rt, u')"
        using read_loop_total [of "current_idx v" 0 "read_size v" "bud v" x u] hit \<open>0 \<le> a\<close> \<open>a + m \<le> _\<close> by auto
      then show ?thesis using IOCTL_READ hit assms(3) False by simp
    qed (use IOCTL_READ hit assms(3) in simp)
  qed
qed (use assms(3) int_of_long_in_int in \<open>auto simp: vmm_inv_def\<close>)

text \<open>
  A run of the device: any ioctl calls with any arguments, by user programs that change their
  memory as they like between the calls.
\<close>

inductive vmm_reach :: "allocator \<Rightarrow> nat \<Rightarrow> vmm \<Rightarrow> vmm \<Rightarrow> bool" for am d where
  start: "vmm_reach am d v v"
| call: "vmm_reach am d v0 v \<Longrightarrow> vmm_ioctl am d c x u v = Inr (rt, u', v') \<Longrightarrow> vmm_reach am d v0 v'"

lemma vmm_reach_keeps:
  "vmm_reach am d v0 v \<Longrightarrow> malloc_ok am \<Longrightarrow> 31 \<le> d \<Longrightarrow> vmm_inv v0 \<Longrightarrow>
     vmm_inv v \<and> pool_len (bud v) = pool_len (bud v0)"
proof (induction rule: vmm_reach.induct)
  case (call v0 v c x u rt u' v')
  then show ?case using vmm_ioctl_cases [of am d v c x u] by simp
qed simp

lemmas vmm_reach_inv = vmm_reach_keeps [THEN conjunct1]
lemmas vmm_reach_len = vmm_reach_keeps [THEN conjunct2]

definition demo_vmm :: vmm where
  "demo_vmm = \<lparr>bud = demo_half, current_idx = 2, read_size = 4, registered = True\<rparr>"

definition demo_user :: umem where
  "demo_user = [100 \<mapsto> 72, 101 \<mapsto> 105, 102 \<mapsto> 0]"

lemma demo_vmm_inv: "vmm_inv demo_vmm"
  using demo_invs by (simp add: vmm_inv_def demo_vmm_def in_int_def INT_MIN_def INT_MAX_def)

text \<open>C7: Every ioctl call on a state of the invariant either returns, keeps the invariant (a
  coalesced buddy tree, \<open>int\<close> globals) and the pool's length, or faults in one of two ways: an
  \<open>IOCTL_ALLOC\<close> (the unchecked \<open>bmalloc\<close> when the size is positive, endless recursion when not), or an
  \<open>IOCTL_WRITE\<close> to the page that ends where the pool ends. Freeing and reading never fault.\<close>

theorem vmm_ioctl_safe:
  assumes "malloc_ok am" "31 \<le> d" "vmm_inv v"
  shows "case vmm_ioctl am d c x u v of
      Inl f \<Rightarrow> c = IOCTL_ALLOC \<and> (1 \<le> int_of_long x \<longrightarrow> f = NullDeref) \<or>
        c = IOCTL_WRITE \<and> f = Overrun \<and>
          (\<exists>(a, m) \<in> pages (bud v). a \<le> current_idx v \<and> current_idx v < a + m \<and> a + m = pool_len (bud v))
    | Inr (rt, u', v') \<Rightarrow> vmm_inv v' \<and> pool_len (bud v') = pool_len (bud v)"
  by (rule vmm_ioctl_cases [OF assms])

theorem vmm_ioctl_safe_witness:
  "\<exists>rt u' v'. vmm_ioctl malloc_demo 31 IOCTL_READ 100 demo_user demo_vmm = Inr (rt, u', v') \<and> vmm_inv v'"
  using vmm_ioctl_safe [OF malloc_demo_ok _ demo_vmm_inv, of 31 IOCTL_READ 100 demo_user]
  by (cases "vmm_ioctl malloc_demo 31 IOCTL_READ 100 demo_user demo_vmm") auto

text \<open>C8: Whatever ioctl calls ran since the module was loaded, any two distinct pages are disjoint
  and inside the pool.\<close>

theorem vmm_reach_pages:
  assumes "vmm_reach am d v0 v" "malloc_ok am" "31 \<le> d" "vmm_inv v0"
    and "(a, m) \<in> pages (bud v)" "(b, k) \<in> pages (bud v)"
  shows "0 \<le> a \<and> 1 \<le> m \<and> a + m \<le> pool_len (bud v0) \<and> ((a, m) = (b, k) \<or> a + m \<le> b \<or> b + k \<le> a)"
proof -
  have "vmm_inv v" "pool_len (bud v) = pool_len (bud v0)"
    using vmm_reach_inv [OF assms(1-4)] vmm_reach_len [OF assms(1-4)] by auto
  moreover from this have "(a, m) = (b, k) \<or> before (a, m) (b, k) \<or> before (b, k) (a, m)"
    using bd.pg_disjoint [of am d "bud v" "(a, m)" "(b, k)"] assms(2,3,5,6) by (auto simp: vmm_inv_def)
  ultimately show ?thesis
    using page_room [OF assms(3) _ assms(5)] by (auto simp: vmm_inv_def before_def)
qed

text \<open>An \<open>IOCTL_ALLOC\<close> of five bytes and an \<open>IOCTL_SET_IDX\<close>: the new page lies behind the one that was there.\<close>

theorem vmm_reach_pages_witness:
  "\<exists>v m. vmm_reach malloc_demo 31 demo_vmm v \<and> current_idx v = 9 \<and> (0, 8) \<in> pages (bud v) \<and> (8, m) \<in> pages (bud v) \<and>
     5 \<le> m \<and> 8 + m \<le> pool_len (bud demo_vmm) \<and> ((8, m) = (0, 8) \<or> 8 + m \<le> 0 \<or> 0 + 8 \<le> (8::int))"
proof -
  obtain b' where b': "buddy_alloc malloc_demo 31 5 demo_half = Inr (8, b')" using demo_half_alloc by blast
  have len: "pool_len demo_half = 16" by (simp add: demo_half_def demo_empty_def)
  then have "\<exists>s \<in> free_leaves demo_half. 5 \<le> s" by (simp add: free_leaves_sizes [OF demo_half_tree])
  then obtain m where m: "5 \<le> m" "pages b' = insert (8, m) {(0, 8)}"
    using buddy_alloc_outcome [OF malloc_demo_ok _ demo_invs(2), of 31 5] b'
    by (auto simp: demo_pages len)
  let ?v = "demo_vmm\<lparr>bud := b', current_idx := 9\<rparr>"
  have "vmm_ioctl malloc_demo 31 IOCTL_ALLOC 5 demo_user demo_vmm = Inr (8, demo_user, demo_vmm\<lparr>bud := b'\<rparr>)"
    using b' by (simp add: demo_vmm_def int_of_long_def)
  from vmm_reach.call [OF vmm_reach.start this] have "vmm_reach malloc_demo 31 demo_vmm (demo_vmm\<lparr>bud := b'\<rparr>)" .
  then have reach: "vmm_reach malloc_demo 31 demo_vmm ?v"
    by (rule vmm_reach.call [where c = IOCTL_SET_IDX and x = 9 and u = demo_user]) (simp add: int_of_long_def)
  have "(8, m) \<in> pages (bud ?v)" "(0, 8) \<in> pages (bud ?v)" using m(2) by simp_all
  from vmm_reach_pages [OF reach malloc_demo_ok _ demo_vmm_inv this] m(1) reach this show ?thesis by (intro exI conjI) auto
qed

section \<open>Writing\<close>

lemma write_page:
  assumes "31 \<le> d" "buddy_inv (bud v)" "(a, m) \<in> pages (bud v)" "a \<le> current_idx v" "current_idx v < a + m"
    and "user_string u p bs"
  shows "vmm_ioctl am d IOCTL_WRITE p u v =
     bindE (write_outcome (current_idx v) (a + m - current_idx v) 0 bs (bud v)) (\<lambda>(rt, b). Inr (rt, u, v\<lparr>bud := b\<rparr>))"
  using page_room [OF assms(1-3)] assms(4-6) by (simp add: write_loop_string)

text \<open>A zero-terminated user string that fits between the current index and the end of its
  page is stored byte by byte at the current index, the call returns its length, and no byte of any other page
  changes.\<close>

theorem vmm_write_fits:
  assumes "31 \<le> d" "buddy_inv (bud v)" "(a, m) \<in> pages (bud v)" "a \<le> current_idx v" "current_idx v < a + m"
    and "user_string u p bs" "int (length bs) \<le> a + m - current_idx v"
  shows "vmm_ioctl am d IOCTL_WRITE p u v = Inr (int (length bs), u,
       v\<lparr>bud := (bud v)\<lparr>buddy_pool := poke (buddy_pool (bud v)) (current_idx v) bs\<rparr>\<rparr>) \<and>
     (\<forall>(b, k) \<in> pages (bud v). \<forall>x. (b, k) \<noteq> (a, m) \<longrightarrow> b \<le> x \<longrightarrow> x < b + k \<longrightarrow>
        poke (buddy_pool (bud v)) (current_idx v) bs x = buddy_pool (bud v) x)"
proof (intro conjI ballI, clarify?)
  show "vmm_ioctl am d IOCTL_WRITE p u v = Inr (int (length bs), u,
       v\<lparr>bud := (bud v)\<lparr>buddy_pool := poke (buddy_pool (bud v)) (current_idx v) bs\<rparr>\<rparr>)"
    unfolding write_page [OF assms(1-6)] using page_room(3) [OF assms(1-3)] assms(7)
    by (simp add: write_outcome_def Let_def min_def)
next
  fix q assume q: "q \<in> pages (bud v)"
  obtain b k where bk: "q = (b, k)" by (cases q)
  have "poke (buddy_pool (bud v)) (current_idx v) bs x = buddy_pool (bud v) x"
    if "(b, k) \<noteq> (a, m)" "b \<le> x" "x < b + k" for x
    using pages_disjoint [OF assms(2), of "(b, k)" "(a, m)"] that q assms(3-5,7)
    by (auto simp: bk before_def poke_def)
  then show "case q of (b, k) \<Rightarrow> \<forall>x. (b, k) \<noteq> (a, m) \<longrightarrow> b \<le> x \<longrightarrow> x < b + k \<longrightarrow>
        poke (buddy_pool (bud v)) (current_idx v) bs x = buddy_pool (bud v) x" by (simp add: bk)
qed

lemma demo_string: "user_string demo_user 100 [72, 105]"
  by (simp add: user_string_Cons user_string_Nil get_user_def demo_user_def)

lemma demo_vmm_simps [simp]:
  "bud demo_vmm = demo_half" "current_idx demo_vmm = 2" "read_size demo_vmm = 4" "pool_len demo_half = 16"
  by (simp_all add: demo_vmm_def demo_half_def demo_empty_def)

theorem vmm_write_fits_witness:
  "vmm_ioctl malloc_demo 31 IOCTL_WRITE 100 demo_user demo_vmm = Inr (2, demo_user,
       demo_vmm\<lparr>bud := demo_half\<lparr>buddy_pool := poke (buddy_pool demo_half) 2 [72, 105]\<rparr>\<rparr>)"
  using vmm_write_fits [OF _ _ _ _ _ demo_string, of 31 demo_vmm 0 8 malloc_demo]
  by (simp add: demo_invs demo_pages del: vmm_ioctl.simps)

text \<open>C9: A string longer than the room of the page is not stopped at the page's end: the guard
  \<open>bytes > size\<close> lets one byte too many through, which lands on the first byte behind the page (a
  neighbour's byte, or outside the pool when the page is the last one). If it was the last byte the
  call even returns success; only a second byte too many is answered with -1, after the damage.\<close>

theorem vmm_write_overflows:
  assumes "31 \<le> d" "buddy_inv (bud v)" "(a, m) \<in> pages (bud v)" "a \<le> current_idx v" "current_idx v < a + m"
    and "user_string u p bs" "a + m - current_idx v < int (length bs)"
  shows "vmm_ioctl am d IOCTL_WRITE p u v =
     (if a + m = pool_len (bud v) then Inl Overrun
      else Inr (if int (length bs) = a + m - current_idx v + 1 then int (length bs) else -1, u,
        v\<lparr>bud := (bud v)\<lparr>buddy_pool := poke (buddy_pool (bud v)) (current_idx v)
            (take (nat (a + m - current_idx v) + 1) bs)\<rparr>\<rparr>)) \<and>
     poke (buddy_pool (bud v)) (current_idx v) (take (nat (a + m - current_idx v) + 1) bs) (a + m) =
       bs ! nat (a + m - current_idx v)"
proof -
  let ?r = "a + m - current_idx v"
  have r: "0 < ?r" "min (int (length bs)) (?r + 1 - 0) = ?r + 1" "nat (?r + 1) = nat ?r + 1"
    using assms(4,5,7) by auto
  show ?thesis
  proof
    show "vmm_ioctl am d IOCTL_WRITE p u v = (if a + m = pool_len (bud v) then Inl Overrun
      else Inr (if int (length bs) = ?r + 1 then int (length bs) else -1, u,
        v\<lparr>bud := (bud v)\<lparr>buddy_pool := poke (buddy_pool (bud v)) (current_idx v) (take (nat ?r + 1) bs)\<rparr>\<rparr>))"
      unfolding write_page [OF assms(1-6)] write_outcome_def Let_def r(2)
      using page_room(3) [OF assms(1-3)] assms(7) r(1,3) by auto
  next
    show "poke (buddy_pool (bud v)) (current_idx v) (take (nat ?r + 1) bs) (a + m) = bs ! nat ?r"
      using r(1) assms(5,7) by (auto simp: poke_def)
  qed
qed

definition long_user :: umem where
  "long_user = [100 \<mapsto> 65, 101 \<mapsto> 66, 102 \<mapsto> 67, 103 \<mapsto> 68, 104 \<mapsto> 69, 105 \<mapsto> 70, 106 \<mapsto> 71, 107 \<mapsto> 0]"

theorem vmm_write_overflows_witness:
  "\<exists>v'. vmm_ioctl malloc_demo 31 IOCTL_WRITE 100 long_user demo_vmm = Inr (7, long_user, v') \<and>
     buddy_pool (bud v') 8 = 71"
proof -
  have "user_string long_user 100 [65, 66, 67, 68, 69, 70, 71]"
    by (simp add: user_string_Cons user_string_Nil get_user_def long_user_def)
  from vmm_write_overflows [OF _ _ _ _ _ this, of 31 demo_vmm 0 8 malloc_demo] show ?thesis
    by (simp add: demo_invs demo_pages nth_Cons')
qed

text \<open>Writing or reading where no page is: a write of a nonempty string returns -1 and stores
  nothing (an empty one returns 0), and a read returns -1 and copies nothing unless the requested
  size is negative, when it returns 0.\<close>

theorem vmm_unallocated:
  assumes "31 \<le> d" "buddy_inv (bud v)"
    and "\<forall>(a, m) \<in> pages (bud v). \<not> (a \<le> current_idx v \<and> current_idx v < a + m)"
  shows "vmm_ioctl am d IOCTL_WRITE p u v = Inr (if get_user u p = 0 then 0 else -1, u, v) \<and>
     vmm_ioctl am d IOCTL_READ p u v = Inr (if read_size v < 0 then 0 else -1, u, v)"
proof -
  have room: "buddy_size d (current_idx v) (bud v) = Inr (-1)" by (rule no_room [OF assms])
  have "write_loop u p (current_idx v) (-1) 0 (bud v) = Inr (if get_user u p = 0 then 0 else -1, bud v)"
    by (cases "get_user u p = 0") (simp_all add: write_loop_end write_loop_full)
  moreover have "read_loop p (current_idx v) (read_size v) 0 (bud v) u = Inr (0, u)" if "read_size v < 0"
    using that by (subst read_loop.simps) simp
  ultimately show ?thesis by (simp add: room)
qed

theorem vmm_unallocated_witness:
  "vmm_ioctl malloc_demo 31 IOCTL_WRITE 100 demo_user (demo_vmm\<lparr>current_idx := 9\<rparr>) =
     Inr (if get_user demo_user 100 = 0 then 0 else -1, demo_user, demo_vmm\<lparr>current_idx := 9\<rparr>) \<and>
   vmm_ioctl malloc_demo 31 IOCTL_READ 100 demo_user (demo_vmm\<lparr>current_idx := 9\<rparr>) =
     Inr (if read_size (demo_vmm\<lparr>current_idx := 9\<rparr>) < 0 then 0 else -1, demo_user, demo_vmm\<lparr>current_idx := 9\<rparr>)"
  by (rule vmm_unallocated) (simp_all add: demo_invs demo_pages)

section \<open>Reading\<close>

text \<open>A read inside a page copies exactly \<open>read_size\<close> pool bytes to user memory when they end
  inside the page, and otherwise returns -1 and copies nothing; it never changes the pool.\<close>

theorem vmm_read_page:
  assumes "31 \<le> d" "buddy_inv (bud v)" "(a, m) \<in> pages (bud v)" "a \<le> current_idx v" "current_idx v < a + m"
    and "0 \<le> read_size v"
  shows "vmm_ioctl am d IOCTL_READ p u v =
     (if current_idx v + read_size v \<le> a + m
      then Inr (read_size v, put_bytes (pool_bytes (bud v) (current_idx v) (read_size v)) p u, v)
      else Inr (-1, u, v))"
  using page_room [OF assms(1-3)] assms(4-6) by (simp add: read_loop_bytes)

theorem vmm_read_page_witness:
  "vmm_ioctl malloc_demo 31 IOCTL_READ 100 demo_user demo_vmm =
     (if current_idx demo_vmm + read_size demo_vmm \<le> 0 + 8
      then Inr (read_size demo_vmm,
        put_bytes (pool_bytes (bud demo_vmm) (current_idx demo_vmm) (read_size demo_vmm)) 100 demo_user, demo_vmm)
      else Inr (-1, demo_user, demo_vmm))"
  by (rule vmm_read_page) (simp_all add: demo_invs demo_pages)

definition mapped :: "umem \<Rightarrow> uaddr \<Rightarrow> nat \<Rightarrow> bool" where
  "mapped u p n \<longleftrightarrow> (\<forall>i < n. u (p + of_nat i) \<noteq> None)"

lemma put_user_dom [simp]: "put_user c a u x = None \<longleftrightarrow> u x = None"
  by (cases "u a") (auto simp: put_user_def)

lemma mapped_put_user [simp]: "mapped (put_user c a u) p n = mapped u p n"
  by (simp add: mapped_def)

lemma mapped_Suc: "mapped u p (Suc n) \<longleftrightarrow> u p \<noteq> None \<and> mapped u (p + 1) n"
  by (simp add: mapped_def All_less_Suc2 add.assoc)

lemma put_bytes_other:
  "(\<And>i. i < length cs \<Longrightarrow> x \<noteq> p + of_nat i) \<Longrightarrow> put_bytes cs p u x = u x"
proof (induction cs arbitrary: p u)
  case (Cons c cs)
  have "x \<noteq> p" using Cons.prems [of 0] by simp
  moreover have "x \<noteq> p + 1 + of_nat i" if "i < length cs" for i
    using Cons.prems [of "Suc i"] that by (simp add: add.assoc)
  ultimately show ?case using Cons.IH [of "p + 1" "put_user c p u"]
    by (auto simp: put_user_def split: option.splits)
qed simp

lemma uaddr_inj: "i < 2 ^ 64 \<Longrightarrow> j < 2 ^ 64 \<Longrightarrow> (of_nat i :: uaddr) = of_nat j \<longleftrightarrow> i = j"
  by (simp add: word_of_nat_eq_iff take_bit_nat_eq_self)

text \<open>Copying to mapped memory that does not wrap around the address space stores each byte once.\<close>

lemma put_bytes_at:
  "mapped u p (length cs) \<Longrightarrow> length cs \<le> 2 ^ 64 \<Longrightarrow> i < length cs \<Longrightarrow>
     put_bytes cs p u (p + of_nat i) = Some (cs ! i)"
proof (induction cs arbitrary: p u i)
  case (Cons c cs)
  show ?case
  proof (cases i)
    case 0
    have "p \<noteq> p + 1 + of_nat j" if "j < length cs" for j
      using uaddr_inj [of 0 "Suc j"] that Cons.prems(2) by (simp add: add.assoc)
    then have "put_bytes cs (p + 1) (put_user c p u) p = put_user c p u p" by (intro put_bytes_other)
    then show ?thesis using 0 Cons.prems(1) by (auto simp: mapped_Suc put_user_def)
  next
    case (Suc j)
    then show ?thesis
      using Cons.IH [of "put_user c p u" "p + 1" j] Cons.prems by (simp add: mapped_Suc add.assoc)
  qed
qed simp

lemma int_of_long_of_int [simp]: "in_int x \<Longrightarrow> int_of_long (of_int x) = x"
proof -
  assume "in_int x"
  then have "- (2 ^ 31) \<le> x" "x < 2 ^ 31" by (auto simp: in_int_def INT_MIN_def INT_MAX_def)
  then have "signed_take_bit 31 x = x" by (simp add: signed_take_bit_int_eq_self_iff)
  moreover have "(ucast (of_int x :: 64 word) :: 32 word) = of_int x"
    by (simp add: ucast_eq word_uint_eq_iff uint_word_of_int take_bit_eq_mod mod_mod_cancel)
  ultimately show ?thesis by (simp add: int_of_long_def sint_sbintrunc')
qed

section \<open>The wrappers of vmm_test.c\<close>

lemma page_in_int:
  fixes d :: nat
  assumes "31 \<le> d" "buddy_inv b" "(a, m) \<in> pages b" "0 \<le> k" "k \<le> m"
  shows "in_int k" "in_int (a + k)"
proof -
  have "pool_len b \<le> INT_MAX" using assms(2) by (auto simp: buddy_inv_def buddy_tree_def)
  with page_room [OF assms(1-3)] assms(4,5) show "in_int k" "in_int (a + k)"
    by (auto simp: in_int_def INT_MIN_def)
qed

lemma poke_bytes: "map (poke f a bs) [a + i..a + i + n - 1] = take (nat n) (drop (nat i) bs)"
  if "0 \<le> i" "i + n \<le> int (length bs)"
  by (rule nth_equalityI) (use that in \<open>auto simp: poke_def nat_add_distrib\<close>)

lemma write_mem_fits:
  assumes "31 \<le> d" "vmm_inv v" "(a, m) \<in> pages (bud v)" "user_string u p bs" "int (length bs) \<le> m"
  shows "write_mem am d a p u v = Inr (int (length bs), u, v\<lparr>current_idx := a,
     bud := (bud v)\<lparr>buddy_pool := poke (buddy_pool (bud v)) a bs\<rparr>\<rparr>)"
proof -
  have a: "in_int a" "1 \<le> m" "a + m \<le> pool_len (bud v)"
    using page_in_int [OF assms(1) _ assms(3), of 0] page_room [OF assms(1) _ assms(3)] assms(2)
    by (auto simp: vmm_inv_def)
  have "vmm_ioctl am d IOCTL_WRITE p u (v\<lparr>current_idx := a\<rparr>) = Inr (int (length bs), u,
      v\<lparr>current_idx := a, bud := (bud v)\<lparr>buddy_pool := poke (buddy_pool (bud v)) a bs\<rparr>\<rparr>)"
    using assms a
    by (subst write_page [OF assms(1) _ _ _ _ assms(4), of _ a m])
       (auto simp: vmm_inv_def write_outcome_def Let_def min_def)
  then show ?thesis using a by (simp add: write_mem_def del: vmm_ioctl.simps(5))
qed

lemma read_mem_page:
  assumes "31 \<le> d" "vmm_inv v" "(a, m) \<in> pages (bud v)" "0 \<le> i" "i < m" "0 \<le> n" "i + n \<le> m"
  shows "read_mem am d (a + i) p n u v = Inr (n, put_bytes (pool_bytes (bud v) (a + i) n) p u,
     v\<lparr>current_idx := a + i, read_size := n\<rparr>)"
proof -
  have a: "in_int (a + i)" "in_int n" "0 \<le> a" "a + m \<le> pool_len (bud v)"
    using page_in_int [OF assms(1) _ assms(3), of i] page_in_int [OF assms(1) _ assms(3), of n]
      page_room [OF assms(1) _ assms(3)] assms by (auto simp: vmm_inv_def)
  have "buddy_size d (a + i) (bud v) = Inr (a + m - (a + i))"
    using page_room(4) [OF assms(1) _ assms(3)] assms by (simp add: vmm_inv_def)
  then show ?thesis
    using a assms(4-7) int_of_long_of_int [OF a(1)] by (simp add: read_mem_def read_loop_bytes)
qed

text \<open>C10: What \<open>write_mem\<close> stores in a page \<open>read_mem\<close> reads back: writing a zero-terminated string
  that fits into the page and reading as many bytes into a mapped buffer both return the
  length, the buffer holds the string, and no other byte of user memory changes.\<close>

theorem write_read_roundtrip:
  assumes "31 \<le> d" "vmm_inv v" "(a, m) \<in> pages (bud v)" "user_string u p bs" "int (length bs) \<le> m"
    and "mapped u dst (length bs)"
  shows "\<exists>v1 u2 v2. write_mem am d a p u v = Inr (int (length bs), u, v1) \<and>
     read_mem am d a dst (int (length bs)) u v1 = Inr (int (length bs), u2, v2) \<and>
     (\<forall>i < length bs. u2 (dst + of_nat i) = Some (bs ! i)) \<and>
     (\<forall>x. (\<forall>i < length bs. x \<noteq> dst + of_nat i) \<longrightarrow> u2 x = u x)"
proof -
  let ?v1 = "v\<lparr>current_idx := a, bud := (bud v)\<lparr>buddy_pool := poke (buddy_pool (bud v)) a bs\<rparr>\<rparr>"
  have a: "in_int a" "in_int m" "1 \<le> m"
    using page_in_int [OF assms(1) _ assms(3), of 0] page_in_int [OF assms(1) _ assms(3), of m]
      page_room [OF assms(1) _ assms(3)] assms(2) by (auto simp: vmm_inv_def)
  have bytes: "pool_bytes (bud ?v1) a (int (length bs)) = bs"
    using poke_bytes [of 0 "int (length bs)" bs "buddy_pool (bud v)" a] by (simp add: pool_bytes_def)
  have "vmm_inv ?v1" "(a, m) \<in> pages (bud ?v1)" using assms(2,3) a by (simp_all add: vmm_inv_def)
  from read_mem_page [OF assms(1) this, of 0 "int (length bs)" am dst u] a(3) assms(5) bytes
  have "\<exists>v2. read_mem am d a dst (int (length bs)) u ?v1 = Inr (int (length bs), put_bytes bs dst u, v2)" by simp
  moreover have "length bs \<le> 2 ^ 64" using a(2) assms(5) by (simp add: in_int_def INT_MAX_def)
  ultimately show ?thesis
    using write_mem_fits [OF assms(1-5), of am] put_bytes_at [OF assms(6)] put_bytes_other [of bs _ dst u] by blast
qed

theorem write_read_roundtrip_witness:
  "\<exists>v1 u2 v2. write_mem malloc_demo 31 0 100 demo_user demo_vmm = Inr (2, demo_user, v1) \<and>
     read_mem malloc_demo 31 0 101 2 demo_user v1 = Inr (2, u2, v2) \<and> u2 101 = Some 72 \<and> u2 102 = Some 105"
proof -
  have "mapped demo_user 101 (length [72, 105 :: byte])"
    by (simp add: mapped_Suc mapped_def [of _ _ 0] demo_user_def)
  from write_read_roundtrip [where m = 8, OF _ demo_vmm_inv _ demo_string _ this, of 31 0 malloc_demo]
  show ?thesis by (simp add: demo_pages All_less_Suc2) blast
qed

section \<open>The test program's main\<close>

lemma c_str_string: "user_string u p bs \<Longrightarrow> length bs < n \<Longrightarrow> c_str n u p = Inr (map (\<lambda>c. char_of (unat c)) bs)"
proof (induction bs arbitrary: n p)
  case Nil
  then show ?case by (cases n) (simp_all add: user_string_Nil)
next
  case (Cons c cs)
  then show ?case by (cases n) (simp_all add: user_string_Cons)
qed

lemma c_str_stops: "get_user u (p + of_nat k) = 0 \<Longrightarrow> k < n \<Longrightarrow> \<exists>s. c_str n u p = Inr s"
proof (induction n arbitrary: p k)
  case (Suc n)
  show ?case
  proof (cases k)
    case 0
    with Suc.prems show ?thesis by simp
  next
    case (Suc j)
    with Suc.IH [of "p + 1" j] Suc.prems show ?thesis by (auto simp: add.assoc)
  qed
qed simp

lemma mapped_mono: "mapped u p n \<Longrightarrow> k \<le> n \<Longrightarrow> mapped u p k"
  by (simp add: mapped_def)

lemma get_put_bytes:
  assumes "mapped u p n" "length cs \<le> n" "n \<le> 2 ^ 64" "i < n"
  shows "get_user (put_bytes cs p u) (p + of_nat i) = (if i < length cs then cs ! i else get_user u (p + of_nat i))"
proof (cases "i < length cs")
  case True
  then show ?thesis
    using put_bytes_at [OF mapped_mono [OF assms(1,2)] _ True] assms(2,3) by (simp add: get_user_def)
next
  case False
  have "p + of_nat i \<noteq> p + of_nat j" if "j < length cs" for j
    using uaddr_inj [of i j] that False assms(2-4) by simp
  then show ?thesis using False put_bytes_other [of cs "p + of_nat i" p u] by (simp add: get_user_def)
qed

lemma mapped_put_bytes [simp]: "mapped (put_bytes cs p u) q n = mapped u q n"
  by (induction cs arbitrary: p u) simp_all

lemma user_string_put:
  assumes "mapped u p n" "length bs < n" "n \<le> 2 ^ 64" "0 \<notin> set bs"
  shows "user_string (put_bytes (bs @ [0]) p u) p bs"
proof -
  have "bs ! i \<noteq> 0" if "i < length bs" for i using assms(4) that by (metis nth_mem)
  then show ?thesis
    using assms get_put_bytes [OF assms(1) _ assms(3), of "bs @ [0]"]
    by (simp add: user_string_def nth_append)
qed

lemma get_mem_empty:
  assumes "malloc_ok am" "malloc_serves am 100" "31 \<le> d" "vmm_inv v" "pages (bud v) = {}"
    and "1 \<le> n" "n \<le> pool_len (bud v)"
  obtains v1 m where "get_mem am d n u v = Inr (0, u, v1)" "vmm_inv v1" "pages (bud v1) = {(0, m)}" "n \<le> m"
    "buddy_pool (bud v1) = buddy_pool (bud v)"
proof -
  obtain t where "buddy_tree (bud v) t" using assms(4) by (auto simp: vmm_inv_def buddy_inv_def)
  with assms(5) have t: "buddy_tree (bud v) TFree"
    by (metis blocks_nil_iff buddy_treeD(3) pages_blocks set_empty)
  have n: "in_int n" using assms(6,7) buddy_treeD(4) [OF t] by (simp add: in_int_def INT_MIN_def)
  have "card (dom (cells (bud v))) = 1" using buddy_treeD(1) [OF t] by auto
  then obtain r where r: "buddy_alloc am d n (bud v) = Inr r"
    using buddy_alloc_serves [OF assms(1-3) t assms(6)] by auto
  have a: "t_alloc 0 (pool_len (bud v)) TFree n = Some (0, split_down (pool_len (bud v)) n)"
    using assms(7) by (simp add: t_alloc.simps)
  obtain b' t' where b': "buddy_alloc am d n (bud v) = Inr (0, b')" "buddy_tree b' t'" "b' = (bud v)\<lparr>cells := cells b'\<rparr>"
    by (cases rule: buddy_alloc_tree [OF assms(1) t assms(6,3), case_names fault none some]) (use r a in auto)
  obtain m where "n \<le> m" "pages b' = {(0, m)}"
    using bd.alloc_ret [of am d "bud v" n 0 b'] assms b'(1) by (auto simp: vmm_inv_def)
  moreover have "buddy_pool b' = buddy_pool (bud v)" by (subst b'(3)) simp
  ultimately show thesis
    using that [of "v\<lparr>bud := b'\<rparr>" m] b'(1,2) n assms(4)
    by (auto simp: get_mem_def vmm_inv_def buddy_inv_def)
qed

lemma free_mem_page:
  assumes "31 \<le> d" "vmm_inv v" "pages (bud v) = {(0, m)}"
  obtains v1 where "free_mem am d 0 u v = Inr (0, u, v1)" "pages (bud v1) = {}"
proof -
  have "int_of_long (of_int 0) = 0" by (rule int_of_long_of_int) (simp add: in_int_def INT_MIN_def INT_MAX_def)
  moreover obtain b' where "buddy_free d 0 (bud v) = Inr (0, b')" "pages b' = {}"
    using bd.release_ret [of malloc_demo d "bud v" 0] assms malloc_demo_ok by (auto simp: vmm_inv_def)
  ultimately show thesis using that [of "v\<lparr>bud := b'\<rparr>"] by (simp add: free_mem_def)
qed

lemma hello_bytes:
  "length (bytes_of ''Hello buddy'') = 11" "0 \<notin> set (bytes_of ''Hello buddy'')"
  "drop 3 (bytes_of ''Hello buddy'') = bytes_of ''lo buddy''" "length (bytes_of ''lo buddy'') = 8"
  "0 \<notin> set (bytes_of ''lo buddy'')" "bytes_of ''Hello buddy'' ! 10 = of_char (CHR ''y'')"
  "map (\<lambda>c. char_of (unat c)) (bytes_of ''lo buddy'') = ''lo buddy''"
  by code_simp+

lemma poke_past: "0 \<le> a \<Longrightarrow> poke f 0 bs a = (if a < int (length bs) then bs ! nat a else f a)"
  by (simp add: poke_def)

lemma hello_read: "map (poke f 0 (bytes_of ''Hello buddy'')) [3..12] = bytes_of ''lo buddy'' @ [f 11, f 12]"
proof -
  have "[3..12::int] = [3..10] @ [11, 12]" by code_simp
  moreover have "map (poke f 0 (bytes_of ''Hello buddy'')) [3..10] = bytes_of ''lo buddy''"
    using poke_bytes [of 3 8 "bytes_of ''Hello buddy''" f 0] hello_bytes(1,3,4) by simp
  ultimately show ?thesis by (simp add: poke_past hello_bytes(1))
qed

text \<open>The buffer after the program's write and read.\<close>

definition hello_buffer :: "byte \<Rightarrow> byte \<Rightarrow> byte list" where
  "hello_buffer c1 c2 = bytes_of ''lo buddy'' @ [c1, c2, of_char (CHR ''y''), 0]"

lemma hello_buffer_correct:
  assumes u: "mapped u p 4096"
  shows "map (\<lambda>i. get_user (put_bytes (bytes_of ''lo buddy'' @ [c1, c2]) p
           (put_bytes (bytes_of ''Hello buddy'' @ [0]) p u)) (p + of_nat i)) [0..<12] = hello_buffer c1 c2"
proof (rule nth_equalityI)
  show len: "length (map (\<lambda>i. get_user (put_bytes (bytes_of ''lo buddy'' @ [c1, c2]) p
           (put_bytes (bytes_of ''Hello buddy'' @ [0]) p u)) (p + of_nat i)) [0..<12]) = length (hello_buffer c1 c2)"
    by (simp add: hello_buffer_def hello_bytes(4))
  fix i assume i: "i < length (map (\<lambda>i. get_user (put_bytes (bytes_of ''lo buddy'' @ [c1, c2]) p
           (put_bytes (bytes_of ''Hello buddy'' @ [0]) p u)) (p + of_nat i)) [0..<12])"
  then have i: "i < 12" by simp
  have 1: "get_user (put_bytes (bytes_of ''Hello buddy'' @ [0]) p u) (p + of_nat i) =
      (bytes_of ''Hello buddy'' @ [0]) ! i"
    using get_put_bytes [OF u, of "bytes_of ''Hello buddy'' @ [0]" i] i hello_bytes(1) by simp
  have 2: "get_user (put_bytes (bytes_of ''lo buddy'' @ [c1, c2]) p u') (p + of_nat i) =
      (if i < 10 then (bytes_of ''lo buddy'' @ [c1, c2]) ! i else get_user u' (p + of_nat i))" if "mapped u' p 4096" for u'
    using get_put_bytes [OF that, of "bytes_of ''lo buddy'' @ [c1, c2]" i] i hello_bytes(4) by simp
  have "i < 8 \<or> i = 8 \<or> i = 9 \<or> i = 10 \<or> i = 11" using i by linarith
  with 1 2 u i show "map (\<lambda>i. get_user (put_bytes (bytes_of ''lo buddy'' @ [c1, c2]) p
           (put_bytes (bytes_of ''Hello buddy'' @ [0]) p u)) (p + of_nat i)) [0..<12] ! i = hello_buffer c1 c2 ! i"
    by (auto simp: hello_buffer_def nth_append hello_bytes(1,4,6))
qed

text \<open>The test program of the README, on a fresh pool of the default size: it always runs to the end
  and gives its page back; it reads two bytes the write never stored, so the buffer holds ``lo buddy'' followed by
  whatever the pool contained at 11 and 12, and prints the README's line if the first of them is 0.\<close>

theorem vmm_test_readme:
  assumes "malloc_ok am" "malloc_serves am 100" "31 \<le> d" "vmm_inv v" "pages (bud v) = {}"
    and "pool_len (bud v) = DEFAULT_POOL_SIZE" "mapped u p 4096" "0 \<le> fd"
  shows "\<exists>out u' v'. vmm_test_main am d fd p u v = Inr (0, out, u', v') \<and> pages (bud v') = {} \<and>
     map (\<lambda>i. get_user u' (p + of_nat i)) [0..<12] = hello_buffer (buddy_pool (bud v) 11) (buddy_pool (bud v) 12) \<and>
     (buddy_pool (bud v) 11 = 0 \<longrightarrow> out = ''buffer: lo buddy'' @ [CHR 0x0A])"
proof -
  let ?f = "buddy_pool (bud v)"
  let ?u1 = "put_bytes (bytes_of ''Hello buddy'' @ [0]) p u"
  let ?u2 = "put_bytes (bytes_of ''lo buddy'' @ [?f 11, ?f 12]) p ?u1"
  obtain v1 m where v1: "get_mem am d 100 u v = Inr (0, u, v1)" "vmm_inv v1" "pages (bud v1) = {(0, m)}"
    "100 \<le> m" "buddy_pool (bud v1) = ?f"
    using get_mem_empty [OF assms(1-5), of 100 u] assms(6) by (auto simp: DEFAULT_POOL_SIZE_def)
  have str: "user_string ?u1 p (bytes_of ''Hello buddy'')"
    by (rule user_string_put [OF assms(7)]) (simp_all add: hello_bytes)
  let ?v2 = "v1\<lparr>current_idx := 0, bud := (bud v1)\<lparr>buddy_pool := poke ?f 0 (bytes_of ''Hello buddy'')\<rparr>\<rparr>"
  have w: "write_mem am d 0 p ?u1 v1 = Inr (11, ?u1, ?v2)"
    using write_mem_fits [OF assms(3) v1(2) _ str, of 0 m am] v1(3-5) by (simp add: hello_bytes)
  have v2: "vmm_inv ?v2" "(0, m) \<in> pages (bud ?v2)"
    using v1(2,3) by (simp_all add: vmm_inv_def in_int_def INT_MIN_def INT_MAX_def)
  let ?v3 = "?v2\<lparr>current_idx := 3, read_size := 10\<rparr>"
  have "pool_bytes (bud ?v2) (0 + 3) 10 = bytes_of ''lo buddy'' @ [?f 11, ?f 12]"
    using hello_read [of ?f] by (simp add: pool_bytes_def)
  with read_mem_page [OF assms(3) v2, of 3 10 am p ?u1] v1(4)
  have r: "read_mem am d 3 p 10 ?u1 ?v2 = Inr (10, ?u2, ?v3)" by simp
  have v3: "vmm_inv ?v3" "pages (bud ?v3) = {(0, m)}"
    using v1(2,3) by (simp_all add: vmm_inv_def in_int_def INT_MIN_def INT_MAX_def)
  obtain v4 where v4: "free_mem am d 0 ?u2 ?v3 = Inr (0, ?u2, v4)" "pages (bud v4) = {}"
    by (rule free_mem_page [OF assms(3) v3])
  have buf: "map (\<lambda>i. get_user ?u2 (p + of_nat i)) [0..<12] = hello_buffer (?f 11) (?f 12)"
    by (rule hello_buffer_correct [OF assms(7)])
  have nth: "get_user ?u2 (p + of_nat i) = hello_buffer (?f 11) (?f 12) ! i" if "i < 12" for i
    using arg_cong [OF buf, of "\<lambda>xs. xs ! i"] that by simp
  obtain s where s: "c_str 4096 ?u2 p = Inr s"
    using c_str_stops [of ?u2 p 11 4096] nth [of 11] by (auto simp: hello_buffer_def nth_append hello_bytes(4))
  have "s = ''lo buddy''" if "?f 11 = 0"
  proof -
    have "user_string ?u2 p (bytes_of ''lo buddy'')"
      unfolding user_string_def
      using nth nth [of 8] hello_bytes(4,5) that by (auto simp: hello_buffer_def nth_append) (metis nth_mem)
    from c_str_string [OF this, of 4096] s show ?thesis by (simp add: hello_bytes(4,7))
  qed
  moreover have "vmm_test_main am d fd p u v = Inr (0, ''buffer: '' @ s @ [CHR 0x0A], ?u2, v4)"
    using assms(8) v1(1) w r s v4(1) by (simp add: vmm_test_main_def)
  ultimately show ?thesis using v4(2) buf by auto
qed

text \<open>A fresh pool of the default size for the witnesses.\<close>

definition demo_fresh :: vmm where
  "demo_fresh = \<lparr>bud = \<lparr>cells = [1 \<mapsto> demo_node 0 FREE DEFAULT_POOL_SIZE NULL NULL], buddy_head = 1,
     buddy_pool = (\<lambda>k. 0), pool_len = DEFAULT_POOL_SIZE, pools_live = 1\<rparr>,
     current_idx = 0, read_size = 0, registered = True\<rparr>"

lemma demo_fresh_ok: "vmm_inv demo_fresh" "pages (bud demo_fresh) = {}" "pool_len (bud demo_fresh) = DEFAULT_POOL_SIZE"
proof -
  have t: "buddy_tree (bud demo_fresh) TFree"
    by (simp add: buddy_tree_def demo_fresh_def demo_node_def DEFAULT_POOL_SIZE_def INT_MAX_def)
  then show "vmm_inv demo_fresh" "pages (bud demo_fresh) = {}"
    by (auto simp: vmm_inv_def buddy_inv_def pages_blocks)
       (simp_all add: demo_fresh_def in_int_def INT_MIN_def INT_MAX_def)
qed (simp add: demo_fresh_def)

lemma malloc_demo_100: "malloc_serves malloc_demo 100"
  using malloc_demo_tests by (simp add: serves_tests_def)

theorem vmm_test_readme_witness:
  "\<exists>u' v'. vmm_test_main malloc_demo 31 3 0 (\<lambda>a. Some 7) demo_fresh = Inr (0, ''buffer: lo buddy'' @ [CHR 0x0A], u', v') \<and>
     pages (bud v') = {} \<and> map (\<lambda>i. get_user u' (0 + of_nat i)) [0..<12] = hello_buffer 0 0"
proof -
  have "mapped (\<lambda>a. Some 7) 0 4096" "buddy_pool (bud demo_fresh) = (\<lambda>k. 0)" by (simp_all add: mapped_def demo_fresh_def)
  with vmm_test_readme [OF malloc_demo_ok malloc_demo_100 _ demo_fresh_ok, of 31 "\<lambda>a. Some 7" 0 3]
  show ?thesis by (simp del: upt_rec_numeral upt_Suc)
qed

section \<open>Loading and unloading the module\<close>

text \<open>Loading with a pool size in the range of \<open>int\<close> on an empty heap: when the device
  number is refused nothing changes; when the pool and its node are granted the device is registered with
  a pool that has no page; and when either allocation fails the load is refused with \<open>-ENOMEM\<close> while the device stays
  registered and a granted pool stays allocated.\<close>

theorem vmm_load:
  assumes "cells (bud v) = Map.empty" "0 \<le> sz" "sz \<le> INT_MAX"
  shows "\<exists>rt v'. vmm_init_mod am reg sz v = Inr (rt, v') \<and>
     (if reg < 0 then rt = reg \<and> v' = v
      else registered v' \<and>
        (if bm_pool am sz \<and> bm_node am (cells (bud v)) \<noteq> NULL
         then rt = 0 \<and> buddy_inv (bud v') \<and> pages (bud v') = {} \<and> pool_len (bud v') = sz
         else rt = - ENOMEM \<and>
           pools_live (bud v') = (if bm_pool am sz then Suc (pools_live (bud v)) else pools_live (bud v))))"
  using buddy_init_tree [OF assms(1-3), of am]
  by (cases "bm_pool am sz \<and> bm_node am (cells (bud v)) \<noteq> NULL") (auto simp: vmm_init_mod_def ENOMEM_def)

definition no_vmm :: vmm where
  "no_vmm = \<lparr>bud = no_buddy, current_idx = 0, read_size = 0, registered = False\<rparr>"

theorem vmm_load_witness:
  "\<exists>rt v'. vmm_init_mod (malloc_demo\<lparr>bm_node := (\<lambda>h. NULL)\<rparr>) 0 16 no_vmm = Inr (rt, v') \<and>
     registered v' \<and> rt = -12 \<and> pools_live (bud v') = 1"
  using vmm_load [of no_vmm 16 "malloc_demo\<lparr>bm_node := (\<lambda>h. NULL)\<rparr>" 0]
  by (auto simp: no_vmm_def no_buddy_def INT_MAX_def malloc_demo_def ENOMEM_def)

text \<open>Unloading after any sequence of ioctl calls frees every tree node, unregisters the
  device and returns, but the number of pools still allocated is what it was before.\<close>

theorem vmm_unload:
  assumes "vmm_reach am d v0 v" "malloc_ok am" "31 \<le> d" "vmm_inv v0"
  shows "\<exists>v'. vmm_exit_mod d v = Inr v' \<and> cells (bud v') = Map.empty \<and> \<not> registered v' \<and>
     pools_live (bud v') = pools_live (bud v)"
proof -
  have "vmm_inv v" by (rule vmm_reach_inv [OF assms])
  then obtain t where "buddy_tree (bud v) t" by (auto simp: vmm_inv_def buddy_inv_def)
  from buddy_kill_tree [OF this assms(3)] show ?thesis by (auto simp: vmm_exit_mod_def)
qed

theorem vmm_unload_witness:
  "\<exists>v'. vmm_exit_mod 31 demo_vmm = Inr v' \<and> cells (bud v') = Map.empty \<and> \<not> registered v' \<and>
     pools_live (bud v') = pools_live (bud demo_vmm)"
  by (rule vmm_unload [OF vmm_reach.start malloc_demo_ok _ demo_vmm_inv]) simp

end
