(* ===== verification/Loopback.thy ===== *)
theory Loopback
  imports Prelude
begin

text \<open>
  The loopback network driver, \<open>hw4_loopback/loopback.c\<close>: two devices, the Ethernet header the
  driver builds, the transmit handler that hands every packet to the other device, and
  module load and unload. Packets are byte lists; the kernel services the driver calls
  (\<open>ip_fast_csum\<close>, \<open>dev_alloc_skb\<close>, \<open>eth_type_trans\<close>, \<open>alloc_etherdev\<close>, \<open>register_netdev\<close>) are fields
  of a parameter. The properties are at the end.
\<close>

unbundle bit_operations_syntax

section \<open>State\<close>

definition ETH_HLEN :: nat where "ETH_HLEN = 14"
definition ETH_ALEN :: nat where "ETH_ALEN = 6"
definition ETH_ZLEN :: nat where "ETH_ZLEN = 60"
definition LO_ENOMEM :: int where "LO_ENOMEM = 12"
definition NETDEV_TX_OK :: int where "NETDEV_TX_OK = 0"

text \<open>The fields of \<open>struct net_device\<close> the driver uses, and the private area: the counters of \<open>stats\<close> and the back
  pointer.\<close>

record net_device =
  dev_addr :: "byte list"
  broadcast :: "byte list"
  dev_name :: "byte list"
  addr_len :: nat
  hard_header_len :: int
  noarp :: bool
  has_ops :: bool
  queue_on :: bool
  trans_start :: nat
  priv_stats :: "nat list"
  priv_dev :: ptr
  netdev_up :: bool

record sk_buff =
  headroom :: "byte list"
  skb_data :: "byte list"

text \<open>What \<open>netif_rx\<close> is given.\<close>

record rx_packet =
  rx_dev :: ptr
  rx_data :: "byte list"
  rx_protocol :: "16 word"
  rx_sum_unnecessary :: bool

record loopback =
  os0 :: ptr
  os1 :: ptr
  devs :: "ptr \<Rightarrow> net_device option"
  received :: "rx_packet list"

text \<open>
  The kernel: \<open>ip_fast_csum\<close> of the header bytes it is given (as the two bytes stored in
  memory), whether \<open>dev_alloc_skb\<close> of a size succeeds, \<open>eth_type_trans\<close>, and the time.
\<close>

record kernel =
  ip_fast_csum :: "byte list \<Rightarrow> byte \<times> byte"
  dev_alloc_skb :: "nat \<Rightarrow> bool"
  eth_type_trans :: "byte list \<Rightarrow> ptr \<Rightarrow> 16 word"
  jiffies :: nat

definition dev_at :: "loopback \<Rightarrow> ptr \<Rightarrow> fault + net_device" where
  "dev_at s p = (if p = NULL then Inl NullDeref
                 else case devs s p of None \<Rightarrow> Inl BadDeref | Some d \<Rightarrow> Inr d)"

definition dev_set :: "loopback \<Rightarrow> ptr \<Rightarrow> (net_device \<Rightarrow> net_device) \<Rightarrow> fault + loopback" where
  "dev_set s p f = bindE (dev_at s p) (\<lambda>d. Inr (s\<lparr>devs := (devs s)(p \<mapsto> f d)\<rparr>))"

section \<open>The callbacks\<close>

definition os_open :: "ptr \<Rightarrow> loopback \<Rightarrow> fault + (int \<times> loopback)" where
  "os_open dev s = bindE (dev_set s dev (queue_on_update (\<lambda>_. True))) (\<lambda>s. Inr (0, s))"

definition os_stop :: "ptr \<Rightarrow> loopback \<Rightarrow> fault + (int \<times> loopback)" where
  "os_stop dev s = bindE (dev_set s dev (queue_on_update (\<lambda>_. False))) (\<lambda>s. Inr (0, s))"

text \<open>\<open>skb_push\<close> panics when the headroom is too small.\<close>

definition skb_push :: "nat \<Rightarrow> sk_buff \<Rightarrow> fault + sk_buff" where
  "skb_push n skb =
     (let k = length (headroom skb) in
      if k < n then Inl Overrun
      else Inr \<lparr>headroom = take (k - n) (headroom skb), skb_data = drop (k - n) (headroom skb) @ skb_data skb\<rparr>)"

text \<open>\<open>memcpy\<close> into a buffer at an offset, and \<open>htons\<close>: the two bytes of a short, high byte first.\<close>

definition copy_at :: "byte list \<Rightarrow> nat \<Rightarrow> byte list \<Rightarrow> byte list" where
  "copy_at xs i ys = take i xs @ ys @ drop (i + length ys) xs"

definition htons :: "16 word \<Rightarrow> byte list" where
  "htons w = [ucast (drop_bit 8 w), ucast w]"

definition os_create_header ::
  "sk_buff \<Rightarrow> ptr \<Rightarrow> 16 word \<Rightarrow> loopback \<Rightarrow> fault + (int \<times> sk_buff)" where
  "os_create_header skb dev type s =
     bindE (skb_push ETH_HLEN skb) (\<lambda>skb.
     bindE (dev_at s dev) (\<lambda>d.
     let eth = skb_data skb;
         eth = copy_at eth 12 (htons type);
         eth = copy_at eth 6 (take (addr_len d) (dev_addr d));
         eth = copy_at eth 0 (take (addr_len d) (drop 6 eth));
         eth = eth[ETH_ALEN - 1 := if eth ! (ETH_ALEN - 1) = 5 then 6 else 5]
     in Inr (hard_header_len d, skb\<lparr>skb_data := eth\<rparr>)))"

text \<open>The buffer the transmit handler works on: the packet, or a copy padded to the minimum length.\<close>

definition padded :: "byte list \<Rightarrow> byte list" where
  "padded xs = (if length xs < ETH_ZLEN then xs @ replicate (ETH_ZLEN - length xs) 0 else xs)"

definition flip :: "nat \<Rightarrow> byte list \<Rightarrow> byte list" where
  "flip i xs = xs[i := xs ! i XOR 1]"

definition store2 :: "nat \<Rightarrow> byte \<times> byte \<Rightarrow> byte list \<Rightarrow> byte list" where
  "store2 i c xs = xs[i := fst c, i + 1 := snd c]"

text \<open>
  The IP header starts behind the Ethernet header (offset 14): header length in the low half of
  its byte 0, checksum at bytes 10 and 11, source address at 12, destination at 16.
\<close>

definition ihl :: "byte list \<Rightarrow> nat" where
  "ihl xs = unat (xs ! 14 AND 15)"

definition ip_header :: "byte list \<Rightarrow> byte list" where
  "ip_header xs = take (4 * ihl xs) (drop 14 xs)"

definition switch_network :: "kernel \<Rightarrow> byte list \<Rightarrow> fault + byte list" where
  "switch_network k xs =
     (let xs = flip 28 xs; xs = flip 32 xs; xs = store2 24 (0, 0) xs
      in if length xs < 14 + 4 * ihl xs then Inl Overrun
         else Inr (store2 24 (ip_fast_csum k (ip_header xs)) xs))"

text \<open>
  The transmit handler. Its result is the return value, the transmit buffer (\<open>None\<close> when it
  was freed; a packet of the minimum length or more is rewritten in place) and the state.
\<close>

definition os_start_xmit ::
  "kernel \<Rightarrow> sk_buff \<Rightarrow> ptr \<Rightarrow> loopback \<Rightarrow> fault + (int \<times> sk_buff option \<times> loopback)" where
  "os_start_xmit k skb dev s =
     bindE (dev_set s dev (trans_start_update (\<lambda>_. jiffies k))) (\<lambda>s.
     bindE (switch_network k (padded (skb_data skb))) (\<lambda>data.
     let skb = (if length (skb_data skb) < ETH_ZLEN then skb else skb\<lparr>skb_data := data\<rparr>) in
     if \<not> dev_alloc_skb k (length data + 2) then Inr (0, Some skb, s)
     else
       let dest = (if dev = os0 s then os1 s else os0 s);
           new_skb = \<lparr>rx_dev = dest, rx_data = data, rx_protocol = eth_type_trans k data dest,
                      rx_sum_unnecessary = True\<rparr>
       in Inr (NETDEV_TX_OK, None, s\<lparr>received := received s @ [new_skb]\<rparr>)))"

text \<open>\<open>os_stats\<close> hands out the private area's counters, and \<open>os_device_ops\<close> is the table the network core calls the driver through.\<close>

definition os_stats :: "ptr \<Rightarrow> loopback \<Rightarrow> fault + nat list" where
  "os_stats dev s = bindE (dev_at s dev) (\<lambda>d. Inr (priv_stats d))"

datatype device_op = Ndo_open | Ndo_stop | Ndo_get_stats | Ndo_start_xmit kernel sk_buff

datatype device_reply = Status int | Stats "nat list" | Sent int "sk_buff option"

primrec os_device_ops :: "device_op \<Rightarrow> ptr \<Rightarrow> loopback \<Rightarrow> fault + (device_reply \<times> loopback)" where
  "os_device_ops Ndo_open dev s = bindE (os_open dev s) (\<lambda>(r, s). Inr (Status r, s))"
| "os_device_ops Ndo_stop dev s = bindE (os_stop dev s) (\<lambda>(r, s). Inr (Status r, s))"
| "os_device_ops Ndo_get_stats dev s = bindE (os_stats dev s) (\<lambda>st. Inr (Stats st, s))"
| "os_device_ops (Ndo_start_xmit k skb) dev s = bindE (os_start_xmit k skb dev s) (\<lambda>(r, skb, s). Inr (Sent r skb, s))"

section \<open>Module load and unload\<close>

text \<open>
  Parameters of the load: the two results of \<open>alloc_etherdev\<close> with what the new devices hold,
  the two results of \<open>register_netdev\<close>, and the bytes behind the literals \<open>"os0"\<close> and
  \<open>"os1"\<close> that \<open>memcpy\<close> of 10 bytes also reads.
\<close>

record load_env =
  etherdev0 :: ptr
  etherdev1 :: ptr
  fresh_dev :: net_device
  reg0 :: int
  reg1 :: int
  behind0 :: "byte list"
  behind1 :: "byte list"

definition add_dev :: "ptr \<Rightarrow> net_device \<Rightarrow> loopback \<Rightarrow> loopback" where
  "add_dev p d s = (if p = NULL then s else s\<lparr>devs := (devs s)(p \<mapsto> d)\<rparr>)"

definition setup_dev :: "byte \<Rightarrow> byte list \<Rightarrow> ptr \<Rightarrow> net_device \<Rightarrow> net_device" where
  "setup_dev mac5 nm self d = d\<lparr>
     dev_addr := [0, 1, 2, 3, 4, mac5], broadcast := replicate 6 255,
     dev_name := copy_at (dev_name d) 0 (take 10 nm),
     has_ops := True, hard_header_len := 14, noarp := True, priv_stats := map (\<lambda>_. 0) (priv_stats d), priv_dev := self\<rparr>"

definition os_init_mod :: "load_env \<Rightarrow> loopback \<Rightarrow> fault + (int \<times> loopback)" where
  "os_init_mod e s =
     (let s = add_dev (etherdev0 e) (fresh_dev e) (s\<lparr>os0 := etherdev0 e\<rparr>);
          s = add_dev (etherdev1 e) (fresh_dev e) (s\<lparr>os1 := etherdev1 e\<rparr>) in
      if os0 s = NULL \<or> os1 s = NULL then Inr (- LO_ENOMEM, s)
      else
        bindE (dev_set s (os0 s) (setup_dev 5 ([111, 115, 48, 0] @ behind0 e) (os0 s))) (\<lambda>s.
        bindE (dev_set s (os1 s) (setup_dev 6 ([111, 115, 49, 0] @ behind1 e) (os1 s))) (\<lambda>s.
        bindE (if reg0 e = 0 then dev_set s (os0 s) (netdev_up_update (\<lambda>_. True)) else Inr s) (\<lambda>s.
        bindE (if reg0 e = 0 \<and> reg1 e = 0 then dev_set s (os1 s) (netdev_up_update (\<lambda>_. True)) else Inr s) (\<lambda>s.
        Inr (0, s))))))"

definition os_exit_mod :: "loopback \<Rightarrow> fault + loopback" where
  "os_exit_mod s =
     bindE (if os0 s \<noteq> NULL then dev_set s (os0 s) (netdev_up_update (\<lambda>_. False)) else Inr s) (\<lambda>s.
     if os1 s \<noteq> NULL then dev_set s (os1 s) (netdev_up_update (\<lambda>_. False)) else Inr s)"

end
