(* ===== verification/Loopback_Props.thy ===== *)
theory Loopback_Props
  imports Loopback
begin

text \<open>
  Properties of \<open>hw4_loopback/loopback.c\<close>: what the transmit handler delivers, the two
  crossings of a packet there and back, the checksum, the Ethernet header, load and unload.
\<close>

section \<open>Rewriting the packet\<close>

lemma length_padded: "length (padded xs) = max ETH_ZLEN (length xs)"
  by (simp add: padded_def max_def)

lemma padded_min [simp]: "60 \<le> length (padded xs)"
  by (simp add: length_padded ETH_ZLEN_def)

lemma padded_nth:
  "i < length (padded xs) \<Longrightarrow> padded xs ! i = (if i < length xs then xs ! i else 0)"
  by (auto simp: padded_def nth_append)

lemma padded_long: "60 \<le> length xs \<Longrightarrow> padded xs = xs"
  by (simp add: padded_def ETH_ZLEN_def)

text \<open>The packet with the two octets toggled and the checksum zeroed, and with a checksum.\<close>

definition crossed :: "byte list \<Rightarrow> byte list" where
  "crossed xs = store2 24 (0, 0) (flip 32 (flip 28 xs))"

lemma crossed_length [simp]: "length (crossed xs) = length xs" "length (store2 i c xs) = length xs"
  by (simp_all add: crossed_def store2_def flip_def)

lemma crossed_nth:
  "60 \<le> length xs \<Longrightarrow> crossed xs ! i =
     (if i = 24 \<or> i = 25 then 0 else if i = 28 \<or> i = 32 then xs ! i XOR 1 else xs ! i)"
  by (auto simp: crossed_def store2_def flip_def nth_list_update)

lemma store2_nth: "i + 1 < length xs \<Longrightarrow> store2 i c xs ! j = (if j = i then fst c else if j = i + 1 then snd c else xs ! j)"
  by (auto simp: store2_def nth_list_update)

lemma store2_24_nth:
  "60 \<le> length xs \<Longrightarrow> store2 24 c xs ! j = (if j = 24 then fst c else if j = 25 then snd c else xs ! j)"
  by (simp add: store2_nth)

lemma ihl_crossed [simp]: "60 \<le> length xs \<Longrightarrow> ihl (crossed xs) = ihl xs"
  by (simp add: ihl_def crossed_nth)

lemma ihl_store2 [simp]: "60 \<le> length xs \<Longrightarrow> ihl (store2 24 c xs) = ihl xs"
  by (simp add: ihl_def store2_nth)

lemma switch_network_eq:
  "60 \<le> length xs \<Longrightarrow> switch_network k xs =
     (if length xs < 14 + 4 * ihl xs then Inl Overrun
      else Inr (store2 24 (ip_fast_csum k (ip_header (crossed xs))) (crossed xs)))"
  unfolding switch_network_def Let_def crossed_def [symmetric] by simp

lemma xor_one_twice: "(x XOR 1) XOR 1 = (x :: byte)"
  by (simp add: xor.assoc)

text \<open>Crossing twice toggles both octets back.\<close>

lemma crossed_twice:
  assumes "60 \<le> length xs"
  shows "crossed (store2 24 c (crossed xs)) = store2 24 (0, 0) xs"
proof (rule nth_equalityI)
  fix i assume "i < length (crossed (store2 24 c (crossed xs)))"
  then show "crossed (store2 24 c (crossed xs)) ! i = store2 24 (0, 0) xs ! i"
    using assms by (auto simp: crossed_nth store2_nth xor_one_twice)
qed simp

lemma store2_twice: "60 \<le> length xs \<Longrightarrow> store2 24 c (store2 24 c' xs) = store2 24 c xs"
  by (rule nth_equalityI) (auto simp: store2_24_nth)

section \<open>Transmitting\<close>

definition is_dev :: "loopback \<Rightarrow> ptr \<Rightarrow> bool" where
  "is_dev s p \<longleftrightarrow> p \<noteq> NULL \<and> devs s p \<noteq> None"

definition other :: "loopback \<Rightarrow> ptr \<Rightarrow> ptr" where
  "other s dev = (if dev = os0 s then os1 s else os0 s)"

lemma dev_at_ok: "is_dev s p \<Longrightarrow> dev_at s p = Inr (the (devs s p))"
  by (auto simp: is_dev_def dev_at_def)

lemma dev_set_ok: "is_dev s p \<Longrightarrow> dev_set s p f = Inr (s\<lparr>devs := (devs s)(p \<mapsto> f (the (devs s p)))\<rparr>)"
  by (simp add: dev_set_def dev_at_ok)

lemma xmit_eq:
  assumes "is_dev s dev"
  shows "os_start_xmit k skb dev s =
    (let xs = padded (skb_data skb);
         ys = store2 24 (ip_fast_csum k (ip_header (crossed xs))) (crossed xs);
         s1 = s\<lparr>devs := (devs s)(dev \<mapsto> the (devs s dev)\<lparr>trans_start := jiffies k\<rparr>)\<rparr> in
     if length xs < 14 + 4 * ihl xs then Inl Overrun
     else if \<not> dev_alloc_skb k (length xs + 2)
     then Inr (0, Some (if length (skb_data skb) < 60 then skb else skb\<lparr>skb_data := ys\<rparr>), s1)
     else Inr (0, None, s1\<lparr>received := received s @ [\<lparr>rx_dev = other s dev, rx_data = ys,
       rx_protocol = eth_type_trans k ys (other s dev), rx_sum_unnecessary = True\<rparr>]\<rparr>))"
  by (simp add: os_start_xmit_def dev_set_ok [OF assms] switch_network_eq Let_def other_def
      NETDEV_TX_OK_def ETH_ZLEN_def)

definition demo_dev :: "byte \<Rightarrow> ptr \<Rightarrow> net_device" where
  "demo_dev c p = \<lparr>dev_addr = [0, 1, 2, 3, 4, c], broadcast = replicate 6 255, dev_name = [111, 115, 48, 0],
     addr_len = 6, hard_header_len = 14, noarp = True, has_ops = True, queue_on = True,
     trans_start = 0, priv_stats = [0, 0], priv_dev = p, netdev_up = True\<rparr>"

definition demo_net :: loopback where
  "demo_net = \<lparr>os0 = 1, os1 = 2, devs = [1 \<mapsto> demo_dev 5 1, 2 \<mapsto> demo_dev 6 2], received = []\<rparr>"

lemma demo_net_devs: "is_dev demo_net 1" "is_dev demo_net 2" "os0 demo_net = 1" "os1 demo_net = 2"
  "other demo_net 1 = 2" "other demo_net (Suc 0) = 2" "other demo_net 2 = 1"
  "is_dev demo_net (Suc 0)"
  by (simp_all add: is_dev_def demo_net_def other_def)

text \<open>The internet checksum of a header: 16-bit words in network order, summed in one's complement.\<close>

fun sum16 :: "byte list \<Rightarrow> nat" where
  "sum16 (a # b # xs) = 256 * unat a + unat b + sum16 xs"
| "sum16 [a] = 256 * unat a"
| "sum16 [] = 0"

definition rfc1071 :: "byte list \<Rightarrow> byte \<times> byte" where
  "rfc1071 h = (let c = 65535 - sum16 h mod 65535 in (of_nat (c div 256), of_nat (c mod 256)))"

definition demo_kernel :: kernel where
  "demo_kernel = \<lparr>ip_fast_csum = rfc1071, dev_alloc_skb = (\<lambda>n. n < 2000), eth_type_trans = (\<lambda>f p. 0x0800),
     jiffies = 42\<rparr>"

text \<open>A packet of 34 bytes: the addresses of os1 and os0, IPv4, 10.0.0.1 to 10.0.0.2.\<close>

definition demo_packet :: "byte list" where
  "demo_packet = [0, 1, 2, 3, 4, 6, 0, 1, 2, 3, 4, 5, 8, 0,
     0x45, 0, 0, 20, 0, 0, 0, 0, 64, 1, 0x66, 0xE7, 10, 0, 0, 1, 10, 0, 0, 2]"

definition demo_skb :: sk_buff where
  "demo_skb = \<lparr>headroom = [], skb_data = demo_packet\<rparr>"

lemma demo_ihl [simp]: "ihl (padded (skb_data demo_skb)) = 5"
  by code_simp

lemma demo_packet_fits: "14 + 4 * ihl (padded (skb_data demo_skb)) \<le> length (padded (skb_data demo_skb))"
  "dev_alloc_skb demo_kernel (length (padded (skb_data demo_skb)) + 2)"
  "dev_alloc_skb demo_kernel (Suc (Suc (length (padded (skb_data demo_skb)))))"
  unfolding demo_ihl
  by (simp_all add: demo_kernel_def demo_skb_def length_padded demo_packet_def ETH_ZLEN_def)

lemma demo_kernel_csum: "ip_fast_csum demo_kernel = rfc1071"
  by (simp add: demo_kernel_def)

text \<open>C11: A transmitted packet whose IP header length field stays inside it is, when the receive
  buffer is granted, delivered exactly once, to the other device: padded with zeros to 60 bytes, the
  third octet of both IP addresses toggled, a checksum computed over the header with a zero checksum
  field, and every other byte unchanged; the transmit buffer is freed. When the buffer is refused
  nothing is delivered, 0 (\<open>NETDEV_TX_OK\<close>) is returned and the transmit buffer is not freed.\<close>

theorem lo_xmit:
  assumes "is_dev s dev" "14 + 4 * ihl (padded (skb_data skb)) \<le> length (padded (skb_data skb))"
  shows "\<exists>skb' s'. os_start_xmit k skb dev s = Inr (0, skb', s') \<and> os0 s' = os0 s \<and> os1 s' = os1 s \<and>
    (if dev_alloc_skb k (length (padded (skb_data skb)) + 2)
     then skb' = None \<and> (\<exists>p. received s' = received s @ [p] \<and> rx_dev p = other s dev \<and>
       length (rx_data p) = max 60 (length (skb_data skb)) \<and>
       (\<forall>i < length (rx_data p). i \<notin> {24, 25, 28, 32} \<longrightarrow>
          rx_data p ! i = (if i < length (skb_data skb) then skb_data skb ! i else 0)) \<and>
       rx_data p ! 28 = padded (skb_data skb) ! 28 XOR 1 \<and> rx_data p ! 32 = padded (skb_data skb) ! 32 XOR 1 \<and>
       (rx_data p ! 24, rx_data p ! 25) = ip_fast_csum k (ip_header (store2 24 (0, 0) (rx_data p))))
     else skb' \<noteq> None \<and> received s' = received s)"
proof (cases "dev_alloc_skb k (length (padded (skb_data skb)) + 2)")
  case False
  then show ?thesis using assms(2) by (simp add: xmit_eq [OF assms(1)] Let_def)
next
  case True
  define xs where "xs = padded (skb_data skb)"
  define c where "c = ip_fast_csum k (ip_header (crossed xs))"
  have len: "60 \<le> length xs" "length xs = max 60 (length (skb_data skb))"
    by (simp_all add: xs_def length_padded ETH_ZLEN_def)
  have run: "os_start_xmit k skb dev s = Inr (0, None, s\<lparr>devs := (devs s)(dev \<mapsto> the (devs s dev)\<lparr>trans_start := jiffies k\<rparr>),
      received := received s @ [\<lparr>rx_dev = other s dev, rx_data = store2 24 c (crossed xs),
        rx_protocol = eth_type_trans k (store2 24 c (crossed xs)) (other s dev), rx_sum_unnecessary = True\<rparr>]\<rparr>)"
    using True assms(2) unfolding xmit_eq [OF assms(1)] xs_def [symmetric] c_def by (simp add: Let_def)
  have "store2 24 (0, 0) (store2 24 c (crossed xs)) = crossed xs"
    by (rule nth_equalityI) (use len(1) in \<open>auto simp: store2_24_nth crossed_nth\<close>)
  moreover have "xs ! i = (if i < length (skb_data skb) then skb_data skb ! i else 0)" if "i < length xs" for i
    using that by (simp add: xs_def padded_nth)
  ultimately show ?thesis
    using True len by (simp add: run xs_def [symmetric] store2_24_nth crossed_nth c_def)
qed

theorem lo_xmit_witness:
  "\<exists>s' p. os_start_xmit demo_kernel demo_skb 1 demo_net = Inr (0, None, s') \<and>
     received s' = received demo_net @ [p] \<and> rx_dev p = 2 \<and> length (rx_data p) = 60 \<and> rx_data p ! 28 = 1"
  using lo_xmit [OF demo_net_devs(1), of demo_skb demo_kernel]
  by (auto simp: demo_net_devs) (auto simp: demo_net_devs demo_kernel_def demo_skb_def demo_packet_def padded_nth length_padded ETH_ZLEN_def)

text \<open>The delivered packet, when it is delivered.\<close>

definition crossing :: "kernel \<Rightarrow> byte list \<Rightarrow> byte list" where
  "crossing k xs = store2 24 (ip_fast_csum k (ip_header (crossed xs))) (crossed xs)"

lemma crossing_length [simp]: "length (crossing k xs) = length xs"
  by (simp add: crossing_def)

lemma ihl_crossing [simp]: "60 \<le> length xs \<Longrightarrow> ihl (crossing k xs) = ihl xs"
  by (simp add: crossing_def)

lemma xmit_delivers:
  assumes "is_dev s dev" "14 + 4 * ihl (padded (skb_data skb)) \<le> length (padded (skb_data skb))"
    and "dev_alloc_skb k (length (padded (skb_data skb)) + 2)"
  shows "\<exists>s'. os_start_xmit k skb dev s = Inr (0, None, s') \<and> os0 s' = os0 s \<and> os1 s' = os1 s \<and>
     (\<forall>p. is_dev s' p \<longleftrightarrow> is_dev s p) \<and>
     received s' = received s @ [\<lparr>rx_dev = other s dev, rx_data = crossing k (padded (skb_data skb)),
       rx_protocol = eth_type_trans k (crossing k (padded (skb_data skb))) (other s dev), rx_sum_unnecessary = True\<rparr>]"
  using assms(2,3) unfolding xmit_eq [OF assms(1)] crossing_def [symmetric]
  by (simp add: Let_def is_dev_def) (use assms(1) in \<open>auto simp: is_dev_def\<close>)

text \<open>C12: A packet that crosses and is sent back by the device that received it arrives at the
  device that sent it first, byte for byte the original padded packet with its checksum recomputed:
  crossing the networks twice is the identity when the checksum was right.\<close>

theorem lo_there_and_back:
  assumes "is_dev s (os0 s)" "is_dev s (os1 s)" "os0 s \<noteq> os1 s" "dev = os0 s \<or> dev = os1 s"
    and "xs = padded (skb_data skb)" "14 + 4 * ihl xs \<le> length xs" "dev_alloc_skb k (length xs + 2)"
  shows "\<exists>s1 s2 p q. os_start_xmit k skb dev s = Inr (0, None, s1) \<and> received s1 = received s @ [p] \<and>
     os_start_xmit k \<lparr>headroom = h, skb_data = rx_data p\<rparr> (rx_dev p) s1 = Inr (0, None, s2) \<and>
     received s2 = received s1 @ [q] \<and> rx_dev q = dev \<and>
     rx_data q = store2 24 (ip_fast_csum k (ip_header (store2 24 (0, 0) xs))) xs"
proof -
  have dev: "is_dev s dev" "is_dev s (other s dev)" using assms(1,2,4) by (auto simp: other_def)
  have len: "60 \<le> length xs" by (simp add: assms(5))
  obtain s1 where s1: "os_start_xmit k skb dev s = Inr (0, None, s1)" "os0 s1 = os0 s" "os1 s1 = os1 s"
    "\<forall>p. is_dev s1 p \<longleftrightarrow> is_dev s p"
    "received s1 = received s @ [\<lparr>rx_dev = other s dev, rx_data = crossing k xs,
       rx_protocol = eth_type_trans k (crossing k xs) (other s dev), rx_sum_unnecessary = True\<rparr>]"
    using xmit_delivers [OF dev(1), of skb k] assms(5-7) by auto
  let ?skb = "\<lparr>headroom = h, skb_data = crossing k xs\<rparr>"
  have pad: "padded (skb_data ?skb) = crossing k xs" using len by (simp add: padded_long)
  have other: "other s1 (other s dev) = dev" using s1(2,3) assms(3,4) by (auto simp: other_def)
  have "is_dev s1 (other s dev)" using s1(4) dev(2) by simp
  from xmit_delivers [OF this, of ?skb k, unfolded pad other] len assms(6,7)
  obtain s2 where s2: "os_start_xmit k ?skb (other s dev) s1 = Inr (0, None, s2)"
    "received s2 = received s1 @ [\<lparr>rx_dev = dev, rx_data = crossing k (crossing k xs),
       rx_protocol = eth_type_trans k (crossing k (crossing k xs)) dev, rx_sum_unnecessary = True\<rparr>]"
    by auto
  have "crossing k (crossing k xs) = store2 24 (ip_fast_csum k (ip_header (store2 24 (0, 0) xs))) xs"
    unfolding crossing_def crossed_twice [OF len] using len by (simp add: store2_twice)
  with s1(1,5) s2 show ?thesis by simp
qed

theorem lo_there_and_back_witness:
  "\<exists>s1 s2 p q. os_start_xmit demo_kernel demo_skb 1 demo_net = Inr (0, None, s1) \<and> received s1 = received demo_net @ [p] \<and>
     os_start_xmit demo_kernel \<lparr>headroom = [], skb_data = rx_data p\<rparr> (rx_dev p) s1 = Inr (0, None, s2) \<and>
     received s2 = received s1 @ [q] \<and> rx_dev q = 1 \<and> rx_data q = padded demo_packet"
proof -
  let ?xs = "padded (skb_data demo_skb)"
  have "ip_header (store2 24 (0, 0) ?xs) = [0x45, 0, 0, 20, 0, 0, 0, 0, 64, 1, 0, 0, 10, 0, 0, 1, 10, 0, 0, 2]"
    by (simp add: demo_skb_def ip_header_def ihl_def store2_def padded_def demo_packet_def ETH_ZLEN_def)
  moreover have "rfc1071 [0x45, 0, 0, 20, 0, 0, 0, 0, 64, 1, 0, 0, 10, 0, 0, 1, 10, 0, 0, 2] = (0x66, 0xE7)"
    by (simp add: rfc1071_def Let_def)
  moreover have "store2 24 (0x66, 0xE7) ?xs = padded demo_packet"
    by (simp add: demo_skb_def store2_def padded_def demo_packet_def ETH_ZLEN_def)
  ultimately have ok: "14 + 4 * ihl ?xs \<le> length ?xs" "dev_alloc_skb demo_kernel (length ?xs + 2)"
    "store2 24 (ip_fast_csum demo_kernel (ip_header (store2 24 (0, 0) ?xs))) ?xs = padded demo_packet"
    using demo_packet_fits(1,2) by (simp_all only: demo_kernel_csum)
  from lo_there_and_back [OF _ _ _ _ refl ok(1,2), of demo_net 1 "[]", unfolded ok(3)] show ?thesis
    by (simp add: demo_net_devs)
qed

section \<open>The checksum\<close>

lemma sum16_append: "even (length xs) \<Longrightarrow> sum16 (xs @ ys) = sum16 xs + sum16 ys"
  by (induction xs rule: sum16.induct) auto

text \<open>The documented behaviour of \<open>ip_fast_csum\<close>: storing its result in the zeroed checksum field makes the
  header's one's complement sum zero.\<close>

definition csum_ok :: "kernel \<Rightarrow> bool" where
  "csum_ok k \<longleftrightarrow> (\<forall>h. 20 \<le> length h \<longrightarrow> 4 dvd length h \<longrightarrow> h ! 10 = 0 \<longrightarrow> h ! 11 = 0 \<longrightarrow>
     sum16 (store2 10 (ip_fast_csum k h) h) mod 65535 = 0)"

lemma sum16_store:
  assumes "12 \<le> length h" "h ! 10 = 0" "h ! 11 = 0"
  shows "sum16 (store2 10 c h) = sum16 h + 256 * unat (fst c) + unat (snd c)"
proof -
  have h: "h = take 10 h @ 0 # 0 # drop 12 h"
    using assms id_take_nth_drop [of 10 h] Cons_nth_drop_Suc [of 11 h] by simp
  have "store2 10 c h = take 10 h @ fst c # snd c # drop 12 h"
    by (subst h) (use assms(1) in \<open>simp add: store2_def list_update_append\<close>)
  moreover have "even (length (take 10 h))" using assms(1) by simp
  ultimately show ?thesis by (subst (2) h) (simp add: sum16_append)
qed

lemma rfc1071_ok: "csum_ok demo_kernel"
proof -
  have "sum16 (store2 10 (rfc1071 h) h) mod 65535 = 0" if "20 \<le> length h" "h ! 10 = 0" "h ! 11 = 0" for h
  proof -
    define c where "c = 65535 - sum16 h mod 65535"
    have "sum16 h mod 65535 < 65535" by simp
    then have c: "c div 256 < 256" "c mod 256 < 256" "c + sum16 h mod 65535 = 65535" by (auto simp: c_def)
    have "sum16 (store2 10 (rfc1071 h) h) = sum16 h + c"
      using sum16_store [of h "rfc1071 h"] that c(1,2)
      by (simp add: rfc1071_def c_def [symmetric] unsigned_of_nat take_bit_nat_eq_self)
    then show ?thesis using c(3) by (metis add.commute mod_add_left_eq mod_add_right_eq mod_self)
  qed
  then show ?thesis by (simp add: csum_ok_def demo_kernel_def)
qed

lemma ip_header_store2:
  assumes "60 \<le> length xs" "5 \<le> ihl xs" "14 + 4 * ihl xs \<le> length xs"
  shows "ip_header (store2 24 c xs) = store2 10 c (ip_header xs)"
proof (rule nth_equalityI)
  show "length (ip_header (store2 24 c xs)) = length (store2 10 c (ip_header xs))"
    using assms by (simp add: ip_header_def)
next
  fix i assume "i < length (ip_header (store2 24 c xs))"
  then have "i < 4 * ihl xs" using assms by (simp add: ip_header_def)
  then show "ip_header (store2 24 c xs) ! i = store2 10 c (ip_header xs) ! i"
    using assms by (auto simp: ip_header_def store2_24_nth store2_nth)
qed

text \<open>When the IP header of a transmitted packet has at least five words and ends inside the
  packet, the header of the delivered packet verifies: its 16-bit words sum to zero in one's
  complement arithmetic, although two octets changed.\<close>

theorem lo_checksum_verifies:
  assumes "csum_ok k" "is_dev s dev" "xs = padded (skb_data skb)" "14 + 4 * ihl xs \<le> length xs" "5 \<le> ihl xs"
    and "dev_alloc_skb k (length xs + 2)"
  shows "\<exists>s' p. os_start_xmit k skb dev s = Inr (0, None, s') \<and> received s' = received s @ [p] \<and>
     sum16 (ip_header (rx_data p)) mod 65535 = 0"
proof -
  have len: "60 \<le> length xs" by (simp add: assms(3))
  let ?h = "ip_header (crossed xs)"
  have "ip_header (crossing k xs) = store2 10 (ip_fast_csum k ?h) ?h"
    unfolding crossing_def using len assms(4,5) by (intro ip_header_store2) auto
  moreover have "length ?h = 4 * ihl xs" using len assms(4) by (simp add: ip_header_def)
  moreover have "?h ! 10 = 0" "?h ! 11 = 0" using len assms(4,5) by (simp_all add: ip_header_def crossed_nth)
  ultimately have "sum16 (ip_header (crossing k xs)) mod 65535 = 0"
    using assms(1,5) by (simp add: csum_ok_def)
  with xmit_delivers [OF assms(2), of skb k] assms(3,4,6) show ?thesis by auto
qed

theorem lo_checksum_verifies_witness:
  "\<exists>s' p. os_start_xmit demo_kernel demo_skb 2 demo_net = Inr (0, None, s') \<and>
     received s' = received demo_net @ [p] \<and> sum16 (ip_header (rx_data p)) mod 65535 = 0"
  by (rule lo_checksum_verifies [OF rfc1071_ok demo_net_devs(2) refl demo_packet_fits(1) _ demo_packet_fits(2)]) simp

section \<open>Loading, headers, unloading\<close>

text \<open>What \<open>alloc_etherdev\<close> promises: two new device structures, set up for Ethernet addresses.\<close>

definition etherdevs_ok :: "load_env \<Rightarrow> loopback \<Rightarrow> bool" where
  "etherdevs_ok e s \<longleftrightarrow> (etherdev0 e = NULL \<or> etherdev0 e \<noteq> etherdev1 e) \<and> addr_len (fresh_dev e) = 6 \<and>
     devs s (etherdev0 e) = None \<and> devs s (etherdev1 e) = None"

definition loaded :: "load_env \<Rightarrow> loopback \<Rightarrow> bool" where
  "loaded e s \<longleftrightarrow> os0 s = etherdev0 e \<and> os1 s = etherdev1 e \<and> os0 s \<noteq> NULL \<and> os1 s \<noteq> NULL \<and> os0 s \<noteq> os1 s \<and>
     (\<exists>d0 d1. devs s (os0 s) = Some d0 \<and> devs s (os1 s) = Some d1 \<and>
       dev_addr d0 = [0, 1, 2, 3, 4, 5] \<and> dev_addr d1 = [0, 1, 2, 3, 4, 6] \<and> addr_len d0 = 6 \<and> addr_len d1 = 6 \<and>
       hard_header_len d0 = 14 \<and> hard_header_len d1 = 14 \<and> noarp d0 \<and> noarp d1 \<and> has_ops d0 \<and> has_ops d1 \<and>
       priv_dev d0 = os0 s \<and> priv_dev d1 = os1 s \<and> set (priv_stats d0) \<subseteq> {0} \<and> set (priv_stats d1) \<subseteq> {0} \<and>
       (reg0 e = 0 \<longrightarrow> netdev_up d0) \<and> (reg0 e = 0 \<and> reg1 e = 0 \<longrightarrow> netdev_up d1))"

lemma lo_load_ok:
  assumes "etherdevs_ok e s" "etherdev0 e \<noteq> NULL" "etherdev1 e \<noteq> NULL"
  shows "\<exists>s'. os_init_mod e s = Inr (0, s') \<and> loaded e s' \<and> received s' = received s"
  using assms
  by (auto simp: os_init_mod_def etherdevs_ok_def add_dev_def dev_set_def dev_at_def Let_def loaded_def setup_dev_def)

lemma lo_load_fails:
  "etherdev0 e = NULL \<or> etherdev1 e = NULL \<Longrightarrow> \<exists>s'. os_init_mod e s = Inr (- LO_ENOMEM, s') \<and>
     devs s' = devs s ++ (if etherdev0 e = NULL then Map.empty else [etherdev0 e \<mapsto> fresh_dev e])
                 ++ (if etherdev1 e = NULL then Map.empty else [etherdev1 e \<mapsto> fresh_dev e])"
  by (auto simp: os_init_mod_def add_dev_def Let_def)

text \<open>Loading succeeds exactly when both devices can be allocated: it then returns 0 whatever the two
  registrations answered, with both devices set up (addresses ending in 5 and 6, no ARP, the
  callbacks). When an allocation fails it returns \<open>-ENOMEM\<close> and the device that was allocated
  stays allocated. Unloading keeps both devices allocated, too.\<close>

theorem lo_load_unload:
  assumes "etherdevs_ok e s"
  shows "if etherdev0 e = NULL \<or> etherdev1 e = NULL
     then \<exists>s'. os_init_mod e s = Inr (-12, s') \<and>
       dom (devs s') = dom (devs s) \<union> ({etherdev0 e, etherdev1 e} - {NULL})
     else \<exists>s' s''. os_init_mod e s = Inr (0, s') \<and> loaded e s' \<and>
       os_exit_mod s' = Inr s'' \<and> {etherdev0 e, etherdev1 e} \<subseteq> dom (devs s'') \<and>
       \<not> netdev_up (the (devs s'' (os0 s''))) \<and> \<not> netdev_up (the (devs s'' (os1 s'')))"
proof (cases "etherdev0 e = NULL \<or> etherdev1 e = NULL")
  case True
  then show ?thesis using lo_load_fails [OF True, of s] by (auto simp: LO_ENOMEM_def)
next
  case False
  then obtain s' where s': "os_init_mod e s = Inr (0, s')" "loaded e s'" using lo_load_ok [OF assms] by blast
  then show ?thesis using False
    by (auto simp: loaded_def os_exit_mod_def dev_set_def dev_at_def)
qed

definition demo_env :: load_env where
  "demo_env = \<lparr>etherdev0 = 1, etherdev1 = 2, fresh_dev = (demo_dev 0 0)\<lparr>netdev_up := False, priv_stats := [3, 5]\<rparr>, reg0 = 0, reg1 = 0,
     behind0 = [1, 2, 3, 4, 5, 6], behind1 = [1, 2, 3, 4, 5, 6]\<rparr>"

definition no_net :: loopback where
  "no_net = \<lparr>os0 = NULL, os1 = NULL, devs = Map.empty, received = []\<rparr>"

lemma demo_env_ok: "etherdevs_ok demo_env no_net" "etherdevs_ok (demo_env\<lparr>etherdev1 := NULL\<rparr>) no_net"
  by (simp_all add: etherdevs_ok_def demo_env_def demo_dev_def no_net_def)

theorem lo_load_unload_witness:
  "(\<exists>s'. os_init_mod (demo_env\<lparr>etherdev1 := NULL\<rparr>) no_net = Inr (-12, s') \<and> dom (devs s') = {1}) \<and>
   (\<exists>s'. os_init_mod demo_env no_net = Inr (0, s') \<and> loaded demo_env s')"
proof
  have e: "etherdev0 demo_env = 1" "etherdev1 demo_env = 2" "devs no_net = Map.empty"
    by (simp_all add: demo_env_def no_net_def)
  show "\<exists>s'. os_init_mod (demo_env\<lparr>etherdev1 := NULL\<rparr>) no_net = Inr (-12, s') \<and> dom (devs s') = {1}"
    using lo_load_unload [OF demo_env_ok(2)] by (simp add: e insert_Diff_if)
  show "\<exists>s'. os_init_mod demo_env no_net = Inr (0, s') \<and> loaded demo_env s'"
    using lo_load_unload [OF demo_env_ok(1)] e by (auto split: if_splits)
qed

text \<open>On a loaded module, \<open>os_create_header\<close> puts exactly 14 bytes before the packet: the address of
  the other device, the device's own address and the type, high byte first; the packet itself
  is untouched and 14 is returned. Without 14 bytes of headroom the kernel panics.\<close>

theorem lo_create_header:
  assumes "loaded e s" "dev = os0 s \<or> dev = os1 s"
  shows "os_create_header skb dev type s =
     (if length (headroom skb) < 14 then Inl Overrun
      else Inr (14, \<lparr>headroom = take (length (headroom skb) - 14) (headroom skb),
        skb_data = dev_addr (the (devs s (other s dev))) @ dev_addr (the (devs s dev)) @ htons type @ skb_data skb\<rparr>))"
proof (cases "length (headroom skb) < 14")
  case False
  define hd where "hd = drop (length (headroom skb) - 14) (headroom skb)"
  have hd: "length hd = 14" using False by (simp add: hd_def)
  obtain d where d: "dev_at s dev = Inr d" "the (devs s dev) = d" "addr_len d = 6" "hard_header_len d = 14"
    "length (dev_addr d) = 6" "(dev_addr d)[5 := if dev_addr d ! 5 = 5 then 6 else 5] = dev_addr (the (devs s (other s dev)))"
    using assms by (auto simp: loaded_def dev_at_def other_def)
  have 1: "copy_at (copy_at (hd @ skb_data skb) 12 (htons type)) 6 (dev_addr d) =
      take 6 hd @ dev_addr d @ htons type @ skb_data skb"
    using hd d(5) by (simp add: copy_at_def htons_def)
  have 2: "copy_at (take 6 hd @ dev_addr d @ ys) 0 (dev_addr d) = dev_addr d @ dev_addr d @ ys" for ys
    using hd d(5) by (simp add: copy_at_def)
  show ?thesis
    using False hd d by (simp add: os_create_header_def skb_push_def ETH_HLEN_def ETH_ALEN_def
        hd_def [symmetric] Let_def 1 2 list_update_append nth_append)
qed (simp add: os_create_header_def skb_push_def ETH_HLEN_def)

theorem lo_create_header_witness:
  "\<exists>s'. os_init_mod demo_env no_net = Inr (0, s') \<and>
     os_create_header \<lparr>headroom = replicate 20 9, skb_data = [7]\<rparr> 1 0x0800 s' =
       Inr (14, \<lparr>headroom = replicate 6 9, skb_data = [0, 1, 2, 3, 4, 6, 0, 1, 2, 3, 4, 5, 8, 0, 7]\<rparr>)"
proof -
  obtain s' where s': "os_init_mod demo_env no_net = Inr (0, s')" "loaded demo_env s'"
    using lo_load_ok [OF demo_env_ok(1)] by (auto simp: demo_env_def)
  then have "os0 s' = 1" "os1 s' = 2" "dev_addr (the (devs s' 1)) = [0, 1, 2, 3, 4, 5]"
    "dev_addr (the (devs s' 2)) = [0, 1, 2, 3, 4, 6]"
    by (auto simp: loaded_def demo_env_def)
  with s' lo_create_header [OF s'(2), where dev = 1 and skb = "\<lparr>headroom = replicate 20 9, skb_data = [7]\<rparr>" and type = "0x0800"]
  show ?thesis by (simp add: other_def htons_def)
qed

end
