(* ===== verification/Loopback_Traffic.thy ===== *)
theory Loopback_Traffic
  imports Loopback_Props
begin

text \<open>
  The driver of \<open>hw4_loopback/loopback.c\<close> as the network core uses it: sequences of calls through \<open>os_device_ops\<close>, from
  loading the module to unloading it.
\<close>

fun run_ops :: "(device_op \<times> ptr) list \<Rightarrow> loopback \<Rightarrow> fault + (device_reply list \<times> loopback)" where
  "run_ops [] s = Inr ([], s)"
| "run_ops ((op, dev) # ops) s = bindE (os_device_ops op dev s) (\<lambda>(r, s).
     bindE (run_ops ops s) (\<lambda>(rs, s). Inr (r # rs, s)))"

text \<open>The wire the driver implements: what each call delivers.\<close>

fun deliveries :: "loopback \<Rightarrow> device_op \<times> ptr \<Rightarrow> rx_packet list" where
  "deliveries s (Ndo_start_xmit k skb, dev) = (let xs = padded (skb_data skb); ys = crossing k xs in
     if dev_alloc_skb k (length xs + 2)
     then [\<lparr>rx_dev = other s dev, rx_data = ys, rx_protocol = eth_type_trans k ys (other s dev), rx_sum_unnecessary = True\<rparr>]
     else [])"
| "deliveries s _ = []"

text \<open>The IP header length field of a packet stays inside the padded packet.\<close>

fun header_inside :: "device_op \<Rightarrow> bool" where
  "header_inside (Ndo_start_xmit k skb) = (14 + 4 * ihl (padded (skb_data skb)) \<le> length (padded (skb_data skb)))"
| "header_inside _ = True"

fun no_traffic_counted :: "device_reply \<Rightarrow> bool" where
  "no_traffic_counted (Stats st) = (set st \<subseteq> {0})"
| "no_traffic_counted _ = True"

lemma loaded_devs: "loaded e s \<Longrightarrow> dev = os0 s \<or> dev = os1 s \<Longrightarrow> is_dev s dev"
  by (auto simp: loaded_def is_dev_def)

lemma loaded_update:
  assumes "loaded e s" "dev = os0 s \<or> dev = os1 s"
    and "\<And>d. dev_addr (f d) = dev_addr d \<and> addr_len (f d) = addr_len d \<and> hard_header_len (f d) = hard_header_len d \<and>
      noarp (f d) = noarp d \<and> has_ops (f d) = has_ops d \<and> priv_dev (f d) = priv_dev d \<and> priv_stats (f d) = priv_stats d \<and>
      netdev_up (f d) = netdev_up d"
  shows "loaded e (s\<lparr>devs := (devs s)(dev \<mapsto> f (the (devs s dev)))\<rparr>)"
  using assms(1,2) unfolding loaded_def by (auto simp: assms(3))

lemma loaded_received: "loaded e (s\<lparr>received := ps\<rparr>) = loaded e s"
  by (simp add: loaded_def)

text \<open>One call on a loaded module.\<close>

lemma device_op_step:
  assumes "loaded e s" "dev = os0 s \<or> dev = os1 s" "header_inside op"
  shows "\<exists>r s'. os_device_ops op dev s = Inr (r, s') \<and> loaded e s' \<and> received s' = received s @ deliveries s (op, dev) \<and>
     no_traffic_counted r"
proof (cases op)
  case Ndo_open
  then show ?thesis using loaded_update [OF assms(1,2), of "queue_on_update (\<lambda>_. True)"]
    by (simp add: os_open_def dev_set_ok [OF loaded_devs [OF assms(1,2)]])
next
  case Ndo_stop
  then show ?thesis using loaded_update [OF assms(1,2), of "queue_on_update (\<lambda>_. False)"]
    by (simp add: os_stop_def dev_set_ok [OF loaded_devs [OF assms(1,2)]])
next
  case Ndo_get_stats
  have "set (priv_stats (the (devs s dev))) \<subseteq> {0}" using assms(1,2) by (auto simp: loaded_def)
  then show ?thesis using Ndo_get_stats assms(1) by (simp add: os_stats_def dev_at_ok [OF loaded_devs [OF assms(1,2)]])
next
  case (Ndo_start_xmit k skb)
  have "loaded e (s\<lparr>devs := (devs s)(dev \<mapsto> the (devs s dev)\<lparr>trans_start := jiffies k\<rparr>)\<rparr>)"
    using loaded_update [OF assms(1,2), of "trans_start_update (\<lambda>_. jiffies k)"] by simp
  then show ?thesis using assms(3)
    by (simp add: Ndo_start_xmit xmit_eq [OF loaded_devs [OF assms(1,2)]] crossing_def [symmetric] Let_def loaded_received)
qed

lemma deliveries_cong: "os0 s' = os0 s \<Longrightarrow> os1 s' = os1 s \<Longrightarrow> deliveries s' (op, dev) = deliveries s (op, dev)"
  by (cases op) (simp_all add: other_def Let_def)

lemma loaded_ends: "loaded e s \<Longrightarrow> os0 s = etherdev0 e \<and> os1 s = etherdev1 e"
  by (simp add: loaded_def)

lemma run_ops_loaded:
  assumes "loaded e s" "\<And>op dev. (op, dev) \<in> set ops \<Longrightarrow> (dev = etherdev0 e \<or> dev = etherdev1 e) \<and> header_inside op"
  shows "\<exists>rs s'. run_ops ops s = Inr (rs, s') \<and> loaded e s' \<and>
     received s' = received s @ concat (map (deliveries s) ops) \<and> list_all no_traffic_counted rs"
  using assms
proof (induction ops arbitrary: s)
  case (Cons a ops)
  obtain op dev where a: "a = (op, dev)" by fastforce
  have "dev = os0 s \<or> dev = os1 s" "header_inside op" using Cons.prems(2) [of op dev] loaded_ends [OF Cons.prems(1)] a by auto
  then obtain r s1 where s1: "os_device_ops op dev s = Inr (r, s1)" "loaded e s1" "received s1 = received s @ deliveries s (op, dev)"
    "no_traffic_counted r" using device_op_step [OF Cons.prems(1)] by blast
  obtain rs s' where s': "run_ops ops s1 = Inr (rs, s')" "loaded e s'"
    "received s' = received s1 @ concat (map (deliveries s1) ops)" "list_all no_traffic_counted rs"
    using Cons.IH [OF s1(2)] Cons.prems(2) by (metis list.set_intros(2))
  have "map (deliveries s1) ops = map (deliveries s) ops"
    using loaded_ends [OF s1(2)] loaded_ends [OF Cons.prems(1)] deliveries_cong by (metis (no_types, lifting) map_eq_conv surj_pair)
  with s1 s' show ?case by (simp add: a)
qed (simp add: list_all_def)

text \<open>C13: The loaded driver is a wire between its two devices. Whatever sequence of calls the network core makes on them through
  \<open>os_device_ops\<close>, if the header of every packet ends inside it, no call fails; exactly the packets whose receive buffer was
  granted are handed to the network core, in order, each to the device that did not send it; the counters
  \<open>os_stats\<close> reports are 0 all the time; and the module can then be unloaded.\<close>

theorem lo_traffic:
  assumes "etherdevs_ok e s0" "os_init_mod e s0 = Inr (0, s)"
    and "\<And>op dev. (op, dev) \<in> set ops \<Longrightarrow> (dev = os0 s \<or> dev = os1 s) \<and> header_inside op"
  shows "\<exists>rs s' s''. run_ops ops s = Inr (rs, s') \<and> received s' = received s0 @ concat (map (deliveries s) ops) \<and>
     list_all no_traffic_counted rs \<and> os_exit_mod s' = Inr s'' \<and> received s'' = received s'"
proof -
  have "etherdev0 e \<noteq> NULL \<and> etherdev1 e \<noteq> NULL"
    using lo_load_fails [of e s0] assms(2) by (metis Inr_inject Pair_inject LO_ENOMEM_def neg_equal_0_iff_equal zero_neq_numeral)
  then have load: "loaded e s" "received s = received s0" using lo_load_ok [OF assms(1)] assms(2) by auto
  have "\<And>op dev. (op, dev) \<in> set ops \<Longrightarrow> (dev = etherdev0 e \<or> dev = etherdev1 e) \<and> header_inside op"
    using assms(3) loaded_ends [OF load(1)] by metis
  from run_ops_loaded [OF load(1) this] obtain rs s' where run: "run_ops ops s = Inr (rs, s')" "loaded e s'"
    "received s' = received s @ concat (map (deliveries s) ops)" "list_all no_traffic_counted rs" by blast
  have "\<exists>s''. os_exit_mod s' = Inr s'' \<and> received s'' = received s'"
    using run(2) by (auto simp: loaded_def os_exit_mod_def dev_set_def dev_at_def)
  with run load(2) show ?thesis by auto
qed

theorem lo_traffic_witness:
  "\<exists>s r1 st r2 s' p. os_init_mod demo_env no_net = Inr (0, s) \<and>
     run_ops [(Ndo_open, 1), (Ndo_start_xmit demo_kernel demo_skb, 1), (Ndo_get_stats, 2)] s = Inr ([r1, r2, Stats st], s') \<and>
     set st \<subseteq> {0} \<and> received s' = [p] \<and> rx_dev p = 2"
proof -
  obtain s where s: "os_init_mod demo_env no_net = Inr (0, s)" "loaded demo_env s"
    using lo_load_ok [OF demo_env_ok(1)] by (auto simp: demo_env_def)
  have ends: "os0 s = 1" "os1 s = 2" using loaded_ends [OF s(2)] by (simp_all add: demo_env_def)
  let ?ops = "[(Ndo_open, 1), (Ndo_start_xmit demo_kernel demo_skb, 1), (Ndo_get_stats, 2)]"
  have "\<And>op dev. (op, dev) \<in> set ?ops \<Longrightarrow> (dev = os0 s \<or> dev = os1 s) \<and> header_inside op"
    using demo_packet_fits(1) by (auto simp: ends)
  from lo_traffic [OF demo_env_ok(1) s(1) this] obtain rs s' where run: "run_ops ?ops s = Inr (rs, s')"
    "received s' = received no_net @ concat (map (deliveries s) ?ops)" "list_all no_traffic_counted rs" by blast
  have "\<exists>r1 r2 st. rs = [r1, r2, Stats st]" using run(1) by (auto simp: bindE_Inr_iff split: prod.splits)
  with run(3) obtain r1 r2 st where rs: "rs = [r1, r2, Stats st]" "set st \<subseteq> {0}" by auto
  have "\<exists>p. received s' = [p] \<and> rx_dev p = 2"
    using run(2) demo_packet_fits(3) by (simp add: no_net_def Let_def other_def ends)
  with s(1) run(1) rs show ?thesis by blast
qed

end
