(* ===== verification/Log.thy ===== *)
theory Log
  imports Prelude
begin

text \<open>
  The log of the FUSE file system, \<open>hw7_fuse/src/log.c\<close> and \<open>log.h\<close>: what its functions write about the structures of the
  operations. A structure is a record of the fields the code prints, at the width they have on the
  machine (Linux on x86-64); the file is the string written to it, and a function is the text it writes. Reading numbers back is at the end.
\<close>

section \<open>Formats\<close>

definition newline :: string where "newline = [CHR 0x0A]"

definition hex_digit :: "nat \<Rightarrow> char" where
  "hex_digit d = char_of (if d < 10 then 48 + d else 87 + d)"

fun digits_base :: "nat \<Rightarrow> nat \<Rightarrow> string" where
  "digits_base b n = (if b < 2 \<or> n < b then [hex_digit n] else digits_base b (n div b) @ [hex_digit (n mod b)])"

declare digits_base.simps [simp del]

definition pad0 :: "nat \<Rightarrow> string \<Rightarrow> string" where
  "pad0 w s = replicate (w - length s) (CHR ''0'') @ s"

text \<open>\<open>%d\<close> of a 32-bit argument, \<open>%ld\<close> and \<open>%lld\<close> of a 64-bit one, \<open>0x%08x\<close>, \<open>0x%08lx\<close> and \<open>0x%016llx\<close>, \<open>0%o\<close>.\<close>

definition f_d :: "32 word \<Rightarrow> string" where "f_d w = fmt_d (sint w)"
definition f_ld :: "64 word \<Rightarrow> string" where "f_ld w = fmt_d (sint w)"
definition f_x :: "nat \<Rightarrow> nat \<Rightarrow> string" where "f_x w n = ''0x'' @ pad0 w (digits_base 16 n)"
definition f_o :: "nat \<Rightarrow> string" where "f_o n = ''0'' @ digits_base 8 n"

text \<open>Opening the file (\<open>Inl\<close>: the program exits with that status) and writing to it.\<close>

definition EXIT_FAILURE :: int where "EXIT_FAILURE = 1"

definition log_open :: "'file option \<Rightarrow> int + 'file" where
  "log_open logfile = (case logfile of None \<Rightarrow> Inl EXIT_FAILURE | Some f \<Rightarrow> Inr f)"

definition log_msg :: "string \<Rightarrow> string \<Rightarrow> string" where
  "log_msg out file = file @ out"

text \<open>\<open>log_struct\<close> with its formatted value: the line it hands to \<open>log_msg\<close>.\<close>

definition log_struct :: "string \<Rightarrow> string \<Rightarrow> string" where
  "log_struct field v = ''    '' @ field @ '' = '' @ v @ newline"

section \<open>The structures\<close>

record log_file_info =
  fi_flags :: "32 word"
  fi_fh_old :: "64 word"
  fi_writepage :: "32 word"
  fi_direct_io :: bool
  fi_keep_cache :: bool
  fi_fh :: "64 word"
  fi_lock_owner :: "64 word"

record log_stat_buf =
  st_dev :: "64 word"
  st_ino :: "64 word"
  st_mode :: "32 word"
  st_nlink :: "64 word"
  st_uid :: "32 word"
  st_gid :: "32 word"
  st_rdev :: "64 word"
  st_size :: "64 word"
  st_blksize :: "64 word"
  st_blocks :: "64 word"
  st_atime :: "64 word"
  st_mtime :: "64 word"
  st_ctime :: "64 word"

record log_statvfs_buf =
  f_bsize :: "64 word"
  f_frsize :: "64 word"
  f_blocks :: "64 word"
  f_bfree :: "64 word"
  f_bavail :: "64 word"
  f_files :: "64 word"
  f_ffree :: "64 word"
  f_favail :: "64 word"
  f_fsid :: "64 word"
  f_flag :: "64 word"
  f_namemax :: "64 word"

record log_utimbuf =
  actime :: "64 word"
  modtime :: "64 word"

section \<open>The functions\<close>

definition bit_value :: "bool \<Rightarrow> 32 word" where "bit_value b = (if b then 1 else 0)"

definition log_fi :: "log_file_info \<Rightarrow> string" where
  "log_fi fi =
     log_struct ''flags'' (f_x 8 (unat (fi_flags fi))) @
     log_struct ''fh_old'' (f_x 8 (unat (fi_fh_old fi))) @
     log_struct ''writepage'' (f_d (fi_writepage fi)) @
     log_struct ''direct_io'' (f_d (bit_value (fi_direct_io fi))) @
     log_struct ''keep_cache'' (f_d (bit_value (fi_keep_cache fi))) @
     log_struct ''fh'' (f_x 16 (unat (fi_fh fi))) @
     log_struct ''lock_owner'' (f_x 16 (unat (fi_lock_owner fi)))"

text \<open>\<open>st_nlink\<close> has 64 bits and is printed with \<open>%d\<close>, which reads the low 32.\<close>

definition log_stat :: "log_stat_buf \<Rightarrow> string" where
  "log_stat si =
     log_struct ''st_dev'' (f_ld (st_dev si)) @
     log_struct ''st_ino'' (f_ld (st_ino si)) @
     log_struct ''st_mode'' (f_o (unat (st_mode si))) @
     log_struct ''st_nlink'' (f_d (ucast (st_nlink si))) @
     log_struct ''st_uid'' (f_d (st_uid si)) @
     log_struct ''st_gid'' (f_d (st_gid si)) @
     log_struct ''st_rdev'' (f_ld (st_rdev si)) @
     log_struct ''st_size'' (f_ld (st_size si)) @
     log_struct ''st_blksize'' (f_ld (st_blksize si)) @
     log_struct ''st_blocks'' (f_ld (st_blocks si)) @
     log_struct ''st_atime'' (f_x 8 (unat (st_atime si))) @
     log_struct ''st_mtime'' (f_x 8 (unat (st_mtime si))) @
     log_struct ''st_ctime'' (f_x 8 (unat (st_ctime si)))"

definition log_statvfs :: "log_statvfs_buf \<Rightarrow> string" where
  "log_statvfs sv =
     log_struct ''f_bsize'' (f_ld (f_bsize sv)) @
     log_struct ''f_frsize'' (f_ld (f_frsize sv)) @
     log_struct ''f_blocks'' (f_ld (f_blocks sv)) @
     log_struct ''f_bfree'' (f_ld (f_bfree sv)) @
     log_struct ''f_bavail'' (f_ld (f_bavail sv)) @
     log_struct ''f_files'' (f_ld (f_files sv)) @
     log_struct ''f_ffree'' (f_ld (f_ffree sv)) @
     log_struct ''f_favail'' (f_ld (f_favail sv)) @
     log_struct ''f_fsid'' (f_ld (f_fsid sv)) @
     log_struct ''f_flag'' (f_x 8 (unat (f_flag sv))) @
     log_struct ''f_namemax'' (f_ld (f_namemax sv))"

definition log_utime :: "log_utimbuf \<Rightarrow> string" where
  "log_utime buf =
     log_struct ''actime'' (f_x 8 (unat (actime buf))) @
     log_struct ''modtime'' (f_x 8 (unat (modtime buf)))"

section \<open>Reading numbers\<close>

definition digit_value :: "char \<Rightarrow> nat" where
  "digit_value c = (let n = of_char c in if n < 58 then n - 48 else n - 87)"

definition read_base :: "nat \<Rightarrow> string \<Rightarrow> nat" where
  "read_base b s = foldl (\<lambda>a c. a * b + digit_value c) 0 s"

lemma digit_value_hex: "d < 16 \<Longrightarrow> digit_value (hex_digit d) = d"
  by (auto simp: digit_value_def hex_digit_def Let_def)

lemma read_digits_base: "2 \<le> b \<Longrightarrow> b \<le> 16 \<Longrightarrow> read_base b (digits_base b n) = n"
proof (induction b n rule: digits_base.induct)
  case (1 b n)
  show ?case
  proof (cases "n < b")
    case True
    then show ?thesis using "1.prems" by (subst digits_base.simps) (simp add: read_base_def digit_value_hex)
  next
    case False
    have "n mod b < 16" using "1.prems" by (meson less_le_trans mod_less_divisor zero_less_numeral order.strict_trans2)
    then show ?thesis using False "1.prems" "1.IH"
      by (subst digits_base.simps) (simp add: read_base_def digit_value_hex)
  qed
qed

lemma read_pad0: "read_base b (pad0 w s) = read_base b s"
proof -
  have "foldl (\<lambda>a c. a * b + digit_value c) 0 (replicate k (CHR ''0'')) = 0" for k
    by (induction k) (simp_all add: digit_value_def)
  then show ?thesis by (simp add: read_base_def pad0_def)
qed

lemma digits_of_base: "digits_of n = digits_base 10 n"
proof (induction n rule: digits_of.induct)
  case (1 n)
  then show ?case by (subst digits_of.simps, subst digits_base.simps) (simp add: hex_digit_def)
qed

definition read_d :: "string \<Rightarrow> int" where
  "read_d s = (case s of c # cs \<Rightarrow> if c = CHR ''-'' then - int (read_base 10 cs) else int (read_base 10 s) | [] \<Rightarrow> 0)"

definition hex_chars :: "char set" where "hex_chars = hex_digit ` {..<16}"

lemma digits_base_chars: "2 \<le> b \<Longrightarrow> b \<le> 16 \<Longrightarrow> set (digits_base b n) \<subseteq> hex_chars"
proof (induction b n rule: digits_base.induct)
  case (1 b n)
  have "n mod b < 16" using "1.prems" by (meson less_le_trans mod_less_divisor zero_less_numeral order.strict_trans2)
  then show ?case using 1 by (subst digits_base.simps) (auto simp: hex_chars_def)
qed

lemma hex_chars_plain: "c \<in> hex_chars \<Longrightarrow> c \<noteq> CHR 0x0A \<and> c \<noteq> CHR ''-'' \<and> c \<noteq> CHR ''=''"
proof -
  have "\<forall>d \<in> set [0..<16]. hex_digit d \<noteq> CHR 0x0A \<and> hex_digit d \<noteq> CHR ''-'' \<and> hex_digit d \<noteq> CHR ''=''" by code_simp
  then show "c \<in> hex_chars \<Longrightarrow> ?thesis" by (auto simp: hex_chars_def)
qed

lemma read_fmt_d: "read_d (fmt_d x) = x"
proof (cases "x < 0")
  case True
  then show ?thesis by (simp add: fmt_d_def read_d_def digits_of_base read_digits_base)
next
  case False
  obtain c cs where c: "digits_base 10 (nat x) = c # cs" by (cases "digits_base 10 (nat x)") (use digits_of_base digits_of_nonempty in metis)+
  then have "c \<in> hex_chars" using digits_base_chars [of 10 "nat x"] by simp
  then have "c \<noteq> CHR ''-''" using hex_chars_plain by blast
  then show ?thesis using False c read_digits_base [of 10 "nat x"] by (simp add: fmt_d_def read_d_def digits_of_base)
qed

end
