(* ===== verification/Bbfs.thy ===== *)
theory Bbfs
  imports Log
begin

text \<open>
  The encrypting FUSE file system, \<open>hw7_fuse/src/bbfs.c\<close>: the handlers of the table \<open>bb_oper\<close> and
  \<open>main\<close>. The system calls the handlers forward to are fields of a parameter over an abstract
  world (the underlying file system with \<open>errno\<close>); a buffer is a byte list of the length the
  caller announces, and reading a string out of a buffer that holds no terminator is the fault
  \<open>Overrun\<close>. Every handler reports what it does in the log file: one entry per line that \<open>log_msg\<close> writes (or
  per structure that \<open>log_fi\<close>, \<open>log_stat\<close> and \<open>log_statvfs\<close> of theory Log print), with the values in it that
  are not addresses or the time of day.
\<close>

unbundle bit_operations_syntax

section \<open>State and system calls\<close>

definition PATH_MAX :: nat where "PATH_MAX = 4096"
definition BB_ENOMEM :: int where "BB_ENOMEM = 12"

text \<open>\<open>struct bb_state\<close>; \<open>rootdir\<close> is \<open>None\<close> when \<open>realpath\<close> returned a null pointer.\<close>

record bb_state =
  rootdir :: "string option"
  owner :: int

type_synonym fuse_file_info = log_file_info

text \<open>An entry of the log: the call of a handler with its strings and its numbers, in the order of the message; the
  message of \<open>bb_fullpath\<close> with \<open>rootdir\<close>, \<open>path\<close> and \<open>fpath\<close>; an error message of \<open>bb_error\<close> with \<open>errno\<close>; a refused
  operation with the user and the path; a structure; a value, the number of attributes and one attribute; a name handed to
  \<open>filler\<close>, and that \<open>filler\<close> refused it.\<close>

datatype log_entry =
    Entered string "string list" "int list"
  | Fullpath string string string
  | Failed string int
  | Illegal int string
  | File_info log_file_info
  | Stat log_stat_buf
  | Statvfs log_statvfs_buf
  | Value string
  | Attributes int
  | Attribute string
  | Filler string
  | Buffer_full

text \<open>The world, the log, and the buffers \<open>malloc\<close> gave and nobody freed.\<close>

record 'w bb =
  world :: 'w
  logfile :: "log_entry list"
  buffers :: nat

definition say :: "log_entry \<Rightarrow> 'w bb \<Rightarrow> 'w bb" where
  "say e s = s\<lparr>logfile := logfile s @ [e]\<rparr>"

record 'w sys =
  errno :: "'w \<Rightarrow> int"
  getuid :: "'w \<Rightarrow> int"
  sys_lstat :: "string \<Rightarrow> 'w \<Rightarrow> int \<times> log_stat_buf \<times> 'w"
  sys_readlink :: "string \<Rightarrow> nat \<Rightarrow> 'w \<Rightarrow> int \<times> byte list \<times> 'w"
  sys_open :: "string \<Rightarrow> int \<Rightarrow> 32 word \<Rightarrow> 'w \<Rightarrow> int \<times> 'w"
  sys_close :: "int \<Rightarrow> 'w \<Rightarrow> int \<times> 'w"
  sys_mkfifo :: "string \<Rightarrow> 32 word \<Rightarrow> 'w \<Rightarrow> int \<times> 'w"
  sys_mknod :: "string \<Rightarrow> 32 word \<Rightarrow> nat \<Rightarrow> 'w \<Rightarrow> int \<times> 'w"
  sys_mkdir :: "string \<Rightarrow> 32 word \<Rightarrow> 'w \<Rightarrow> int \<times> 'w"
  sys_unlink :: "string \<Rightarrow> 'w \<Rightarrow> int \<times> 'w"
  sys_rmdir :: "string \<Rightarrow> 'w \<Rightarrow> int \<times> 'w"
  sys_symlink :: "string \<Rightarrow> string \<Rightarrow> 'w \<Rightarrow> int \<times> 'w"
  sys_rename :: "string \<Rightarrow> string \<Rightarrow> 'w \<Rightarrow> int \<times> 'w"
  sys_link :: "string \<Rightarrow> string \<Rightarrow> 'w \<Rightarrow> int \<times> 'w"
  sys_chmod :: "string \<Rightarrow> 32 word \<Rightarrow> 'w \<Rightarrow> int \<times> 'w"
  sys_chown :: "string \<Rightarrow> nat \<Rightarrow> nat \<Rightarrow> 'w \<Rightarrow> int \<times> 'w"
  sys_truncate :: "string \<Rightarrow> int \<Rightarrow> 'w \<Rightarrow> int \<times> 'w"
  sys_utime :: "string \<Rightarrow> (int \<times> int) option \<Rightarrow> 'w \<Rightarrow> int \<times> 'w"
  sys_pread :: "int \<Rightarrow> nat \<Rightarrow> int \<Rightarrow> 'w \<Rightarrow> int \<times> byte list \<times> 'w"
  sys_pwrite :: "int \<Rightarrow> byte list \<Rightarrow> int \<Rightarrow> 'w \<Rightarrow> int \<times> 'w"
  sys_statvfs :: "string \<Rightarrow> 'w \<Rightarrow> int \<times> log_statvfs_buf \<times> 'w"
  sys_fdatasync :: "int \<Rightarrow> 'w \<Rightarrow> int \<times> 'w"
  sys_fsync :: "int \<Rightarrow> 'w \<Rightarrow> int \<times> 'w"
  sys_lsetxattr :: "string \<Rightarrow> string \<Rightarrow> byte list \<Rightarrow> int \<Rightarrow> 'w \<Rightarrow> int \<times> 'w"
  sys_lgetxattr :: "string \<Rightarrow> string \<Rightarrow> nat \<Rightarrow> 'w \<Rightarrow> int \<times> byte list \<times> 'w"
  sys_llistxattr :: "string \<Rightarrow> nat \<Rightarrow> 'w \<Rightarrow> int \<times> byte list \<times> 'w"
  sys_lremovexattr :: "string \<Rightarrow> string \<Rightarrow> 'w \<Rightarrow> int \<times> 'w"
  sys_opendir :: "string \<Rightarrow> 'w \<Rightarrow> 64 word \<times> 'w"
  sys_readdir :: "64 word \<Rightarrow> 'w \<Rightarrow> string option \<times> 'w"
  sys_closedir :: "64 word \<Rightarrow> 'w \<Rightarrow> int \<times> 'w"
  sys_access :: "string \<Rightarrow> int \<Rightarrow> 'w \<Rightarrow> int \<times> 'w"
  sys_creat :: "string \<Rightarrow> 32 word \<Rightarrow> 'w \<Rightarrow> int \<times> 'w"
  sys_ftruncate :: "int \<Rightarrow> int \<Rightarrow> 'w \<Rightarrow> int \<times> 'w"
  sys_fstat :: "int \<Rightarrow> 'w \<Rightarrow> int \<times> log_stat_buf \<times> 'w"
  malloc_bytes :: "nat \<Rightarrow> 'w \<Rightarrow> bool"

text \<open>Run a call on the world; run one that also fills a buffer.\<close>

definition call :: "('w \<Rightarrow> 'r \<times> 'w) \<Rightarrow> 'w bb \<Rightarrow> 'r \<times> 'w bb" where
  "call f s = (case f (world s) of (r, w) \<Rightarrow> (r, s\<lparr>world := w\<rparr>))"

definition call_out :: "('w \<Rightarrow> int \<times> 'o \<times> 'w) \<Rightarrow> 'w bb \<Rightarrow> int \<times> 'o \<times> 'w bb" where
  "call_out f s = (case f (world s) of (r, out, w) \<Rightarrow> (r, out, s\<lparr>world := w\<rparr>))"

text \<open>Report an error in the log and give \<open>-errno\<close> to the caller.\<close>

definition bb_error :: "'w sys \<Rightarrow> string \<Rightarrow> 'w bb \<Rightarrow> int \<times> 'w bb" where
  "bb_error sys str s = (let e = errno sys (world s) in (- e, say (Failed str e) s))"

text \<open>\<open>if (retstat < 0) retstat = bb_error(...);\<close> after a call that gave \<open>r\<close>, and a call followed by it.\<close>

definition fail_on :: "bool \<Rightarrow> 'w sys \<Rightarrow> string \<Rightarrow> int \<Rightarrow> 'w bb \<Rightarrow> int \<times> 'w bb" where
  "fail_on failed sys str r s = (if failed then bb_error sys str s else (r, s))"

definition checked :: "'w sys \<Rightarrow> string \<Rightarrow> ('w \<Rightarrow> int \<times> 'w) \<Rightarrow> 'w bb \<Rightarrow> int \<times> 'w bb" where
  "checked sys str f s = (case call f s of (r, s) \<Rightarrow> fail_on (r < 0) sys str r s)"

text \<open>A descriptor stored in \<open>fi->fh\<close> and passed on as an \<open>int\<close>.\<close>

definition fd_of :: "fuse_file_info \<Rightarrow> int" where
  "fd_of fi = int_of_long (fi_fh fi)"

text \<open>
  \<open>strcpy\<close> of the root directory into a buffer of \<open>PATH_MAX\<close> bytes, then \<open>strncat\<close> of at most
  \<open>PATH_MAX\<close> characters and a terminator.
\<close>

definition bb_fullpath :: "bb_state \<Rightarrow> string \<Rightarrow> 'w bb \<Rightarrow> fault + (string \<times> 'w bb)" where
  "bb_fullpath bd path s =
     (case rootdir bd of None \<Rightarrow> Inl NullDeref
      | Some root \<Rightarrow>
          let fpath = root @ take PATH_MAX path in
          if PATH_MAX < length fpath + 1 then Inl Overrun else Inr (fpath, say (Fullpath root path fpath) s))"

text \<open>\<open>%s\<close> of a buffer reads up to its terminator, and past a buffer without one.\<close>

definition log_text :: "byte list \<Rightarrow> fault + string" where
  "log_text buf = (if 0 \<in> set buf then Inr (map (\<lambda>c. char_of (unat c)) (takeWhile (\<lambda>c. c \<noteq> 0) buf)) else Inl Overrun)"

section \<open>Handlers that forward a path\<close>

definition bb_getattr :: "'w sys \<Rightarrow> bb_state \<Rightarrow> string \<Rightarrow> 'w bb \<Rightarrow> fault + (int \<times> log_stat_buf \<times> 'w bb)" where
  "bb_getattr sys bd path s =
     (let s = say (Entered ''bb_getattr'' [path] []) s in
      bindE (bb_fullpath bd path s) (\<lambda>(fpath, s).
      case call_out (sys_lstat sys fpath) s of (r, st, s) \<Rightarrow>
      case fail_on (r \<noteq> 0) sys ''bb_getattr lstat'' r s of (r, s) \<Rightarrow> Inr (r, st, say (Stat st) s)))"

text \<open>\<open>link\<close> is the caller's buffer of \<open>length link\<close> bytes; the size passed on is one less, in a \<open>size_t\<close>.\<close>

definition bb_readlink ::
  "'w sys \<Rightarrow> bb_state \<Rightarrow> string \<Rightarrow> byte list \<Rightarrow> 'w bb \<Rightarrow> fault + (int \<times> byte list \<times> 'w bb)" where
  "bb_readlink sys bd path link s =
     bindE (log_text link) (\<lambda>l.
     let s = say (Entered ''bb_readlink'' [path, l] [int (length link)]) s in
     bindE (bb_fullpath bd path s) (\<lambda>(fpath, s).
     case call_out (sys_readlink sys fpath (if link = [] then 2 ^ 64 - 1 else length link - 1)) s of (r, bs, s) \<Rightarrow>
       if r < 0 then (case bb_error sys ''bb_readlink readlink'' s of (r, s) \<Rightarrow> Inr (r, link, s))
       else if length link \<le> nat r then Inl Overrun
       else Inr (0, (bs @ drop (length bs) link)[nat r := 0], s)))"

definition S_ISREG :: "32 word \<Rightarrow> bool" where "S_ISREG m \<longleftrightarrow> m AND 0xF000 = 0x8000"
definition S_ISFIFO :: "32 word \<Rightarrow> bool" where "S_ISFIFO m \<longleftrightarrow> m AND 0xF000 = 0x1000"
definition O_CREAT_EXCL_WRONLY :: int where "O_CREAT_EXCL_WRONLY = 64 + 128 + 1"

definition bb_mknod ::
  "'w sys \<Rightarrow> bb_state \<Rightarrow> string \<Rightarrow> 32 word \<Rightarrow> nat \<Rightarrow> 'w bb \<Rightarrow> fault + (int \<times> 'w bb)" where
  "bb_mknod sys bd path mode dev s =
     (let s = say (Entered ''bb_mknod'' [path] [uint mode, int dev]) s in
      bindE (bb_fullpath bd path s) (\<lambda>(fpath, s).
      if S_ISREG mode then
        case call (sys_open sys fpath O_CREAT_EXCL_WRONLY mode) s of (fd, s) \<Rightarrow>
          if fd < 0 then Inr (bb_error sys ''bb_mknod open'' s)
          else Inr (checked sys ''bb_mknod close'' (sys_close sys fd) s)
      else if S_ISFIFO mode then Inr (checked sys ''bb_mknod mkfifo'' (sys_mkfifo sys fpath mode) s)
      else Inr (checked sys ''bb_mknod mknod'' (sys_mknod sys fpath mode dev) s)))"

definition bb_mkdir :: "'w sys \<Rightarrow> bb_state \<Rightarrow> string \<Rightarrow> 32 word \<Rightarrow> 'w bb \<Rightarrow> fault + (int \<times> 'w bb)" where
  "bb_mkdir sys bd path mode s =
     (let s = say (Entered ''bb_mkdir'' [path] [uint mode]) s in
      bindE (bb_fullpath bd path s) (\<lambda>(fpath, s). Inr (checked sys ''bb_mkdir mkdir'' (sys_mkdir sys fpath mode) s)))"

definition bb_unlink :: "'w sys \<Rightarrow> bb_state \<Rightarrow> string \<Rightarrow> 'w bb \<Rightarrow> fault + (int \<times> 'w bb)" where
  "bb_unlink sys bd path s =
     (let s = say (Entered ''bb_unlink'' [path] []) s in
      bindE (bb_fullpath bd path s) (\<lambda>(fpath, s). Inr (checked sys ''bb_unlink unlink'' (sys_unlink sys fpath) s)))"

definition bb_rmdir :: "'w sys \<Rightarrow> bb_state \<Rightarrow> string \<Rightarrow> 'w bb \<Rightarrow> fault + (int \<times> 'w bb)" where
  "bb_rmdir sys bd path s =
     (let s = say (Entered ''bb_rmdir'' [path] []) s in
      bindE (bb_fullpath bd path s) (\<lambda>(fpath, s). Inr (checked sys ''bb_rmdir rmdir'' (sys_rmdir sys fpath) s)))"

definition bb_symlink :: "'w sys \<Rightarrow> bb_state \<Rightarrow> string \<Rightarrow> string \<Rightarrow> 'w bb \<Rightarrow> fault + (int \<times> 'w bb)" where
  "bb_symlink sys bd path link s =
     (let s = say (Entered ''bb_symlink'' [path, link] []) s in
      bindE (bb_fullpath bd link s) (\<lambda>(flink, s). Inr (checked sys ''bb_symlink symlink'' (sys_symlink sys path flink) s)))"

definition bb_rename :: "'w sys \<Rightarrow> bb_state \<Rightarrow> string \<Rightarrow> string \<Rightarrow> 'w bb \<Rightarrow> fault + (int \<times> 'w bb)" where
  "bb_rename sys bd path newpath s =
     (let s = say (Entered ''bb_rename'' [path, newpath] []) s in
      bindE (bb_fullpath bd path s) (\<lambda>(fpath, s). bindE (bb_fullpath bd newpath s) (\<lambda>(fnewpath, s).
      Inr (checked sys ''bb_rename rename'' (sys_rename sys fpath fnewpath) s))))"

definition bb_link :: "'w sys \<Rightarrow> bb_state \<Rightarrow> string \<Rightarrow> string \<Rightarrow> 'w bb \<Rightarrow> fault + (int \<times> 'w bb)" where
  "bb_link sys bd path newpath s =
     (let s = say (Entered ''bb_link'' [path, newpath] []) s in
      bindE (bb_fullpath bd path s) (\<lambda>(fpath, s). bindE (bb_fullpath bd newpath s) (\<lambda>(fnewpath, s).
      Inr (checked sys ''bb_link link'' (sys_link sys fpath fnewpath) s))))"

definition bb_chmod :: "'w sys \<Rightarrow> bb_state \<Rightarrow> string \<Rightarrow> 32 word \<Rightarrow> 'w bb \<Rightarrow> fault + (int \<times> 'w bb)" where
  "bb_chmod sys bd path mode s =
     (let s = say (Entered ''bb_chmod'' [path] [uint mode]) s in
      bindE (bb_fullpath bd path s) (\<lambda>(fpath, s).
      if owner bd \<noteq> getuid sys (world s) then Inr (0, say (Illegal (getuid sys (world s)) path) s)
      else Inr (checked sys ''bb_chmod chmod'' (sys_chmod sys fpath mode) s)))"

definition bb_chown :: "'w sys \<Rightarrow> bb_state \<Rightarrow> string \<Rightarrow> nat \<Rightarrow> nat \<Rightarrow> 'w bb \<Rightarrow> fault + (int \<times> 'w bb)" where
  "bb_chown sys bd path u g s =
     (let s = say (Entered ''bb_chown'' [path] [int u, int g]) s in
      bindE (bb_fullpath bd path s) (\<lambda>(fpath, s). Inr (checked sys ''bb_chown chown'' (sys_chown sys fpath u g) s)))"

text \<open>\<open>bb_truncate\<close> calls \<open>bb_error\<close> but returns what \<open>truncate\<close> returned.\<close>

definition bb_truncate :: "'w sys \<Rightarrow> bb_state \<Rightarrow> string \<Rightarrow> int \<Rightarrow> 'w bb \<Rightarrow> fault + (int \<times> 'w bb)" where
  "bb_truncate sys bd path newsize s =
     (let s = say (Entered ''bb_truncate'' [path] [newsize]) s in
      bindE (bb_fullpath bd path s) (\<lambda>(fpath, s).
      case call (sys_truncate sys fpath newsize) s of (r, s) \<Rightarrow>
      case fail_on (r < 0) sys ''bb_truncate truncate'' r s of (_, s) \<Rightarrow> Inr (r, s)))"

definition bb_utime ::
  "'w sys \<Rightarrow> bb_state \<Rightarrow> string \<Rightarrow> (int \<times> int) option \<Rightarrow> 'w bb \<Rightarrow> fault + (int \<times> 'w bb)" where
  "bb_utime sys bd path ubuf s =
     (let s = say (Entered ''bb_utime'' [path] []) s in
      bindE (bb_fullpath bd path s) (\<lambda>(fpath, s). Inr (checked sys ''bb_utime utime'' (sys_utime sys fpath ubuf) s)))"

definition bb_statfs :: "'w sys \<Rightarrow> bb_state \<Rightarrow> string \<Rightarrow> 'w bb \<Rightarrow> fault + (int \<times> log_statvfs_buf \<times> 'w bb)" where
  "bb_statfs sys bd path s =
     (let s = say (Entered ''bb_statfs'' [path] []) s in
      bindE (bb_fullpath bd path s) (\<lambda>(fpath, s).
      case call_out (sys_statvfs sys fpath) s of (r, sv, s) \<Rightarrow>
      case fail_on (r < 0) sys ''bb_statfs statvfs'' r s of (r, s) \<Rightarrow> Inr (r, sv, say (Statvfs sv) s)))"

definition bb_access :: "'w sys \<Rightarrow> bb_state \<Rightarrow> string \<Rightarrow> int \<Rightarrow> 'w bb \<Rightarrow> fault + (int \<times> 'w bb)" where
  "bb_access sys bd path amode s =
     (let s = say (Entered ''bb_access'' [path] [amode]) s in
      bindE (bb_fullpath bd path s) (\<lambda>(fpath, s). Inr (checked sys ''bb_access access'' (sys_access sys fpath amode) s)))"

section \<open>Handlers on open files\<close>

definition bb_open ::
  "'w sys \<Rightarrow> bb_state \<Rightarrow> string \<Rightarrow> fuse_file_info \<Rightarrow> 'w bb \<Rightarrow> fault + (int \<times> fuse_file_info \<times> 'w bb)" where
  "bb_open sys bd path fi s =
     (let s = say (Entered ''bb_open'' [path] []) s in
      bindE (bb_fullpath bd path s) (\<lambda>(fpath, s).
      case call (sys_open sys fpath (sint (fi_flags fi)) 0) s of (fd, s) \<Rightarrow>
      case fail_on (fd < 0) sys ''bb_open open'' 0 s of (r, s) \<Rightarrow>
        let fi = fi\<lparr>fi_fh := of_int fd\<rparr> in Inr (r, fi, say (File_info fi) s)))"

definition bb_create ::
  "'w sys \<Rightarrow> bb_state \<Rightarrow> string \<Rightarrow> 32 word \<Rightarrow> fuse_file_info \<Rightarrow> 'w bb \<Rightarrow> fault + (int \<times> fuse_file_info \<times> 'w bb)" where
  "bb_create sys bd path mode fi s =
     (let s = say (Entered ''bb_create'' [path] [uint mode]) s in
      bindE (bb_fullpath bd path s) (\<lambda>(fpath, s).
      case call (sys_creat sys fpath mode) s of (fd, s) \<Rightarrow>
      case fail_on (fd < 0) sys ''bb_create creat'' 0 s of (r, s) \<Rightarrow>
        let fi = fi\<lparr>fi_fh := of_int fd\<rparr> in Inr (r, fi, say (File_info fi) s)))"

text \<open>
  The two ciphers on one byte, as the code computes them: a \<open>char\<close> is signed, the arithmetic is
  on \<open>int\<close> and the result is stored into a \<open>char\<close>.
\<close>

definition decrypt :: "byte \<Rightarrow> byte" where
  "decrypt c = char_of_int (if sint c = 0 then 255 else c_rem (sint c - 1) 256)"

definition encrypt :: "byte \<Rightarrow> byte" where
  "encrypt c = char_of_int (c_rem (sint c + 1) 256)"

text \<open>The loop \<open>for (i = k; i < n; i++) buf[i] = f(buf[i])\<close>.\<close>

fun apply_from :: "(byte \<Rightarrow> byte) \<Rightarrow> nat \<Rightarrow> nat \<Rightarrow> byte list \<Rightarrow> byte list" where
  "apply_from f k 0 buf = buf"
| "apply_from f k (Suc n) buf = apply_from f (Suc k) n (buf[k := f (buf ! k)])"

text \<open>What the handlers on open files report first: the call and \<open>fi\<close>.\<close>

definition say_call :: "string \<Rightarrow> string list \<Rightarrow> int list \<Rightarrow> fuse_file_info \<Rightarrow> 'w bb \<Rightarrow> 'w bb" where
  "say_call name strs nums fi s = say (File_info fi) (say (Entered name strs nums) s)"

text \<open>The bytes \<open>pread\<close> delivered are returned; the rest of the caller's buffer is not touched.\<close>

definition bb_read ::
  "'w sys \<Rightarrow> bb_state \<Rightarrow> string \<Rightarrow> nat \<Rightarrow> int \<Rightarrow> fuse_file_info \<Rightarrow> 'w bb \<Rightarrow> fault + (int \<times> byte list \<times> 'w bb)" where
  "bb_read sys bd path sz offset fi s =
     (let s = say_call ''bb_read'' [path] [int sz, offset] fi s in
      case call_out (sys_pread sys (fd_of fi) sz offset) s of (r, buf, s) \<Rightarrow>
        if r < 0 then (case bb_error sys ''bb_read read'' s of (r, s) \<Rightarrow> Inr (r, [], s))
        else if owner bd = getuid sys (world s) then Inr (r, apply_from decrypt 0 (nat r) buf, s)
        else Inr (r, buf, s))"

definition bb_write ::
  "'w sys \<Rightarrow> bb_state \<Rightarrow> string \<Rightarrow> byte list \<Rightarrow> int \<Rightarrow> fuse_file_info \<Rightarrow> 'w bb \<Rightarrow> fault + (int \<times> 'w bb)" where
  "bb_write sys bd path buf offset fi s =
     (let s = say_call ''bb_write'' [path] [int (length buf), offset] fi s in
      if \<not> malloc_bytes sys (length buf) (world s) \<and> buf \<noteq> [] then Inl NullDeref
      else
        let s = (if malloc_bytes sys (length buf) (world s) then s\<lparr>buffers := buffers s + 1\<rparr> else s);
            data = (if owner bd = getuid sys (world s) then apply_from encrypt 0 (length buf) buf else buf)
        in Inr (checked sys ''bb_write pwrite'' (sys_pwrite sys (fd_of fi) data offset) s))"

definition bb_flush :: "string \<Rightarrow> fuse_file_info \<Rightarrow> 'w bb \<Rightarrow> fault + (int \<times> 'w bb)" where
  "bb_flush path fi s = Inr (0, say_call ''bb_flush'' [path] [] fi s)"

definition bb_release :: "'w sys \<Rightarrow> string \<Rightarrow> fuse_file_info \<Rightarrow> 'w bb \<Rightarrow> fault + (int \<times> 'w bb)" where
  "bb_release sys path fi s =
     (let s = say_call ''bb_release'' [path] [] fi s in Inr (call (sys_close sys (fd_of fi)) s))"

text \<open>\<open>bb_fsync\<close> also drops the result of \<open>bb_error\<close>.\<close>

definition bb_fsync :: "'w sys \<Rightarrow> string \<Rightarrow> int \<Rightarrow> fuse_file_info \<Rightarrow> 'w bb \<Rightarrow> fault + (int \<times> 'w bb)" where
  "bb_fsync sys path datasync fi s =
     (let s = say_call ''bb_fsync'' [path] [datasync] fi s in
      case (if datasync \<noteq> 0 then call (sys_fdatasync sys (fd_of fi)) s else call (sys_fsync sys (fd_of fi)) s) of (r, s) \<Rightarrow>
      case fail_on (r < 0) sys ''bb_fsync fsync'' r s of (_, s) \<Rightarrow> Inr (r, s))"

definition bb_ftruncate :: "'w sys \<Rightarrow> string \<Rightarrow> int \<Rightarrow> fuse_file_info \<Rightarrow> 'w bb \<Rightarrow> fault + (int \<times> 'w bb)" where
  "bb_ftruncate sys path offset fi s =
     (let s = say_call ''bb_ftruncate'' [path] [offset] fi s in
      Inr (checked sys ''bb_ftruncate ftruncate'' (sys_ftruncate sys (fd_of fi) offset) s))"

definition bb_fgetattr :: "'w sys \<Rightarrow> string \<Rightarrow> fuse_file_info \<Rightarrow> 'w bb \<Rightarrow> fault + (int \<times> log_stat_buf \<times> 'w bb)" where
  "bb_fgetattr sys path fi s =
     (let s = say_call ''bb_fgetattr'' [path] [] fi s in
      case call_out (sys_fstat sys (fd_of fi)) s of (r, st, s) \<Rightarrow>
      case fail_on (r < 0) sys ''bb_fgetattr fstat'' r s of (r, s) \<Rightarrow> Inr (r, st, say (Stat st) s))"

section \<open>Extended attributes\<close>

definition bb_setxattr ::
  "'w sys \<Rightarrow> bb_state \<Rightarrow> string \<Rightarrow> string \<Rightarrow> byte list \<Rightarrow> int \<Rightarrow> 'w bb \<Rightarrow> fault + (int \<times> 'w bb)" where
  "bb_setxattr sys bd path name val flags s =
     bindE (log_text val) (\<lambda>v.
     let s = say (Entered ''bb_setxattr'' [path, name, v] [int (length val), flags]) s in
     bindE (bb_fullpath bd path s) (\<lambda>(fpath, s).
     Inr (checked sys ''bb_setxattr lsetxattr'' (sys_lsetxattr sys fpath name val flags) s)))"

text \<open>\<open>sz\<close> is the size of the caller's buffer; the call returns the buffer's contents.\<close>

definition bb_getxattr ::
  "'w sys \<Rightarrow> bb_state \<Rightarrow> string \<Rightarrow> string \<Rightarrow> nat \<Rightarrow> 'w bb \<Rightarrow> fault + (int \<times> byte list \<times> 'w bb)" where
  "bb_getxattr sys bd path name sz s =
     (let s = say (Entered ''bb_getxattr'' [path, name] [int sz]) s in
      bindE (bb_fullpath bd path s) (\<lambda>(fpath, s).
      case call_out (sys_lgetxattr sys fpath name sz) s of (r, val, s) \<Rightarrow>
        if r < 0 then (case bb_error sys ''bb_getxattr lgetxattr'' s of (r, s) \<Rightarrow> Inr (r, val, s))
        else bindE (log_text val) (\<lambda>v. Inr (r, val, say (Value v) s))))"

text \<open>\<open>for (ptr = list; ptr < list + retstat; ptr += strlen(ptr) + 1)\<close>, with the strings it logs.\<close>

function walk_list :: "byte list \<Rightarrow> nat \<Rightarrow> nat \<Rightarrow> fault + string list" where
  "walk_list buf pos n =
     (if pos < n then
        bindE (log_text (drop pos buf)) (\<lambda>a.
        bindE (walk_list buf (pos + length (takeWhile (\<lambda>c. c \<noteq> 0) (drop pos buf)) + 1) n) (\<lambda>as. Inr (a # as)))
      else Inr [])"
  by pat_completeness auto
termination
  by (relation "measure (\<lambda>(buf, pos, n). n - pos)") auto

declare walk_list.simps [simp del]

definition bb_listxattr ::
  "'w sys \<Rightarrow> bb_state \<Rightarrow> string \<Rightarrow> nat \<Rightarrow> 'w bb \<Rightarrow> fault + (int \<times> byte list \<times> 'w bb)" where
  "bb_listxattr sys bd path sz s =
     (let s = say (Entered ''bb_listxattr'' [path] [int sz]) s in
      bindE (bb_fullpath bd path s) (\<lambda>(fpath, s).
      case call_out (sys_llistxattr sys fpath sz) s of (r, lst, s) \<Rightarrow>
      case fail_on (r < 0) sys ''bb_listxattr llistxattr'' r s of (r, s) \<Rightarrow>
        let s = say (Attributes r) s in
        bindE (walk_list lst 0 (nat r)) (\<lambda>as. Inr (r, lst, foldl (\<lambda>s a. say (Attribute a) s) s as))))"

definition bb_removexattr :: "'w sys \<Rightarrow> bb_state \<Rightarrow> string \<Rightarrow> string \<Rightarrow> 'w bb \<Rightarrow> fault + (int \<times> 'w bb)" where
  "bb_removexattr sys bd path name s =
     (let s = say (Entered ''bb_removexattr'' [path, name] []) s in
      bindE (bb_fullpath bd path s) (\<lambda>(fpath, s).
      Inr (checked sys ''bb_removexattr lrmovexattr'' (sys_lremovexattr sys fpath name) s)))"

section \<open>Directories\<close>

definition bb_opendir ::
  "'w sys \<Rightarrow> bb_state \<Rightarrow> string \<Rightarrow> fuse_file_info \<Rightarrow> 'w bb \<Rightarrow> fault + (int \<times> fuse_file_info \<times> 'w bb)" where
  "bb_opendir sys bd path fi s =
     (let s = say (Entered ''bb_opendir'' [path] []) s in
      bindE (bb_fullpath bd path s) (\<lambda>(fpath, s).
      case call (sys_opendir sys fpath) s of (dp, s) \<Rightarrow>
      case fail_on (dp = 0) sys ''bb_opendir opendir'' 0 s of (r, s) \<Rightarrow>
        let fi = fi\<lparr>fi_fh := dp\<rparr> in Inr (r, fi, say (File_info fi) s)))"

text \<open>
  The \<open>do ... while\<close> of \<open>bb_readdir\<close> from the entry \<open>de\<close> on; \<open>filler\<close> gets the names put so far and
  the next one, and nonzero means the buffer is full. A directory has no bound the code
  knows: the loop carries the number of iterations left, and running out is no result.
\<close>

fun readdir_loop ::
  "'w sys \<Rightarrow> fuse_file_info \<Rightarrow> (string list \<Rightarrow> string \<Rightarrow> int) \<Rightarrow> nat \<Rightarrow> string \<Rightarrow> string list \<Rightarrow> 'w bb \<Rightarrow>
     (int \<times> string list \<times> 'w bb) option" where
  "readdir_loop sys fi filler 0 de out s = None"
| "readdir_loop sys fi filler (Suc k) de out s =
     (let s = say (Filler de) s in
      if filler out de \<noteq> 0 then Some (- BB_ENOMEM, out, say Buffer_full s)
      else case call (sys_readdir sys (fi_fh fi)) s of
        (None, s) \<Rightarrow> Some (0, out @ [de], say (File_info fi) s)
      | (Some de1, s) \<Rightarrow> readdir_loop sys fi filler k de1 (out @ [de]) s)"

definition bb_readdir ::
  "'w sys \<Rightarrow> string \<Rightarrow> (string list \<Rightarrow> string \<Rightarrow> int) \<Rightarrow> int \<Rightarrow> nat \<Rightarrow> fuse_file_info \<Rightarrow> 'w bb \<Rightarrow>
     (int \<times> string list \<times> 'w bb) option" where
  "bb_readdir sys path filler offset k fi s =
     (let s = say (Entered ''bb_readdir'' [path] [offset]) s in
      case call (sys_readdir sys (fi_fh fi)) s of
        (None, s) \<Rightarrow> (case bb_error sys ''bb_readdir readdir'' s of (r, s) \<Rightarrow> Some (r, [], s))
      | (Some de, s) \<Rightarrow> readdir_loop sys fi filler k de [] s)"

definition bb_releasedir :: "'w sys \<Rightarrow> string \<Rightarrow> fuse_file_info \<Rightarrow> 'w bb \<Rightarrow> fault + (int \<times> 'w bb)" where
  "bb_releasedir sys path fi s =
     (let s = say_call ''bb_releasedir'' [path] [] fi s in
      case call (sys_closedir sys (fi_fh fi)) s of (_, s) \<Rightarrow> Inr (0, s))"

definition bb_fsyncdir :: "string \<Rightarrow> int \<Rightarrow> fuse_file_info \<Rightarrow> 'w bb \<Rightarrow> fault + (int \<times> 'w bb)" where
  "bb_fsyncdir path datasync fi s = Inr (0, say_call ''bb_fsyncdir'' [path] [datasync] fi s)"

definition bb_init :: "bb_state \<Rightarrow> 'w bb \<Rightarrow> bb_state \<times> 'w bb" where
  "bb_init bd s = (bd, say (Entered ''bb_init'' [] []) s)"

definition bb_destroy :: "'w bb \<Rightarrow> 'w bb" where
  "bb_destroy s = say (Entered ''bb_destroy'' [] []) s"

section \<open>The table of handlers\<close>

text \<open>A request of the kernel, and what it gets besides the return value. Reading a directory, which may not
  end, is kept apart.\<close>

datatype request =
    Getattr string
  | Readlink string "byte list"
  | Mknod string "32 word" nat
  | Mkdir string "32 word"
  | Unlink string
  | Rmdir string
  | Symlink string string
  | Rename string string
  | Link string string
  | Chmod string "32 word"
  | Chown string nat nat
  | Truncate string int
  | Utime string "(int \<times> int) option"
  | Open string fuse_file_info
  | Read string nat int fuse_file_info
  | Write string "byte list" int fuse_file_info
  | Statfs string
  | Flush string fuse_file_info
  | Release string fuse_file_info
  | Fsync string int fuse_file_info
  | Setxattr string string "byte list" int
  | Getxattr string string nat
  | Listxattr string nat
  | Removexattr string string
  | Opendir string fuse_file_info
  | Releasedir string fuse_file_info
  | Fsyncdir string int fuse_file_info
  | Access string int
  | Create string "32 word" fuse_file_info
  | Ftruncate string int fuse_file_info
  | Fgetattr string fuse_file_info

datatype reply = Nothing | Bytes "byte list" | Handle fuse_file_info | Stat_buf log_stat_buf | Statvfs_buf log_statvfs_buf

definition plain :: "fault + (int \<times> 'w bb) \<Rightarrow> fault + (int \<times> reply \<times> 'w bb)" where
  "plain m = bindE m (\<lambda>(r, s). Inr (r, Nothing, s))"

definition bytes :: "fault + (int \<times> byte list \<times> 'w bb) \<Rightarrow> fault + (int \<times> reply \<times> 'w bb)" where
  "bytes m = bindE m (\<lambda>(r, bs, s). Inr (r, Bytes bs, s))"

definition handle :: "fault + (int \<times> fuse_file_info \<times> 'w bb) \<Rightarrow> fault + (int \<times> reply \<times> 'w bb)" where
  "handle m = bindE m (\<lambda>(r, fi, s). Inr (r, Handle fi, s))"

definition stat_reply :: "fault + (int \<times> log_stat_buf \<times> 'w bb) \<Rightarrow> fault + (int \<times> reply \<times> 'w bb)" where
  "stat_reply m = bindE m (\<lambda>(r, st, s). Inr (r, Stat_buf st, s))"

definition statvfs_reply :: "fault + (int \<times> log_statvfs_buf \<times> 'w bb) \<Rightarrow> fault + (int \<times> reply \<times> 'w bb)" where
  "statvfs_reply m = bindE m (\<lambda>(r, sv, s). Inr (r, Statvfs_buf sv, s))"

primrec bb_oper :: "'w sys \<Rightarrow> bb_state \<Rightarrow> request \<Rightarrow> 'w bb \<Rightarrow> fault + (int \<times> reply \<times> 'w bb)" where
  "bb_oper sys bd (Getattr p) s = stat_reply (bb_getattr sys bd p s)"
| "bb_oper sys bd (Readlink p l) s = bytes (bb_readlink sys bd p l s)"
| "bb_oper sys bd (Mknod p m dv) s = plain (bb_mknod sys bd p m dv s)"
| "bb_oper sys bd (Mkdir p m) s = plain (bb_mkdir sys bd p m s)"
| "bb_oper sys bd (Unlink p) s = plain (bb_unlink sys bd p s)"
| "bb_oper sys bd (Rmdir p) s = plain (bb_rmdir sys bd p s)"
| "bb_oper sys bd (Symlink p l) s = plain (bb_symlink sys bd p l s)"
| "bb_oper sys bd (Rename p q) s = plain (bb_rename sys bd p q s)"
| "bb_oper sys bd (Link p q) s = plain (bb_link sys bd p q s)"
| "bb_oper sys bd (Chmod p m) s = plain (bb_chmod sys bd p m s)"
| "bb_oper sys bd (Chown p u g) s = plain (bb_chown sys bd p u g s)"
| "bb_oper sys bd (Truncate p n) s = plain (bb_truncate sys bd p n s)"
| "bb_oper sys bd (Utime p t) s = plain (bb_utime sys bd p t s)"
| "bb_oper sys bd (Open p fi) s = handle (bb_open sys bd p fi s)"
| "bb_oper sys bd (Read p n off fi) s = bytes (bb_read sys bd p n off fi s)"
| "bb_oper sys bd (Write p bs off fi) s = plain (bb_write sys bd p bs off fi s)"
| "bb_oper sys bd (Statfs p) s = statvfs_reply (bb_statfs sys bd p s)"
| "bb_oper sys bd (Flush p fi) s = plain (bb_flush p fi s)"
| "bb_oper sys bd (Release p fi) s = plain (bb_release sys p fi s)"
| "bb_oper sys bd (Fsync p ds fi) s = plain (bb_fsync sys p ds fi s)"
| "bb_oper sys bd (Setxattr p n v f) s = plain (bb_setxattr sys bd p n v f s)"
| "bb_oper sys bd (Getxattr p n k) s = bytes (bb_getxattr sys bd p n k s)"
| "bb_oper sys bd (Listxattr p k) s = bytes (bb_listxattr sys bd p k s)"
| "bb_oper sys bd (Removexattr p n) s = plain (bb_removexattr sys bd p n s)"
| "bb_oper sys bd (Opendir p fi) s = handle (bb_opendir sys bd p fi s)"
| "bb_oper sys bd (Releasedir p fi) s = plain (bb_releasedir sys p fi s)"
| "bb_oper sys bd (Fsyncdir p ds fi) s = plain (bb_fsyncdir p ds fi s)"
| "bb_oper sys bd (Access p m) s = plain (bb_access sys bd p m s)"
| "bb_oper sys bd (Create p m fi) s = handle (bb_create sys bd p m fi s)"
| "bb_oper sys bd (Ftruncate p n fi) s = plain (bb_ftruncate sys p n fi s)"
| "bb_oper sys bd (Fgetattr p fi) s = stat_reply (bb_fgetattr sys p fi s)"

section \<open>The main program\<close>

text \<open>
  How the program ends: an exit code, an abort, or the call of \<open>fuse_main\<close> with its arguments
  and the private data. \<open>realpath\<close>, \<open>atoi\<close>, the user ids and the success of \<open>malloc\<close> and
  \<open>log_open\<close> are parameters.
\<close>

datatype outcome = Exit int | Abort | Fuse_main "string list" bb_state

definition starts_hyphen :: "string \<Rightarrow> bool" where
  "starts_hyphen a \<longleftrightarrow> a \<noteq> [] \<and> hd a = CHR ''-''"

definition bb_main ::
  "int \<Rightarrow> int \<Rightarrow> (string \<Rightarrow> string option) \<Rightarrow> (string \<Rightarrow> int) \<Rightarrow> bool \<Rightarrow> bool \<Rightarrow> string list \<Rightarrow> outcome" where
  "bb_main uid euid realpath atoi malloced logged argv =
     (let argc = length argv in
      if uid = 0 \<or> euid = 0 then Exit 1
      else if argc < 4 \<or> starts_hyphen (argv ! (argc - 3)) \<or> starts_hyphen (argv ! (argc - 2)) \<or>
        starts_hyphen (argv ! (argc - 1)) then Abort
      else if \<not> malloced then Abort
      else
        let root = realpath (argv ! (argc - 3));
            argv1 = argv[argc - 3 := argv ! (argc - 2)] in
        if \<not> logged then Exit 1
        else Fuse_main (take (argc - 2) argv1) \<lparr>rootdir = root, owner = atoi (argv1 ! (argc - 1))\<rparr>)"

end
