(* ===== verification/Bbfs_Props.thy ===== *)
theory Bbfs_Props
  imports Bbfs
begin

text \<open>
  Properties of \<open>hw7_fuse/src/bbfs.c\<close>: the cipher and what reaches the disk, writing and reading back,
  the error convention over the whole table of handlers, paths, refused operations, directory
  listing, extended attributes and the command line.
\<close>

section \<open>The cipher\<close>

text \<open>What the file system needs from a pair of byte ciphers, and what follows for buffers.\<close>

locale byte_cipher =
  fixes enc :: "byte \<Rightarrow> byte" and dec :: "byte \<Rightarrow> byte"
  assumes dec_enc: "dec (enc c) = c"
begin

lemma map_dec_enc: "map dec (map enc xs) = xs"
  by (induction xs) (simp_all add: dec_enc)

lemma map_enc_inj: "map enc xs = map enc ys \<longleftrightarrow> xs = ys"
  by (metis map_dec_enc)

lemma take_dec_enc: "map dec (take n (map enc xs)) = take n xs"
  by (simp only: take_map map_dec_enc)

end

lemma char_of_rem: "char_of_int (c_rem a 256) = of_int a"
proof -
  have "\<bar>a\<bar> mod 256 = \<bar>a\<bar> - 256 * (\<bar>a\<bar> div 256)" by (simp add: minus_mult_div_eq_mod)
  then have "c_rem a 256 = sgn a * \<bar>a\<bar> - 256 * (sgn a * (\<bar>a\<bar> div 256))"
    by (simp add: c_rem_def right_diff_distrib)
  moreover have "sgn a * \<bar>a\<bar> = a" by (simp add: sgn_mult_abs)
  ultimately have "c_rem a 256 = a - 256 * (sgn a * (\<bar>a\<bar> div 256))" by simp
  then have "char_of_int (c_rem a 256) = of_int a - of_int 256 * of_int (sgn a * (\<bar>a\<bar> div 256))"
    by (simp only: char_of_int_def of_int_diff of_int_mult)
  moreover have "(of_int 256 :: byte) = 0" by simp
  ultimately show ?thesis by (simp only: mult_zero_left diff_zero)
qed

lemma encrypt_eq: "encrypt c = c + 1"
  by (simp add: encrypt_def char_of_rem)

lemma decrypt_eq: "decrypt c = c - 1"
  by (cases "c = 0") (simp_all add: decrypt_def char_of_rem signed_eq_0_iff char_of_int_def [of 255])

interpretation bb: byte_cipher encrypt decrypt
  by unfold_locales (simp add: encrypt_eq decrypt_eq)

lemma apply_from_map: "k + n = length buf \<Longrightarrow> apply_from f k n buf = take k buf @ map f (drop k buf)"
proof (induction n arbitrary: k buf)
  case (Suc n)
  then have k: "k < length buf" by simp
  have "apply_from f (Suc k) n (buf[k := f (buf ! k)]) =
      take (Suc k) (buf[k := f (buf ! k)]) @ map f (drop (Suc k) buf)"
    using Suc.IH [of "Suc k" "buf[k := f (buf ! k)]"] Suc.prems by simp
  also have "\<dots> = take k buf @ map f (drop k buf)"
    using k by (simp add: take_Suc_conv_app_nth Cons_nth_drop_Suc [symmetric])
  finally show ?case by simp
qed simp

lemma apply_all [simp]: "n = length buf \<Longrightarrow> apply_from f 0 n buf = map f buf"
  by (simp add: apply_from_map)

section \<open>A concrete file system\<close>

text \<open>One open file (descriptor 3) of the user 1000 below \<open>/disk\<close>; every other call fails with error 2.\<close>

definition fail2 :: "byte list \<Rightarrow> int \<times> byte list" where "fail2 w = (-1, w)"
definition fail3 :: "'o \<Rightarrow> byte list \<Rightarrow> int \<times> 'o \<times> byte list" where "fail3 out w = (-1, out, w)"

definition no_stat :: log_stat_buf where
  "no_stat = \<lparr>st_dev = 0, st_ino = 0, st_mode = 0, st_nlink = 0, st_uid = 0, st_gid = 0, st_rdev = 0, st_size = 0,
     st_blksize = 0, st_blocks = 0, st_atime = 0, st_mtime = 0, st_ctime = 0\<rparr>"

definition no_statvfs :: log_statvfs_buf where
  "no_statvfs = \<lparr>f_bsize = 0, f_frsize = 0, f_blocks = 0, f_bfree = 0, f_bavail = 0, f_files = 0, f_ffree = 0,
     f_favail = 0, f_fsid = 0, f_flag = 0, f_namemax = 0\<rparr>"

definition demo_sys :: "byte list sys" where
  "demo_sys = \<lparr>errno = (\<lambda>w. 2), getuid = (\<lambda>w. 1000),
     sys_lstat = (\<lambda>p. fail3 no_stat), sys_readlink = (\<lambda>p n. fail3 []), sys_open = (\<lambda>p f m. fail2), sys_close = (\<lambda>fd. fail2),
     sys_mkfifo = (\<lambda>p m. fail2), sys_mknod = (\<lambda>p m dv. fail2), sys_mkdir = (\<lambda>p m. fail2), sys_unlink = (\<lambda>p. fail2),
     sys_rmdir = (\<lambda>p. fail2), sys_symlink = (\<lambda>p q. fail2), sys_rename = (\<lambda>p q. fail2), sys_link = (\<lambda>p q. fail2),
     sys_chmod = (\<lambda>p m. fail2), sys_chown = (\<lambda>p u g. fail2), sys_truncate = (\<lambda>p n. fail2), sys_utime = (\<lambda>p t. fail2),
     sys_pread = (\<lambda>fd n off w. let bs = take n (drop (nat off) w) in (int (length bs), bs, w)),
     sys_pwrite = (\<lambda>fd bs off w. if fd = 3 \<and> nat off \<le> length w
       then (int (length bs), take (nat off) w @ bs @ drop (nat off + length bs) w) else (-1, w)),
     sys_statvfs = (\<lambda>p. fail3 no_statvfs), sys_fdatasync = (\<lambda>fd. fail2), sys_fsync = (\<lambda>fd. fail2),
     sys_lsetxattr = (\<lambda>p n v f. fail2), sys_lgetxattr = (\<lambda>p n k. fail3 []),
     sys_llistxattr = (\<lambda>p k w. if k = 0 then (2, [], w) else (2, [97, 0], w)), sys_lremovexattr = (\<lambda>p n. fail2),
     sys_opendir = (\<lambda>p w. (5, w)),
     sys_readdir = (\<lambda>dp w. case w of [] \<Rightarrow> (None, w) | c # cs \<Rightarrow> (Some [char_of (unat c)], cs)),
     sys_closedir = (\<lambda>dp. fail2), sys_access = (\<lambda>p m. fail2), sys_creat = (\<lambda>p m. fail2),
     sys_ftruncate = (\<lambda>fd n. fail2), sys_fstat = (\<lambda>fd. fail3 no_stat), malloc_bytes = (\<lambda>n w. True)\<rparr>"

lemma demo_sys_simps [simp]:
  "errno demo_sys w = 2" "getuid demo_sys w = 1000" "malloc_bytes demo_sys n w"
  "sys_pread demo_sys fd n off w = (int (length (take n (drop (nat off) w))), take n (drop (nat off) w), w)"
  "sys_pwrite demo_sys fd bs off w = (if fd = 3 \<and> nat off \<le> length w
     then (int (length bs), take (nat off) w @ bs @ drop (nat off + length bs) w) else (-1, w))"
  "sys_llistxattr demo_sys p k w = (if k = 0 then (2, [], w) else (2, [97, 0], w))"
  "sys_readdir demo_sys dp w = (case w of [] \<Rightarrow> (None, w) | c # cs \<Rightarrow> (Some [char_of (unat c)], cs))"
  "sys_truncate demo_sys p k1 w = (-1, w)" "sys_unlink demo_sys p w = (-1, w)" "sys_close demo_sys fd w = (-1, w)"
  "sys_fsync demo_sys fd w = (-1, w)" "sys_fdatasync demo_sys fd w = (-1, w)"
  by (simp_all add: demo_sys_def fail2_def Let_def)

definition demo_bd :: bb_state where "demo_bd = \<lparr>rootdir = Some ''/disk'', owner = 1000\<rparr>"
definition demo_fi :: fuse_file_info where
  "demo_fi = \<lparr>fi_flags = 2, fi_fh_old = 0, fi_writepage = 0, fi_direct_io = False, fi_keep_cache = False, fi_fh = 3, fi_lock_owner = 0\<rparr>"
definition demo_bb :: "byte list \<Rightarrow> byte list bb" where "demo_bb w = \<lparr>world = w, logfile = [], buffers = 0\<rparr>"

lemma demo_fd [simp]: "fd_of demo_fi = 3"
  by (simp add: fd_of_def demo_fi_def int_of_long_def)

text \<open>What the helpers of the handlers do.\<close>

lemma call_simps:
  "world (say e s) = world s" "buffers (say e s) = buffers s" "logfile (say e s) = logfile s @ [e]"
  "say e (s\<lparr>world := w\<rparr>) = s\<lparr>world := w, logfile := logfile s @ [e]\<rparr>"
  "bb_error sys str s = (- errno sys (world s), say (Failed str (errno sys (world s))) s)"
  "fail_on b sys str r s = (if b then bb_error sys str s else (r, s))"
  "say_call name strs nums fi s = s\<lparr>logfile := logfile s @ [Entered name strs nums, File_info fi]\<rparr>"
  by (simp_all add: say_def bb_error_def fail_on_def say_call_def Let_def)

lemma say_all: "foldl (\<lambda>s a. say (f a) s) s as = s\<lparr>logfile := logfile s @ map f as\<rparr>"
  by (induction as arbitrary: s) (simp_all add: say_def)

section \<open>Writing and reading\<close>

text \<open>C14: \<open>bb_write\<close> sends the bytes, each plus one modulo 256, to \<open>pwrite\<close> when the daemon runs as
  the user named at mount time, and the bytes as they are otherwise; \<open>bb_read\<close> answers what
  \<open>pread\<close> delivered, each byte minus one modulo 256 for that user and as it is otherwise; errors
  are \<open>-errno\<close> and are logged after the request. The copy \<open>bb_write\<close> makes is never freed.\<close>

theorem bb_write_read_bytes:
  assumes "malloc_bytes sys (length buf) (world s)"
    and "\<And>r bs w. sys_pread sys (fd_of fi) n off (world s) = (r, bs, w) \<Longrightarrow> 0 \<le> r \<Longrightarrow> length bs = nat r"
  shows "bb_write sys bd path buf off fi s =
      (case sys_pwrite sys (fd_of fi) (if owner bd = getuid sys (world s) then map (\<lambda>c. c + 1) buf else buf) off (world s)
       of (r, w) \<Rightarrow> Inr (if r < 0 then - errno sys w else r, s\<lparr>world := w, buffers := buffers s + 1,
         logfile := logfile s @ [Entered ''bb_write'' [path] [int (length buf), off], File_info fi] @
           (if r < 0 then [Failed ''bb_write pwrite'' (errno sys w)] else [])\<rparr>)) \<and>
    bb_read sys bd path n off fi s =
      (case sys_pread sys (fd_of fi) n off (world s) of (r, bs, w) \<Rightarrow>
        Inr (if r < 0 then - errno sys w else r,
             if r < 0 then [] else if owner bd = getuid sys w then map (\<lambda>c. c - 1) bs else bs,
             s\<lparr>world := w, logfile := logfile s @ [Entered ''bb_read'' [path] [int n, off], File_info fi] @
               (if r < 0 then [Failed ''bb_read read'' (errno sys w)] else [])\<rparr>))"
    (is "?wr \<and> ?rd")
proof
  have enc: "map encrypt buf = map (\<lambda>c. c + 1) buf" by (simp add: encrypt_eq)
  show ?wr
    using assms(1) by (simp add: bb_write_def checked_def call_def call_simps enc Let_def split: prod.split)
next
  obtain r bs w where p: "sys_pread sys (fd_of fi) n off (world s) = (r, bs, w)" by (metis prod_cases3)
  have "map decrypt bs = map (\<lambda>c. c - 1) bs" by (simp add: decrypt_eq)
  with p assms(2) [OF p] show ?rd
    by (simp add: bb_read_def call_out_def call_simps Let_def)
qed

text \<open>The README's file: ``12345'' is stored as ``23456'', and another user reads ``23456''.\<close>

theorem bb_write_read_bytes_witness:
  "(\<exists>s1. bb_write demo_sys demo_bd ''/f'' [49, 50, 51, 52, 53] 0 demo_fi (demo_bb []) = Inr (5, s1) \<and>
     world s1 = [50, 51, 52, 53, 54] \<and> buffers s1 = 1 \<and> logfile s1 = [Entered ''bb_write'' [''/f''] [5, 0], File_info demo_fi]) \<and>
   (\<exists>s2. bb_read demo_sys (demo_bd\<lparr>owner := 1001\<rparr>) ''/f'' 4096 0 demo_fi (demo_bb [50, 51, 52, 53, 54]) =
     Inr (5, [50, 51, 52, 53, 54], s2))"
proof
  show "\<exists>s1. bb_write demo_sys demo_bd ''/f'' [49, 50, 51, 52, 53] 0 demo_fi (demo_bb []) = Inr (5, s1) \<and>
     world s1 = [50, 51, 52, 53, 54] \<and> buffers s1 = 1 \<and> logfile s1 = [Entered ''bb_write'' [''/f''] [5, 0], File_info demo_fi]"
    using bb_write_read_bytes [of demo_sys "[49, 50, 51, 52, 53]" "demo_bb []" demo_fi 0 0 demo_bd "''/f''"]
    by (simp add: demo_bb_def demo_bd_def)
  show "\<exists>s2. bb_read demo_sys (demo_bd\<lparr>owner := 1001\<rparr>) ''/f'' 4096 0 demo_fi (demo_bb [50, 51, 52, 53, 54]) =
      Inr (5, [50, 51, 52, 53, 54], s2)"
    using bb_write_read_bytes [of demo_sys "[]" "demo_bb [50, 51, 52, 53, 54]" demo_fi 4096 0 "demo_bd\<lparr>owner := 1001\<rparr>" "''/f''"]
    by (simp add: demo_bb_def demo_bd_def)
qed

text \<open>What the two system calls promise of a file: what \<open>pwrite\<close> accepted, \<open>pread\<close> at the same offset
  delivers, and neither changes the caller's user id.\<close>

definition file_ok :: "'w sys \<Rightarrow> int \<Rightarrow> bool" where
  "file_ok sys fd \<longleftrightarrow> (\<forall>bs off w n w1. sys_pwrite sys fd bs off w = (n, w1) \<longrightarrow> 0 \<le> n \<longrightarrow>
     n \<le> int (length bs) \<and> getuid sys w1 = getuid sys w \<and>
     (\<exists>w2. sys_pread sys fd (nat n) off w1 = (n, take (nat n) bs, w2) \<and> getuid sys w2 = getuid sys w1))"

lemma demo_file_ok: "file_ok demo_sys fd"
  by (auto simp: file_ok_def split: if_splits)

text \<open>C15: Reading back what \<open>bb_write\<close> reported as written returns the caller's bytes, for the mounted user
  and for any other, whatever the bytes.\<close>

theorem bb_write_read_roundtrip:
  assumes "file_ok sys (fd_of fi)" "bb_write sys bd path buf off fi s = Inr (n, s1)" "0 \<le> n"
    and "\<And>w. 0 < errno sys w"
  shows "\<exists>s2. bb_read sys bd path (nat n) off fi s1 = Inr (n, take (nat n) buf, s2)"
proof -
  let ?data = "if owner bd = getuid sys (world s) then map encrypt buf else buf"
  obtain w1 where w1: "sys_pwrite sys (fd_of fi) ?data off (world s) = (n, w1)" "world s1 = w1"
    using assms(2-4) by (auto simp: bb_write_def Let_def checked_def call_def call_simps say_def split: if_splits prod.splits)
      (metis add.inverse_inverse neg_less_0_iff_less order.strict_iff_not)+
  then obtain w2 where w2: "n \<le> int (length ?data)" "getuid sys w1 = getuid sys (world s)"
    "sys_pread sys (fd_of fi) (nat n) off w1 = (n, take (nat n) ?data, w2)" "getuid sys w2 = getuid sys w1"
    using assms(1,3) unfolding file_ok_def by blast
  have len: "length (take (nat n) ?data) = nat n" using w2(1) assms(3) by (cases "owner bd = getuid sys (world s)") auto
  show ?thesis
  proof (cases "owner bd = getuid sys (world s)")
    case True
    then have "map decrypt (take (nat n) ?data) = take (nat n) buf" by (simp add: bb.take_dec_enc)
    then show ?thesis
      using True w1(2) w2 len assms(3) by (simp add: bb_read_def call_out_def call_simps Let_def)
  next
    case False
    then show ?thesis using w1(2) w2 assms(3) by (simp add: bb_read_def call_out_def call_simps Let_def)
  qed
qed

theorem bb_write_read_roundtrip_witness:
  "\<exists>s1 s2. bb_write demo_sys demo_bd ''/f'' [0, 255, 127, 128] 0 demo_fi (demo_bb []) = Inr (4, s1) \<and>
     bb_read demo_sys demo_bd ''/f'' 4 0 demo_fi s1 = Inr (4, [0, 255, 127, 128], s2)"
proof -
  obtain s1 where s1: "bb_write demo_sys demo_bd ''/f'' [0, 255, 127, 128] 0 demo_fi (demo_bb []) = Inr (4, s1)"
    by (simp add: bb_write_def checked_def call_def call_simps say_def demo_bb_def Let_def)
  from bb_write_read_roundtrip [OF demo_file_ok this] s1 show ?thesis by simp
qed

section \<open>Errors\<close>

text \<open>The three handlers that return the system call's own result.\<close>

fun returns_raw :: "request \<Rightarrow> bool" where
  "returns_raw (Truncate p n) = True"
| "returns_raw (Release p fi) = True"
| "returns_raw (Fsync p ds fi) = True"
| "returns_raw _ = False"

lemma checked_neg: "checked sys str f s = (r, s') \<Longrightarrow> r < 0 \<Longrightarrow> r = - errno sys (world s')"
  by (auto simp: checked_def call_simps split: prod.splits if_splits)

lemmas handler_defs = bb_getattr_def bb_readlink_def bb_mknod_def bb_mkdir_def bb_unlink_def bb_rmdir_def
  bb_symlink_def bb_rename_def bb_link_def bb_chmod_def bb_chown_def bb_truncate_def bb_utime_def bb_statfs_def
  bb_access_def bb_open_def bb_create_def bb_read_def bb_write_def bb_flush_def bb_release_def bb_fsync_def
  bb_ftruncate_def bb_fgetattr_def bb_setxattr_def bb_getxattr_def bb_listxattr_def bb_removexattr_def
  bb_opendir_def bb_releasedir_def bb_fsyncdir_def plain_def bytes_def handle_def stat_reply_def statvfs_reply_def

lemma raw_ret:
  assumes "bb_oper sys bd req s = Inr (r, out, s')" "r < 0" "returns_raw req"
    and "\<And>p k w. fst (sys_truncate sys p k w) \<ge> -1" "\<And>fd w. fst (sys_close sys fd w) \<ge> -1"
      "\<And>fd w. fst (sys_fsync sys fd w) \<ge> -1" "\<And>fd w. fst (sys_fdatasync sys fd w) \<ge> -1"
  shows "r = -1"
  using assms(1-3)
proof (cases req)
  case (Truncate p k)
  then have "\<exists>fpath w. r = fst (sys_truncate sys fpath k w)"
    using assms(1) by (auto simp: bindE_Inr_iff plain_def bb_truncate_def call_def case_prod_beta Let_def)
  then obtain fpath w where "r = fst (sys_truncate sys fpath k w)" by blast
  then show ?thesis using assms(2) assms(4) [of fpath k w] by simp
next
  case (Release p fi)
  then show ?thesis using assms(1,2) assms(5) [where w = "world s" and fd = "fd_of fi"]
    by (auto simp: bindE_Inr_iff plain_def bb_release_def call_def call_simps Let_def split: prod.splits)
next
  case (Fsync p ds fi)
  then show ?thesis
    using assms(1,2) assms(6) [where w = "world s" and fd = "fd_of fi"] assms(7) [where w = "world s" and fd = "fd_of fi"]
    by (auto simp: bindE_Inr_iff plain_def bb_fsync_def call_def call_simps Let_def split: prod.splits if_splits)
qed auto

lemma checked_ret:
  assumes "bb_oper sys bd req s = Inr (r, out, s')" "r < 0" "\<not> returns_raw req"
  shows "r = - errno sys (world s')"
  using assms
  by (cases req; auto simp: bindE_Inr_iff handler_defs Let_def call_out_def call_simps call_def say_all
      split: prod.splits if_splits dest!: checked_neg)



section \<open>Paths and refused operations\<close>

text \<open>C18: A path of the mounted file system becomes the root directory followed by the path, never
  truncated, when both fit into \<open>PATH_MAX\<close> bytes with the terminator; a longer one overruns the stack buffer
  (\<open>strncat\<close> is given the whole buffer's size, not what is left of it), whatever the request.\<close>

theorem bb_fullpath_bounds:
  assumes "rootdir bd = Some root"
  shows "bb_fullpath bd path s = (if length root + length path < 4096
       then Inr (root @ path, say (Fullpath root path (root @ path)) s) else Inl Overrun) \<and>
    (4096 \<le> length root + length path \<longrightarrow>
       bb_oper sys bd (Unlink path) s = Inl Overrun \<and> bb_oper sys bd (Open path fi) s = Inl Overrun \<and>
       bb_oper sys bd (Getattr path) s = Inl Overrun \<and> bb_oper sys bd (Mkdir path m) s = Inl Overrun)"
proof -
  have "bb_fullpath bd path s = (if length root + length path < 4096
      then Inr (root @ path, say (Fullpath root path (root @ path)) s) else Inl Overrun)" for s :: "'a bb"
    using assms by (auto simp: bb_fullpath_def PATH_MAX_def Let_def min_def)
  then show ?thesis
    by (simp add: plain_def stat_reply_def handle_def bb_unlink_def bb_open_def bb_getattr_def bb_mkdir_def Let_def)
qed

theorem bb_fullpath_bounds_witness:
  "bb_fullpath demo_bd ''/a'' (demo_bb []) = Inr (''/disk/a'', demo_bb []\<lparr>logfile := [Fullpath ''/disk'' ''/a'' ''/disk/a'']\<rparr>) \<and>
   bb_oper demo_sys demo_bd (Unlink (replicate 4096 CHR ''x'')) (demo_bb []) = Inl Overrun"
  using bb_fullpath_bounds [of demo_bd "''/disk''" "''/a''" "demo_bb []"]
    bb_fullpath_bounds [of demo_bd "''/disk''" "replicate 4096 CHR ''x''" "demo_bb []" demo_sys]
  by (simp add: demo_bd_def demo_bb_def say_def)

text \<open>\<open>bb_chmod\<close> by a daemon that does not run as the mounted user changes nothing in the
  underlying file system and records the attempt with the path, but reports success.\<close>

theorem bb_chmod_refused:
  assumes "owner bd \<noteq> getuid sys (world s)" "rootdir bd = Some root" "length root + length path < 4096"
  shows "\<exists>s'. bb_oper sys bd (Chmod path mode) s = Inr (0, Nothing, s') \<and> world s' = world s \<and>
     logfile s' = logfile s @ [Entered ''bb_chmod'' [path] [uint mode], Fullpath root path (root @ path), Illegal (getuid sys (world s)) path]"
  using assms by (auto simp: plain_def bb_chmod_def bb_fullpath_def PATH_MAX_def Let_def call_simps)

theorem bb_chmod_refused_witness:
  "\<exists>s'. bb_oper demo_sys (demo_bd\<lparr>owner := 1001\<rparr>) (Chmod ''/test.txt'' 0x1ED) (demo_bb []) = Inr (0, Nothing, s') \<and>
     world s' = [] \<and> last (logfile s') = Illegal 1000 ''/test.txt''"
  using bb_chmod_refused [of "demo_bd\<lparr>owner := 1001\<rparr>" demo_sys "demo_bb []" "''/disk''" "''/test.txt''" "0x1ED"]
  by (auto simp: demo_bd_def demo_bb_def)

section \<open>Listing\<close>

text \<open>A directory stream that delivers the names \<open>es\<close> and then ends.\<close>

fun dir_holds :: "'w sys \<Rightarrow> 64 word \<Rightarrow> string list \<Rightarrow> 'w \<Rightarrow> bool" where
  "dir_holds sys dp [] w \<longleftrightarrow> fst (sys_readdir sys dp w) = None"
| "dir_holds sys dp (e # es) w \<longleftrightarrow> (\<exists>w'. sys_readdir sys dp w = (Some e, w') \<and> dir_holds sys dp es w')"

lemma readdir_loop_all:
  "dir_holds sys (fi_fh fi) es (world s) \<Longrightarrow> length es < k \<Longrightarrow>
     (\<And>xs y ys. de # es = xs @ y # ys \<Longrightarrow> filler (out @ xs) y = 0) \<Longrightarrow>
     \<exists>s'. readdir_loop sys fi filler k de out s = Some (0, out @ de # es, s') \<and>
       logfile s' = logfile s @ map Filler (de # es) @ [File_info fi]"
proof (induction es arbitrary: k de out s)
  case Nil
  then obtain j where "k = Suc j" by (cases k) auto
  then show ?case using Nil.prems(1) Nil.prems(3) [of "[]" de "[]"]
    by (auto simp: call_def call_simps Let_def split: prod.splits)
next
  case (Cons e es)
  then obtain j where j: "k = Suc j" "length es < j" by (cases k) auto
  obtain w' where w': "sys_readdir sys (fi_fh fi) (world s) = (Some e, w')" "dir_holds sys (fi_fh fi) es w'"
    using Cons.prems(1) by auto
  have "filler ((out @ [de]) @ xs) y = 0" if "e # es = xs @ y # ys" for xs y ys
    using Cons.prems(3) [of "de # xs" y ys] that by simp
  from Cons.IH [of "(say (Filler de) s)\<lparr>world := w'\<rparr>" j e "out @ [de]"] w'(2) j(2) this
  obtain s' where "readdir_loop sys fi filler j e (out @ [de]) ((say (Filler de) s)\<lparr>world := w'\<rparr>) = Some (0, out @ de # e # es, s')"
    "logfile s' = logfile s @ map Filler (de # e # es) @ [File_info fi]" by (auto simp: call_simps)
  moreover have "filler out de = 0" using Cons.prems(3) [of "[]" de "e # es"] by simp
  ultimately show ?case using j(1) w'(1) by (simp add: call_def call_simps Let_def)
qed

text \<open>C19: Listing a directory whose stream holds a nonempty list of names ends after as many iterations as
  there are names, hands exactly these names to \<open>filler\<close>, in order, and returns 0, as long as
  \<open>filler\<close> takes them; an empty stream is reported as an error.\<close>

theorem bb_readdir_lists:
  assumes "dir_holds sys (fi_fh fi) es (world s)" "length es \<le> k"
    and "\<And>xs y. filler xs y \<noteq> 0 \<Longrightarrow> length es \<le> length xs"
  shows "\<exists>s'. bb_readdir sys path filler off k fi s = Some (if es = [] then - errno sys (world s') else 0, es, s') \<and>
     logfile s' = logfile s @ Entered ''bb_readdir'' [path] [off] #
       (if es = [] then [Failed ''bb_readdir readdir'' (errno sys (world s'))] else map Filler es @ [File_info fi])"
proof (cases es)
  case Nil
  then show ?thesis using assms(1) by (auto simp: bb_readdir_def call_def call_simps Let_def split: prod.splits)
next
  case (Cons e es')
  let ?s = "say (Entered ''bb_readdir'' [path] [off]) s"
  obtain w' where w': "sys_readdir sys (fi_fh fi) (world s) = (Some e, w')" "dir_holds sys (fi_fh fi) es' w'"
    using assms(1) Cons by auto
  have "filler ([] @ xs) y = 0" if "e # es' = xs @ y # ys" for xs y ys
    using assms(3) [of xs y] Cons that by (metis append_Nil length_append length_Cons not_add_less1 add_Suc_right
        le_imp_less_Suc less_add_Suc1 not_less)
  then obtain s' where "readdir_loop sys fi filler k e [] (?s\<lparr>world := w'\<rparr>) = Some (0, [] @ e # es', s')"
    "logfile s' = logfile ?s @ map Filler (e # es') @ [File_info fi]"
    using readdir_loop_all [of sys fi es' "?s\<lparr>world := w'\<rparr>" k e filler "[]"] w'(2) assms(2) Cons by auto
  then show ?thesis using Cons w'(1) by (simp add: bb_readdir_def call_def call_simps Let_def)
qed

theorem bb_readdir_lists_witness:
  "\<exists>s'. bb_readdir demo_sys ''/'' (\<lambda>xs y. if length xs < 2 then 0 else 1) 0 2 demo_fi (demo_bb [97, 98]) =
     Some (0, [''a'', ''b''], s')"
proof -
  have "dir_holds demo_sys (fi_fh demo_fi) [''a'', ''b''] (world (demo_bb [97, 98]))"
    by (simp add: demo_bb_def char_of_def bit_0)
  moreover have "length [''a'', ''b''] \<le> length xs" if "(if length xs < 2 then 0 else 1 :: int) \<noteq> 0" for xs :: "string list"
    using that by (simp split: if_splits)
  ultimately have "\<exists>s'. bb_readdir demo_sys ''/'' (\<lambda>xs y. if length xs < 2 then 0 else 1) 0 2 demo_fi (demo_bb [97, 98]) =
      Some (if [''a'', ''b''] = [] then - errno demo_sys (world s') else 0, [''a'', ''b''], s') \<and>
      logfile s' = logfile (demo_bb [97, 98]) @ Entered ''bb_readdir'' [''/''] [0] #
        (if [''a'', ''b''] = [] then [Failed ''bb_readdir readdir'' (errno demo_sys (world s'))]
         else map Filler [''a'', ''b''] @ [File_info demo_fi])"
    by (intro bb_readdir_lists) simp_all
  then show ?thesis by auto
qed

text \<open>A walk whose last byte is a terminator stays inside the list.\<close>

lemma log_text_ends: "0 \<in> set buf \<Longrightarrow> \<exists>a. log_text buf = Inr a"
  by (simp add: log_text_def)

lemma walk_list_inside:
  "n \<le> length buf \<Longrightarrow> 0 < n \<Longrightarrow> buf ! (n - 1) = 0 \<Longrightarrow> \<exists>as. walk_list buf pos n = Inr as"
proof (induction buf pos n rule: walk_list.induct)
  case (1 buf pos n)
  show ?case
  proof (cases "pos < n")
    case True
    then have "drop pos buf ! (n - 1 - pos) = 0" "n - 1 - pos < length (drop pos buf)" using "1.prems" by auto
    then have "0 \<in> set (drop pos buf)" by (metis nth_mem)
    then obtain a where a: "log_text (drop pos buf) = Inr a" using log_text_ends by blast
    from "1.IH" [OF True this "1.prems"] obtain as
      where "walk_list buf (pos + length (takeWhile (\<lambda>c. c \<noteq> 0) (drop pos buf)) + 1) n = Inr as" by blast
    with True a show ?thesis by (subst walk_list.simps) simp
  next
    case False
    then show ?thesis by (subst walk_list.simps) simp
  qed
qed

text \<open>Asking for the size of the attribute list (a size of 0, the first half of the usual
  protocol) on a file that has attributes reads past the caller's buffer: the handler walks as
  many bytes of the list as the call reported, not as many as the buffer holds. With a buffer
  that holds the reported list of terminated names the walk stays inside and the list is returned.\<close>

theorem bb_listxattr_walk:
  assumes "rootdir bd = Some root" "length root + length path < 4096"
    and "sys_llistxattr sys (root @ path) sz (world s) = (r, buf, w)" "0 < r"
  shows "(buf = [] \<longrightarrow> bb_oper sys bd (Listxattr path sz) s = Inl Overrun) \<and>
     (nat r \<le> length buf \<longrightarrow> buf ! (nat r - 1) = 0 \<longrightarrow>
        (\<exists>as s'. bb_oper sys bd (Listxattr path sz) s = Inr (r, Bytes buf, s') \<and> world s' = w \<and>
           walk_list buf 0 (nat r) = Inr as \<and> logfile s' = logfile s @ [Entered ''bb_listxattr'' [path] [int sz],
             Fullpath root path (root @ path), Attributes r] @ map Attribute as))"
proof -
  let ?s = "s\<lparr>world := w, logfile := logfile s @ [Entered ''bb_listxattr'' [path] [int sz], Fullpath root path (root @ path), Attributes r]\<rparr>"
  have run: "bb_oper sys bd (Listxattr path sz) s =
      bytes (bindE (walk_list buf 0 (nat r)) (\<lambda>as. Inr (r, buf, foldl (\<lambda>s a. say (Attribute a) s) ?s as)))"
    using assms by (simp add: bb_listxattr_def bb_fullpath_def PATH_MAX_def call_out_def Let_def call_simps say_def)
  have "walk_list [] 0 (nat r) = Inl Overrun" using assms(4) by (subst walk_list.simps) (simp add: log_text_def)
  moreover have "\<exists>as. walk_list buf 0 (nat r) = Inr as" if "nat r \<le> length buf" "buf ! (nat r - 1) = 0"
    by (rule walk_list_inside) (use that assms(4) in auto)
  ultimately show ?thesis unfolding run by (auto simp: bytes_def say_all)
qed

theorem bb_listxattr_walk_witness:
  "bb_oper demo_sys demo_bd (Listxattr ''/f'' 0) (demo_bb []) = Inl Overrun \<and>
   (\<exists>s'. bb_oper demo_sys demo_bd (Listxattr ''/f'' 2) (demo_bb []) = Inr (2, Bytes [97, 0], s'))"
proof
  have call: "sys_llistxattr demo_sys (''/disk'' @ ''/f'') 0 (world (demo_bb [])) = (2, [], [])"
    "sys_llistxattr demo_sys (''/disk'' @ ''/f'') 2 (world (demo_bb [])) = (2, [97, 0], [])"
    by (simp_all add: demo_bb_def)
  have root: "rootdir demo_bd = Some ''/disk''" "length ''/disk'' + length ''/f'' < 4096" by (simp_all add: demo_bd_def)
  show "bb_oper demo_sys demo_bd (Listxattr ''/f'' 0) (demo_bb []) = Inl Overrun"
    using bb_listxattr_walk [OF root call(1)] by simp
  show "\<exists>s'. bb_oper demo_sys demo_bd (Listxattr ''/f'' 2) (demo_bb []) = Inr (2, Bytes [97, 0], s')"
    using bb_listxattr_walk [OF root call(2)] by auto
qed

section \<open>The command line\<close>

text \<open>With the command line \<open>bbfs options... rootDir mountPoint uid\<close>, run by an ordinary user, none of
  the last three arguments starting with a hyphen, \<open>fuse_main\<close> gets the program name, the
  options and the mount point, in order, and the root directory's real path and the user id as
  private data. Root is refused with exit code 1, fewer than four arguments abort.\<close>

theorem bb_main_arguments:
  assumes "pre \<noteq> []" "\<not> starts_hyphen root" "\<not> starts_hyphen mnt" "\<not> starts_hyphen user"
  shows "bb_main uid euid realpath atoi True True (pre @ [root, mnt, user]) =
     (if uid = 0 \<or> euid = 0 then Exit 1
      else Fuse_main (pre @ [mnt]) \<lparr>rootdir = realpath root, owner = atoi user\<rparr>) \<and>
   (uid \<noteq> 0 \<longrightarrow> euid \<noteq> 0 \<longrightarrow> length argv < 4 \<longrightarrow> bb_main uid euid realpath atoi True True argv = Abort)"
proof -
  have n: "Suc (Suc (length pre)) - length pre = 2" by simp
  have "1 \<le> length pre" using assms(1) by (cases pre) auto
  then show ?thesis
    using assms(2-4) by (auto simp: bb_main_def Let_def nth_append list_update_append n)
qed

theorem bb_main_arguments_witness:
  "bb_main 1000 1000 (\<lambda>p. Some (''/home/'' @ p)) (\<lambda>a. 1000) True True [''./bbfs'', ''test_dir'', ''mount_dir'', ''1000''] =
     Fuse_main [''./bbfs'', ''mount_dir''] \<lparr>rootdir = Some ''/home/test_dir'', owner = 1000\<rparr>"
  using bb_main_arguments [of "[''./bbfs'']" "''test_dir''" "''mount_dir''" "''1000''" 1000 1000 "\<lambda>p. Some (''/home/'' @ p)" "\<lambda>a. 1000"]
  by (simp add: starts_hyphen_def)

end
