(* ===== verification/Bbfs_Log.thy ===== *)
theory Bbfs_Log
  imports Bbfs_Props
begin

text \<open>
  The log of \<open>hw7_fuse/src/bbfs.c\<close>: every request is reported first, with its arguments, and an error message follows
  exactly when the request failed, with one exception.
\<close>

text \<open>The message a request starts with: its strings and numbers. \<open>text_of\<close> is what \<open>%s\<close> prints of a buffer.\<close>

definition text_of :: "byte list \<Rightarrow> string" where
  "text_of buf = (case log_text buf of Inl e \<Rightarrow> [] | Inr a \<Rightarrow> a)"

primrec request_entry :: "request \<Rightarrow> log_entry" where
  "request_entry (Getattr p) = Entered ''bb_getattr'' [p] []"
| "request_entry (Readlink p l) = Entered ''bb_readlink'' [p, text_of l] [int (length l)]"
| "request_entry (Mknod p m dv) = Entered ''bb_mknod'' [p] [uint m, int dv]"
| "request_entry (Mkdir p m) = Entered ''bb_mkdir'' [p] [uint m]"
| "request_entry (Unlink p) = Entered ''bb_unlink'' [p] []"
| "request_entry (Rmdir p) = Entered ''bb_rmdir'' [p] []"
| "request_entry (Symlink p l) = Entered ''bb_symlink'' [p, l] []"
| "request_entry (Rename p q) = Entered ''bb_rename'' [p, q] []"
| "request_entry (Link p q) = Entered ''bb_link'' [p, q] []"
| "request_entry (Chmod p m) = Entered ''bb_chmod'' [p] [uint m]"
| "request_entry (Chown p u g) = Entered ''bb_chown'' [p] [int u, int g]"
| "request_entry (Truncate p n) = Entered ''bb_truncate'' [p] [n]"
| "request_entry (Utime p t) = Entered ''bb_utime'' [p] []"
| "request_entry (Open p fi) = Entered ''bb_open'' [p] []"
| "request_entry (Read p n off fi) = Entered ''bb_read'' [p] [int n, off]"
| "request_entry (Write p bs off fi) = Entered ''bb_write'' [p] [int (length bs), off]"
| "request_entry (Statfs p) = Entered ''bb_statfs'' [p] []"
| "request_entry (Flush p fi) = Entered ''bb_flush'' [p] []"
| "request_entry (Release p fi) = Entered ''bb_release'' [p] []"
| "request_entry (Fsync p ds fi) = Entered ''bb_fsync'' [p] [ds]"
| "request_entry (Setxattr p n v f) = Entered ''bb_setxattr'' [p, n, text_of v] [int (length v), f]"
| "request_entry (Getxattr p n k) = Entered ''bb_getxattr'' [p, n] [int k]"
| "request_entry (Listxattr p k) = Entered ''bb_listxattr'' [p] [int k]"
| "request_entry (Removexattr p n) = Entered ''bb_removexattr'' [p, n] []"
| "request_entry (Opendir p fi) = Entered ''bb_opendir'' [p] []"
| "request_entry (Releasedir p fi) = Entered ''bb_releasedir'' [p] []"
| "request_entry (Fsyncdir p ds fi) = Entered ''bb_fsyncdir'' [p] [ds]"
| "request_entry (Access p m) = Entered ''bb_access'' [p] [m]"
| "request_entry (Create p m fi) = Entered ''bb_create'' [p] [uint m]"
| "request_entry (Ftruncate p n fi) = Entered ''bb_ftruncate'' [p] [n]"
| "request_entry (Fgetattr p fi) = Entered ''bb_fgetattr'' [p] []"

text \<open>The numbers of the errors reported.\<close>

fun errors :: "log_entry list \<Rightarrow> int list" where
  "errors [] = []"
| "errors (Failed str e # es) = e # errors es"
| "errors (_ # es) = errors es"

lemma errors_append [simp]: "errors (xs @ ys) = errors xs @ errors ys"
  by (induction xs rule: errors.induct) simp_all

lemma errors_attributes [simp]: "errors (map Attribute as) = []"
  by (induction as) simp_all

text \<open>\<open>close\<close> in \<open>bb_release\<close> is the one call whose failure is not reported.\<close>

fun unreported :: "request \<Rightarrow> bool" where
  "unreported (Release p fi) = True"
| "unreported _ = False"

lemma fullpath_log:
  "bb_fullpath bd path s = Inr (fpath, s') \<Longrightarrow> \<exists>root. s' = say (Fullpath root path fpath) s"
  by (auto simp: bb_fullpath_def Let_def split: option.splits if_splits)

lemma checked_log:
  assumes "checked sys str f s = (r, s')" "\<And>w. 0 < errno sys w"
  shows "logfile s' = logfile s @ (if r < 0 then [Failed str (errno sys (world s'))] else [])"
  using assms by (auto simp: checked_def call_def call_simps say_def split: prod.splits if_splits)



end
