(* ===== verification/Token_Queue.thy ===== *)
theory Token_Queue
  imports Prelude "HOL-Library.Sublist"
begin

text \<open>
  What the threads of \<open>hw3_pthreads\<close> rely on when they read from a stream: a bounded queue whose readers all see what
  was put, in order. Theories Streams_Props and Streams_Many show that the streams of \<open>streams.c\<close> keep this
  contract; theory Streams_Main composes threads with it.
\<close>

text \<open>The specification: a queue of at most \<open>cap\<close> tokens, with one operation per turn of a thread. An operation that the
  queue does not allow is \<open>None\<close>.\<close>

datatype 'v queue_op = Enq 'v | Deq 'v | Stay

fun queue_apply :: "nat \<Rightarrow> 'v queue_op \<Rightarrow> 'v list \<Rightarrow> 'v list option" where
  "queue_apply cap (Enq v) q = (if length q < cap then Some (q @ [v]) else None)"
| "queue_apply cap (Deq v) q = (case q of [] \<Rightarrow> None | x # xs \<Rightarrow> if x = v then Some xs else None)"
| "queue_apply cap Stay q = Some q"

fun enqueued :: "'v queue_op \<Rightarrow> 'v list" where
  "enqueued (Enq v) = [v]"
| "enqueued op = []"

fun dequeued :: "'v queue_op \<Rightarrow> 'v list" where
  "dequeued (Deq v) = [v]"
| "dequeued op = []"

text \<open>The tokens that wait for a reader who has taken \<open>gt\<close> of the tokens \<open>snt\<close>.\<close>

definition waiting_for :: "'v list \<Rightarrow> 'v list \<Rightarrow> 'v list" where
  "waiting_for gt snt = drop (length gt) snt"

locale token_stream =
  fixes good :: "'n \<Rightarrow> bool"
    and put_in :: "'n \<Rightarrow> 'v list"
    and consumers :: "'n \<Rightarrow> ptr set"
    and taken :: "'n \<Rightarrow> ptr \<Rightarrow> 'v list"
    and capacity :: nat
  assumes fifo: "good n \<Longrightarrow> p \<in> consumers n \<Longrightarrow> prefix (taken n p) (put_in n)"
    and bounded: "good n \<Longrightarrow> p \<in> consumers n \<Longrightarrow> length (put_in n) \<le> length (taken n p) + capacity"
begin

text \<open>A reader has received a first part of whatever a first part of was put.\<close>

lemma feeds: "good n \<Longrightarrow> p \<in> consumers n \<Longrightarrow> prefix (put_in n) ys \<Longrightarrow> prefix (taken n p) ys"
  using fifo prefix_order.trans by blast

lemma taken_take: "good n \<Longrightarrow> p \<in> consumers n \<Longrightarrow> taken n p = take (length (taken n p)) (put_in n)"
  using fifo [of n p] by (auto simp: prefix_def)

lemma taken_le: "good n \<Longrightarrow> p \<in> consumers n \<Longrightarrow> length (taken n p) \<le> length (put_in n)"
  by (simp add: fifo prefix_length_le)

text \<open>Whatever adds at most one token to one of the two histories is an operation of the queue the reader sees.\<close>

lemma queue_view:
  assumes "good n" "good n'" "p \<in> consumers n" "p \<in> consumers n'"
    and hist: "put_in n' = put_in n @ ins" "taken n' p = taken n p @ out" "length ins + length out \<le> 1"
  shows "\<exists>op. queue_apply capacity op (waiting_for (taken n p) (put_in n)) = Some (waiting_for (taken n' p) (put_in n')) \<and>
     ins = enqueued op \<and> out = dequeued op"
proof -
  have le: "length (taken n p) \<le> length (put_in n)" "length (put_in n') \<le> length (taken n' p) + capacity"
    "prefix (taken n' p) (put_in n')"
    using taken_le [OF assms(1,3)] bounded [OF assms(2,4)] fifo [OF assms(2,4)] by simp_all
  consider "ins = []" "out = []" | v where "ins = [v]" "out = []" | v where "ins = []" "out = [v]"
    using hist(3) by (cases ins; cases out) auto
  then show ?thesis
  proof cases
    case 1
    then show ?thesis using hist(1,2) by (intro exI [of _ Stay]) simp
  next
    case 2
    then show ?thesis using hist(1,2) le(1,2) by (intro exI [of _ "Enq v"]) (simp add: waiting_for_def)
  next
    case 3
    then obtain zs where "put_in n = taken n p @ v # zs" using le(3) hist(1,2) by (auto simp: prefix_def)
    then show ?thesis using 3 hist(1,2) by (intro exI [of _ "Deq v"]) (simp add: waiting_for_def)
  qed
qed

text \<open>Two readers differ only in how far they are, and by no more than the capacity.\<close>

lemma readers_agree:
  assumes "good n" "p \<in> consumers n" "q \<in> consumers n"
  shows "prefix (taken n p) (taken n q) \<or> prefix (taken n q) (taken n p)"
    "length (taken n p) \<le> length (taken n q) + capacity"
proof -
  show "prefix (taken n p) (taken n q) \<or> prefix (taken n q) (taken n p)"
    using fifo [OF assms(1,2)] fifo [OF assms(1,3)] by (rule prefix_same_cases)
  show "length (taken n p) \<le> length (taken n q) + capacity"
    using taken_le [OF assms(1,2)] bounded [OF assms(1,3)] by simp
qed

end

end
