(* ===== verification/Streams.thy ===== *)
theory Streams
  imports Prelude
begin

text \<open>
  The stream library of \<open>hw3_pthreads/streams.c\<close> and \<open>streams.h\<close>: streams with a ring buffer of five
  tokens, the list of producers a consumer reads from, and \<open>get\<close> and \<open>put\<close> as threads that
  take turns. A call of \<open>get\<close> or \<open>put\<close> is a program counter; one turn runs the code between two points
  where another thread can interfere (a lock or semaphore taken or given back, a test under the lock,
  the body under the lock). A wait on the condition variable gives the lock back and may end
  whenever the lock is free: POSIX allows spurious wake-ups, so what holds here needs no signal. Theory
  Streams_Signals has the semantics in which a waiting thread sleeps until it is signalled.
\<close>

definition BUFFER_SIZE :: nat where "BUFFER_SIZE = 5"

section \<open>Data\<close>

text \<open>Streams are numbered; a \<open>producer_t\<close> lives at an address, and address 0 is \<open>NULL\<close>.\<close>

datatype agent = Getter ptr | Putter nat

record 'v stream =
  s_lock :: "agent option"
  s_empty :: nat
  s_buffer :: "'v list"
  s_read_count :: "int list"
  s_put_idx :: nat
  s_consumers :: int
  s_prod_head :: ptr
  s_prod_curr :: ptr

record producer =
  p_idx :: nat
  p_stream :: nat
  p_next :: ptr
  p_prev :: ptr

text \<open>The program's memory: its streams, and its producer cells (\<open>None\<close>: never allocated or freed).\<close>

record 'v mem =
  streams :: "'v stream list"
  prods :: "producer option list"

definition prod_at :: "'v mem \<Rightarrow> ptr \<Rightarrow> fault + producer" where
  "prod_at m p = (if p = NULL then Inl NullDeref
     else if length (prods m) \<le> p then Inl BadDeref
     else case prods m ! p of None \<Rightarrow> Inl BadDeref | Some x \<Rightarrow> Inr x)"

definition prod_set :: "'v mem \<Rightarrow> ptr \<Rightarrow> (producer \<Rightarrow> producer) \<Rightarrow> fault + 'v mem" where
  "prod_set m p f = bindE (prod_at m p) (\<lambda>x. Inr (m\<lparr>prods := (prods m)[p := Some (f x)]\<rparr>))"

section \<open>Initialising, connecting, disconnecting\<close>

text \<open>\<open>init_stream\<close> leaves the buffer as it is.\<close>

definition init_stream :: "'v stream \<Rightarrow> 'v stream" where
  "init_stream st = st\<lparr>s_lock := None, s_prod_head := NULL, s_prod_curr := NULL, s_put_idx := 0,
     s_consumers := 0, s_read_count := replicate BUFFER_SIZE 9999, s_empty := BUFFER_SIZE\<rparr>"

text \<open>\<open>malloc\<close> of a producer cell: a new address. \<open>k\<close> consumes from \<open>j\<close>.\<close>

definition stream_connect :: "nat \<Rightarrow> nat \<Rightarrow> 'v mem \<Rightarrow> fault + 'v mem" where
  "stream_connect k j m =
     (let p = length (prods m);
          m = m\<lparr>prods := prods m @ [Some \<lparr>p_idx = s_put_idx (streams m ! j), p_stream = j, p_next = NULL, p_prev = NULL\<rparr>]\<rparr>;
          st = streams m ! k in
      bindE (if s_prod_head st = NULL
             then Inr (m\<lparr>streams := (streams m)[k := st\<lparr>s_prod_head := p, s_prod_curr := p\<rparr>]\<rparr>)
             else bindE (prod_set m p (p_prev_update (\<lambda>_. s_prod_curr st))) (\<lambda>m.
                  bindE (prod_set m (s_prod_curr st) (p_next_update (\<lambda>_. p))) (\<lambda>m.
                  Inr (m\<lparr>streams := (streams m)[k := st\<lparr>s_prod_curr := p\<rparr>]\<rparr>)))) (\<lambda>m.
      let out = streams m ! j in
      Inr (m\<lparr>streams := (streams m)[j := out\<lparr>s_consumers := s_consumers out + 1\<rparr>]\<rparr>)))"

text \<open>What \<open>stream_disconnect\<close> does to the cell it looked for: unlink, count down, free.\<close>

definition unlink_prod :: "ptr \<Rightarrow> 'v mem \<Rightarrow> fault + 'v mem" where
  "unlink_prod p m = bindE (prod_at m p) (\<lambda>x.
     if p_prev x = NULL then Inr m
     else bindE (prod_set m (p_prev x) (p_next_update (\<lambda>_. p_next x))) (\<lambda>m.
          if p_next x = NULL then Inr m
          else prod_set m (p_next x) (p_prev_update (\<lambda>_. p_prev x))))"

definition forget_consumer :: "'v stream \<Rightarrow> 'v stream" where
  "forget_consumer st = st\<lparr>s_consumers := s_consumers st - 1,
     s_read_count := map (\<lambda>c. if c > 0 then c - 1 else c) (s_read_count st)\<rparr>"

text \<open>The search loop, with the number of cells it may still visit (a list of producers is no longer than the
  cells there are).\<close>

fun disconnect_loop :: "nat \<Rightarrow> nat \<Rightarrow> ptr \<Rightarrow> 'v mem \<Rightarrow> fault + 'v mem" where
  "disconnect_loop 0 j p m = Inl StackOverflow"
| "disconnect_loop (Suc n) j p m =
     (if p = NULL then Inr m
      else bindE (prod_at m p) (\<lambda>x.
        if p_stream x = j then
          bindE (unlink_prod p m) (\<lambda>m.
          let m = m\<lparr>streams := (streams m)[j := forget_consumer (streams m ! j)]\<rparr>
          in Inr (m\<lparr>prods := (prods m)[p := None]\<rparr>))
        else disconnect_loop n j (p_next x) m))"

definition stream_disconnect :: "nat \<Rightarrow> nat \<Rightarrow> 'v mem \<Rightarrow> fault + 'v mem" where
  "stream_disconnect k j m = disconnect_loop (Suc (length (prods m))) j (s_prod_head (streams m ! k)) m"

section \<open>get and put\<close>

datatype get_pc = GIdle | GLock | GTest1 | GWait1 | GTest2 | GWait2 | GBody | GUnlock

datatype 'v put_pc = PIdle | PSem 'v | PLock 'v | PTest 'v | PWait 'v | PBody 'v | PUnlock

definition get_waits1 :: "'v stream \<Rightarrow> nat \<Rightarrow> bool" where
  "get_waits1 st i \<longleftrightarrow> (i + 1) mod BUFFER_SIZE = s_put_idx st mod BUFFER_SIZE"

definition get_waits2 :: "'v stream \<Rightarrow> nat \<Rightarrow> bool" where
  "get_waits2 st i \<longleftrightarrow> s_read_count st ! i \<ge> s_consumers st"

definition get_body :: "'v stream \<Rightarrow> nat \<Rightarrow> 'v \<times> 'v stream \<times> nat" where
  "get_body st i =
     (let ret = s_buffer st ! i;
          st = st\<lparr>s_read_count := (s_read_count st)[i := s_read_count st ! i + 1]\<rparr>;
          st = (if s_read_count st ! i = s_consumers st then st\<lparr>s_empty := s_empty st + 1\<rparr> else st)
      in (ret, st, (i + 1) mod BUFFER_SIZE))"

definition put_waits :: "'v stream \<Rightarrow> bool" where
  "put_waits st \<longleftrightarrow> s_read_count st ! s_put_idx st < s_consumers st"

definition put_body :: "'v \<Rightarrow> 'v stream \<Rightarrow> 'v stream" where
  "put_body v st = st\<lparr>s_buffer := (s_buffer st)[s_put_idx st := v],
     s_read_count := (s_read_count st)[s_put_idx st := 0],
     s_put_idx := (s_put_idx st + 1) mod BUFFER_SIZE\<rparr>"

text \<open>One turn of the getter \<open>p\<close> on its stream, with its read index; the values it returns to its
  caller in that turn come last. \<open>None\<close>: the thread has to wait.\<close>

definition get_turn :: "ptr \<Rightarrow> 'v stream \<Rightarrow> nat \<Rightarrow> get_pc \<Rightarrow> ('v stream \<times> nat \<times> get_pc \<times> 'v list) option" where
  "get_turn p st i pc = (case pc of
       GIdle \<Rightarrow> Some (st, i, GLock, [])
     | GLock \<Rightarrow> if s_lock st = None then Some (st\<lparr>s_lock := Some (Getter p)\<rparr>, i, GTest1, []) else None
     | GTest1 \<Rightarrow> if get_waits1 st i then Some (st\<lparr>s_lock := None\<rparr>, i, GWait1, []) else Some (st, i, GTest2, [])
     | GWait1 \<Rightarrow> if s_lock st = None then Some (st\<lparr>s_lock := Some (Getter p)\<rparr>, i, GTest1, []) else None
     | GTest2 \<Rightarrow> if get_waits2 st i then Some (st\<lparr>s_lock := None\<rparr>, i, GWait2, []) else Some (st, i, GBody, [])
     | GWait2 \<Rightarrow> if s_lock st = None then Some (st\<lparr>s_lock := Some (Getter p)\<rparr>, i, GTest2, []) else None
     | GBody \<Rightarrow> (case get_body st i of (v, st, i) \<Rightarrow> Some (st, i, GUnlock, [v]))
     | GUnlock \<Rightarrow> Some (st\<lparr>s_lock := None\<rparr>, i, GIdle, []))"

text \<open>One turn of the thread that puts into stream \<open>j\<close>; an idle thread calls \<open>put\<close> with \<open>v\<close>. The values that
  entered the buffer in that turn come last.\<close>

definition put_turn :: "nat \<Rightarrow> 'v \<Rightarrow> 'v stream \<Rightarrow> 'v put_pc \<Rightarrow> ('v stream \<times> 'v put_pc \<times> 'v list) option" where
  "put_turn j v st pc = (case pc of
       PIdle \<Rightarrow> Some (st, PSem v, [])
     | PSem x \<Rightarrow> if s_empty st > 0 then Some (st\<lparr>s_empty := s_empty st - 1\<rparr>, PLock x, []) else None
     | PLock x \<Rightarrow> if s_lock st = None then Some (st\<lparr>s_lock := Some (Putter j)\<rparr>, PTest x, []) else None
     | PTest x \<Rightarrow> if put_waits st then Some (st\<lparr>s_lock := None\<rparr>, PWait x, []) else Some (st, PBody x, [])
     | PWait x \<Rightarrow> if s_lock st = None then Some (st\<lparr>s_lock := Some (Putter j)\<rparr>, PTest x, []) else None
     | PBody x \<Rightarrow> Some (put_body x st, PUnlock, [x])
     | PUnlock \<Rightarrow> Some (st\<lparr>s_lock := None\<rparr>, PIdle, []))"

section \<open>The running program\<close>

text \<open>The memory, where each thread is, and the history: the values put into each stream and the values
  each producer cell's reader got.\<close>

record 'v net =
  mem :: "'v mem"
  gpcs :: "get_pc list"
  ppcs :: "'v put_pc list"
  sent :: "'v list list"
  got :: "'v list list"

definition get_next :: "ptr \<Rightarrow> 'v net \<Rightarrow> fault + 'v net option" where
  "get_next p n = bindE (prod_at (mem n) p) (\<lambda>x.
     case get_turn p (streams (mem n) ! p_stream x) (p_idx x) (gpcs n ! p) of
       None \<Rightarrow> Inr None
     | Some (st, i, pc, out) \<Rightarrow> Inr (Some (n\<lparr>
         mem := (mem n)\<lparr>streams := (streams (mem n))[p_stream x := st],
                        prods := (prods (mem n))[p := Some (x\<lparr>p_idx := i\<rparr>)]\<rparr>,
         gpcs := (gpcs n)[p := pc], got := (got n)[p := got n ! p @ out]\<rparr>)))"

definition put_next :: "nat \<Rightarrow> 'v \<Rightarrow> 'v net \<Rightarrow> 'v net option" where
  "put_next j v n = (case put_turn j v (streams (mem n) ! j) (ppcs n ! j) of
       None \<Rightarrow> None
     | Some (st, pc, ins) \<Rightarrow> Some (n\<lparr>
         mem := (mem n)\<lparr>streams := (streams (mem n))[j := st]\<rparr>,
         ppcs := (ppcs n)[j := pc], sent := (sent n)[j := sent n ! j @ ins]\<rparr>))"

inductive net_reach :: "'v net \<Rightarrow> 'v net \<Rightarrow> bool" where
  start: "net_reach n n"
| getter: "net_reach n0 n \<Longrightarrow> p < length (gpcs n) \<Longrightarrow> get_next p n = Inr (Some n') \<Longrightarrow> net_reach n0 n'"
| putter: "net_reach n0 n \<Longrightarrow> j < length (ppcs n) \<Longrightarrow> put_next j v n = Some n' \<Longrightarrow> net_reach n0 n'"

text \<open>A schedule: whose turn it is.\<close>

datatype 'v turn = Get ptr | Put nat 'v

fun play :: "'v turn list \<Rightarrow> 'v net \<Rightarrow> 'v net option" where
  "play [] n = Some n"
| "play (Get p # ts) n = (if p < length (gpcs n) then
     (case get_next p n of Inr (Some n1) \<Rightarrow> play ts n1 | _ \<Rightarrow> None) else None)"
| "play (Put j v # ts) n = (if j < length (ppcs n) then
     (case put_next j v n of Some n1 \<Rightarrow> play ts n1 | _ \<Rightarrow> None) else None)"

lemma play_reach: "play ts n = Some n' \<Longrightarrow> net_reach n0 n \<Longrightarrow> net_reach n0 n'"
proof (induction ts arbitrary: n)
  case (Cons t ts)
  then obtain n1 where "play ts n1 = Some n'" "net_reach n0 n1"
    by (cases t) (auto split: if_splits sum.splits option.splits intro: net_reach.getter net_reach.putter)
  then show ?case by (rule Cons.IH)
qed simp

text \<open>A program before its threads run.\<close>

definition idle_net :: "'v mem \<Rightarrow> 'v net" where
  "idle_net m = \<lparr>mem = m, gpcs = replicate (length (prods m)) GIdle, ppcs = replicate (length (streams m)) PIdle,
     sent = replicate (length (streams m)) [], got = replicate (length (prods m)) []\<rparr>"

end
