(* ===== verification/Streams_Props.thy ===== *)
theory Streams_Props
  imports Streams Token_Queue
begin

text \<open>
  A stream of \<open>hw3_pthreads/streams.c\<close> with one consumer: the invariant that ties the ring buffer, the read
  counts, the semaphore and the lock to the history of the stream, its preservation by every turn of
  every thread, and the theorem that such a stream is a reliable bounded queue.
\<close>

section \<open>One consumer: the invariant\<close>

lemma slot_distinct:
  assumes "j < m" "m \<le> j + 5" "k < m" "m \<le> k + 5" "j \<noteq> (k::nat)"
  shows "j mod 5 \<noteq> k mod 5"
proof
  assume eq: "j mod 5 = k mod 5"
  have "j = 5 * (j div 5) + j mod 5" "k = 5 * (k div 5) + k mod 5" by simp_all
  moreover note eq
  moreover have "j < k + 5" "k < j + 5" using assms by linarith+
  ultimately have "j div 5 < k div 5 + 1" "k div 5 < j div 5 + 1" by linarith+
  then have "j div 5 = k div 5" by simp
  with eq assms(5) show False by (metis mult_div_mod_eq)
qed

text \<open>The ring buffer after \<open>snt\<close> was put, when \<open>cnt t\<close> consumers have read token \<open>t\<close>.\<close>

definition ring_ok :: "'v stream \<Rightarrow> 'v list \<Rightarrow> (nat \<Rightarrow> nat) \<Rightarrow> bool" where
  "ring_ok st snt cnt \<longleftrightarrow> length (s_buffer st) = 5 \<and> length (s_read_count st) = 5 \<and> s_put_idx st = length snt mod 5 \<and>
     (\<forall>t < length snt. length snt \<le> t + 5 \<longrightarrow>
        s_buffer st ! (t mod 5) = snt ! t \<and> s_read_count st ! (t mod 5) = int (cnt t)) \<and>
     (\<forall>t. length snt \<le> t \<longrightarrow> t < 5 \<longrightarrow> s_consumers st \<le> s_read_count st ! t)"

lemma ring_put:
  assumes "ring_ok st snt cnt" "cnt (length snt) = 0"
  shows "ring_ok (put_body v st) (snt @ [v]) cnt"
proof -
  let ?m = "length snt"
  have st: "length (s_buffer st) = 5" "length (s_read_count st) = 5" "s_put_idx st = ?m mod 5"
    using assms(1) by (auto simp: ring_ok_def)
  have "s_buffer (put_body v st) ! (j mod 5) = (snt @ [v]) ! j \<and> s_read_count (put_body v st) ! (j mod 5) = int (cnt j)"
    if j: "j < Suc ?m" "Suc ?m \<le> j + 5" for j
  proof (cases "j = ?m")
    case True
    then show ?thesis using st assms(2) by (simp add: put_body_def)
  next
    case False
    then have "j mod 5 \<noteq> ?m mod 5" using j slot_distinct [of j "Suc ?m" ?m] by simp
    then show ?thesis using assms(1) st j False by (simp add: put_body_def ring_ok_def nth_append)
  qed
  moreover have "s_consumers st \<le> s_read_count (put_body v st) ! j" if "Suc ?m \<le> j" "j < 5" for j
    using assms(1) st that by (simp add: put_body_def ring_ok_def)
  ultimately show ?thesis using st by (simp add: ring_ok_def put_body_def BUFFER_SIZE_def mod_Suc_eq)
qed

text \<open>A read of token \<open>k\<close> counts it once more.\<close>

lemma ring_get:
  assumes "ring_ok st snt cnt" "k < length snt" "length snt \<le> k + 5"
  shows "ring_ok (st\<lparr>s_read_count := (s_read_count st)[k mod 5 := int c], s_empty := e\<rparr>) snt (cnt(k := c))"
proof -
  have "(s_read_count st)[k mod 5 := int c] ! (j mod 5) = int ((cnt(k := c)) j)"
    if "j < length snt" "length snt \<le> j + 5" for j
  proof (cases "j = k")
    case True
    then show ?thesis using assms(1) by (simp add: ring_ok_def)
  next
    case False
    then have "j mod 5 \<noteq> k mod 5" using that assms(2,3) slot_distinct [of j "length snt" k] by simp
    then show ?thesis using assms(1) that False by (auto simp: ring_ok_def)
  qed
  moreover have "s_consumers st \<le> (s_read_count st)[k mod 5 := int c] ! j" if "length snt \<le> j" "j < 5" for j
    using assms(1,2) that by (simp add: ring_ok_def)
  ultimately show ?thesis using assms(1) by (simp add: ring_ok_def)
qed

lemma ring_lock [simp]:
  "ring_ok (st\<lparr>s_lock := l\<rparr>) snt cnt = ring_ok st snt cnt" "ring_ok (st\<lparr>s_empty := e\<rparr>) snt cnt = ring_ok st snt cnt"
  by (simp_all add: ring_ok_def)

text \<open>The buffer after \<open>snt\<close> was put, of which the consumer read \<open>k\<close> tokens.\<close>

definition slots_ok :: "'v stream \<Rightarrow> 'v list \<Rightarrow> nat \<Rightarrow> bool" where
  "slots_ok st snt k \<longleftrightarrow> length (s_buffer st) = 5 \<and> length (s_read_count st) = 5 \<and> s_put_idx st = length snt mod 5 \<and>
     (\<forall>j < length snt. length snt \<le> j + 5 \<longrightarrow>
        s_buffer st ! (j mod 5) = snt ! j \<and> s_read_count st ! (j mod 5) = (if j < k then 1 else 0)) \<and>
     (\<forall>j. length snt \<le> j \<longrightarrow> j < 5 \<longrightarrow> s_consumers st \<le> s_read_count st ! j)"

lemma slots_ring: "slots_ok st snt k = ring_ok st snt (\<lambda>t. if t < k then 1 else 0)"
  by (simp add: slots_ok_def ring_ok_def)

fun holds_slot :: "'v put_pc \<Rightarrow> nat" where
  "holds_slot (PLock v) = 1"
| "holds_slot (PTest v) = 1"
| "holds_slot (PWait v) = 1"
| "holds_slot (PBody v) = 1"
| "holds_slot _ = 0"

fun get_inside :: "get_pc \<Rightarrow> bool" where
  "get_inside GTest1 = True"
| "get_inside GTest2 = True"
| "get_inside GBody = True"
| "get_inside GUnlock = True"
| "get_inside _ = False"

fun put_inside :: "'v put_pc \<Rightarrow> bool" where
  "put_inside (PTest v) = True"
| "put_inside (PBody v) = True"
| "put_inside PUnlock = True"
| "put_inside _ = False"

definition edge_ok ::
  "nat \<Rightarrow> ptr \<Rightarrow> 'v stream \<Rightarrow> nat \<Rightarrow> get_pc \<Rightarrow> 'v put_pc \<Rightarrow> 'v list \<Rightarrow> 'v list \<Rightarrow> bool" where
  "edge_ok j p st i g pp snt gt \<longleftrightarrow> slots_ok st snt (length gt) \<and> s_consumers st = 1 \<and> i = length gt mod 5 \<and>
     length gt \<le> length snt \<and> gt = take (length gt) snt \<and>
     s_empty st + (length snt - length gt) + holds_slot pp = 5 \<and>
     (g = GBody \<longrightarrow> length gt < length snt) \<and>
     s_lock st = (if get_inside g then Some (Getter p) else if put_inside pp then Some (Putter j) else None) \<and>
     \<not> (get_inside g \<and> put_inside pp)"

lemma edge_ok_bound: "edge_ok j p st i g pp snt gt \<Longrightarrow> length snt \<le> length gt + 5"
  by (auto simp: edge_ok_def)

text \<open>The second wait of \<open>get\<close> ends only when there is a token to read.\<close>

lemma read_count_old:
  assumes "slots_ok st snt k" "k \<le> length snt" "length snt \<le> k + 5" "s_read_count st ! (k mod 5) < 1"
    "s_consumers st = 1"
  shows "k < length snt"
proof (rule ccontr)
  assume "\<not> k < length snt"
  with assms(2) have k: "k = length snt" by simp
  show False
  proof (cases "k < 5")
    case True
    then have "1 \<le> s_read_count st ! k" using assms(1,5) k by (simp add: slots_ok_def)
    with assms(4) True show False by simp
  next
    case False
    then have "s_read_count st ! ((k - 5) mod 5) = 1" using assms(1) k by (simp add: slots_ok_def)
    moreover have "(k - 5) mod 5 = k mod 5" using False by (simp add: mod_if)
    ultimately show False using assms(4) by simp
  qed
qed

text \<open>The slot the producer is about to fill has been read: the inner wait of \<open>put\<close> never happens.\<close>

lemma put_never_waits:
  assumes "slots_ok st snt k" "k \<le> length snt" "length snt < k + 5" "s_consumers st = 1"
  shows "\<not> put_waits st"
proof (cases "length snt < 5")
  case True
  then have "\<not> s_read_count st ! length snt < 1" using assms(1,4) by (simp add: slots_ok_def not_less)
  with True assms show ?thesis by (simp add: put_waits_def slots_ok_def)
next
  case False
  let ?j = "length snt - 5"
  have "?j < k" "?j < length snt" using False assms(3) by auto
  then have "s_read_count st ! (?j mod 5) = 1" using assms(1) False by (auto simp: slots_ok_def)
  moreover have "?j mod 5 = length snt mod 5" using False by (metis le_mod_geq not_less)
  ultimately show ?thesis using assms(1,4) by (simp add: put_waits_def slots_ok_def)
qed

lemma slots_put: "slots_ok st snt k \<Longrightarrow> k \<le> length snt \<Longrightarrow> slots_ok (put_body v st) (snt @ [v]) k"
  unfolding slots_ring by (rule ring_put) simp_all

lemma get_body_eq:
  assumes "slots_ok st snt k" "k < length snt" "length snt \<le> k + 5" "s_consumers st = 1"
  shows "get_body st (k mod 5) = (snt ! k, st\<lparr>s_read_count := (s_read_count st)[k mod 5 := 1],
     s_empty := s_empty st + 1\<rparr>, Suc k mod 5)"
proof -
  have "s_read_count st ! (k mod 5) = 0" "s_buffer st ! (k mod 5) = snt ! k" "length (s_read_count st) = 5"
    using assms(1-3) by (auto simp: slots_ok_def)
  then show ?thesis using assms(4) by (simp add: get_body_def BUFFER_SIZE_def mod_Suc_eq)
qed

lemma slots_get:
  assumes "slots_ok st snt k" "k < length snt" "length snt \<le> k + 5"
  shows "slots_ok (st\<lparr>s_read_count := (s_read_count st)[k mod 5 := 1], s_empty := e\<rparr>) snt (Suc k)"
proof -
  have "(\<lambda>t. if t < k then 1 else 0)(k := 1) = (\<lambda>t. if t < Suc k then 1 else (0::nat))" by auto
  with ring_get [OF assms(1) [unfolded slots_ring] assms(2,3), where c = 1 and e = e] show ?thesis
    by (simp add: slots_ring)
qed

lemma slots_lock [simp]:
  "slots_ok (st\<lparr>s_lock := l\<rparr>) snt k = slots_ok st snt k" "slots_ok (st\<lparr>s_empty := e\<rparr>) snt k = slots_ok st snt k"
  by (simp_all add: slots_ok_def)

lemma edge_get:
  assumes "edge_ok j p st i g pp snt gt" "get_turn p st i g = Some (st', i', g', out)"
  shows "edge_ok j p st' i' g' pp snt (gt @ out)"
proof (cases g)
  case GBody
  have k: "slots_ok st snt (length gt)" "length gt < length snt" "length snt \<le> length gt + 5" "s_consumers st = 1"
    using assms(1) GBody edge_ok_bound [OF assms(1)] by (auto simp: edge_ok_def)
  have "gt @ [snt ! length gt] = take (Suc (length gt)) snt"
    using assms(1) k(2) by (metis edge_ok_def take_Suc_conv_app_nth)
  then show ?thesis
    using assms GBody get_body_eq [OF k] slots_get [OF k(1-3)] k(2)
    by (auto simp: edge_ok_def get_turn_def)
next
  case GTest2
  have "length gt < length snt" if "\<not> get_waits2 st i"
    using assms(1) that edge_ok_bound [OF assms(1)] read_count_old [of st snt "length gt"]
    by (auto simp: edge_ok_def get_waits2_def)
  then show ?thesis using assms GTest2 by (auto simp: edge_ok_def get_turn_def split: if_splits)
qed (use assms in \<open>auto simp: edge_ok_def get_turn_def split: if_splits\<close>)

lemma edge_put:
  assumes "edge_ok j p st i g pp snt gt" "put_turn j v st pp = Some (st', pp', ins)"
  shows "edge_ok j p st' i g pp' (snt @ ins) gt"
proof (cases pp)
  case (PBody x)
  have "length snt < length gt + 5" using assms(1) PBody by (auto simp: edge_ok_def)
  then have "slots_ok (put_body x st) (snt @ [x]) (length gt)"
    using assms(1) by (auto simp: edge_ok_def intro: slots_put)
  moreover have "s_consumers (put_body x st) = s_consumers st" "s_empty (put_body x st) = s_empty st"
    "s_lock (put_body x st) = s_lock st" by (simp_all add: put_body_def)
  ultimately show ?thesis using assms PBody by (auto simp: edge_ok_def put_turn_def)
qed (use assms in \<open>auto simp: edge_ok_def put_turn_def split: if_splits\<close>)

section \<open>One consumer in a running program\<close>

text \<open>Which stream each cell reads from; only \<open>p\<close> reads from \<open>s\<close>.\<close>

definition readers :: "'v mem \<Rightarrow> nat option list" where
  "readers m = map (map_option p_stream) (prods m)"

definition only_reader :: "nat \<Rightarrow> ptr \<Rightarrow> nat option list \<Rightarrow> bool" where
  "only_reader s p es \<longleftrightarrow> p < length es \<and> p \<noteq> NULL \<and> es ! p = Some s \<and>
     (\<forall>q < length es. es ! q = Some s \<longrightarrow> q = p)"

definition sole_edge :: "nat \<Rightarrow> ptr \<Rightarrow> 'v net \<Rightarrow> bool" where
  "sole_edge s p n \<longleftrightarrow> s < length (streams (mem n)) \<and> only_reader s p (readers (mem n)) \<and>
     length (gpcs n) = length (prods (mem n)) \<and> length (got n) = length (prods (mem n)) \<and>
     length (ppcs n) = length (streams (mem n)) \<and> length (sent n) = length (streams (mem n))"

lemma length_readers [simp]: "length (readers m) = length (prods m)"
  by (simp add: readers_def)

lemma only_readerD:
  assumes "only_reader s p (readers m)"
  obtains x where "prods m ! p = Some x" "p_stream x = s" "p < length (prods m)" "p \<noteq> NULL"
    "\<And>q y. q < length (prods m) \<Longrightarrow> prods m ! q = Some y \<Longrightarrow> p_stream y = s \<Longrightarrow> q = p"
proof -
  have e: "p < length (readers m)" "p \<noteq> NULL" "readers m ! p = Some s"
    using assms unfolding only_reader_def by blast+
  then have p: "p < length (prods m)" "p \<noteq> NULL" by (simp_all add: readers_def)
  have "map_option p_stream (prods m ! p) = Some s" using e(3) p(1) by (simp add: readers_def)
  then obtain x where x: "prods m ! p = Some x" "p_stream x = s" by blast
  have "q = p" if "q < length (prods m)" "prods m ! q = Some y" "p_stream y = s" for q y
  proof -
    have "readers m ! q = Some s" using that by (simp add: readers_def)
    moreover have "q < length (readers m)" using that(1) by (simp add: readers_def)
    ultimately show ?thesis using assms unfolding only_reader_def by blast
  qed
  then show thesis by (rule that [OF x p])
qed

lemma readers_update:
  assumes "prods m ! q = Some y" "p_stream y' = p_stream y"
  shows "readers (m\<lparr>streams := ss, prods := (prods m)[q := Some y']\<rparr>) = readers m"
proof (cases "q < length (prods m)")
  case True
  then have "(map (map_option p_stream) (prods m))[q := Some (p_stream y)] = map (map_option p_stream) (prods m)"
    using assms(1) by (metis (no_types, lifting) list_update_id nth_map option.map(2))
  then show ?thesis using assms(2) by (simp add: readers_def map_update)
next
  case False
  then show ?thesis by (simp add: readers_def list_update_beyond)
qed

definition edge_inv :: "nat \<Rightarrow> ptr \<Rightarrow> 'v net \<Rightarrow> bool" where
  "edge_inv s p n \<longleftrightarrow> sole_edge s p n \<and>
     edge_ok s p (streams (mem n) ! s) (p_idx (the (prods (mem n) ! p))) (gpcs n ! p) (ppcs n ! s)
       (sent n ! s) (got n ! p)"

lemma get_next_cases:
  assumes "get_next q n = Inr (Some n')" "q < length (gpcs n)" "length (gpcs n) = length (prods (mem n))"
  obtains y st i pc out where "q \<noteq> NULL" "prods (mem n) ! q = Some y"
    "get_turn q (streams (mem n) ! p_stream y) (p_idx y) (gpcs n ! q) = Some (st, i, pc, out)"
    "n' = n\<lparr>mem := (mem n)\<lparr>streams := (streams (mem n))[p_stream y := st],
                        prods := (prods (mem n))[q := Some (y\<lparr>p_idx := i\<rparr>)]\<rparr>,
         gpcs := (gpcs n)[q := pc], got := (got n)[q := got n ! q @ out]\<rparr>"
  using assms
  by (auto simp: get_next_def prod_at_def bindE_Inr_iff split: if_splits option.splits)

lemma sole_edge_get:
  assumes "get_next q n = Inr (Some n')" "q < length (gpcs n)" "sole_edge s p n"
  shows "sole_edge s p n'"
proof -
  have len: "length (gpcs n) = length (prods (mem n))" using assms(3) by (simp add: sole_edge_def)
  show ?thesis
    by (rule get_next_cases [OF assms(1,2) len]) (use assms(3) in \<open>simp add: sole_edge_def readers_update\<close>)
qed

lemma edge_inv_get:
  assumes "get_next q n = Inr (Some n')" "q < length (gpcs n)" "edge_inv s p n"
  shows "edge_inv s p n'"
proof -
  have sole: "sole_edge s p n" using assms(3) by (simp add: edge_inv_def)
  then have len: "length (gpcs n) = length (prods (mem n))"
    "length (got n) = length (prods (mem n))" "s < length (streams (mem n))" "only_reader s p (readers (mem n))"
    by (simp_all add: sole_edge_def)
  obtain x where x: "prods (mem n) ! p = Some x" "p_stream x = s" "p < length (prods (mem n))" "p \<noteq> NULL"
    "\<And>q y. q < length (prods (mem n)) \<Longrightarrow> prods (mem n) ! q = Some y \<Longrightarrow> p_stream y = s \<Longrightarrow> q = p"
    by (rule only_readerD [OF len(4)]) (rule that)
  have ok: "edge_ok s p (streams (mem n) ! s) (p_idx x) (gpcs n ! p) (ppcs n ! s) (sent n ! s) (got n ! p)"
    using assms(3) x(1) by (simp add: edge_inv_def)
  show ?thesis
  proof (rule get_next_cases [OF assms(1,2) len(1)])
    fix y st i pc out
    assume y: "q \<noteq> NULL" "prods (mem n) ! q = Some y"
      "get_turn q (streams (mem n) ! p_stream y) (p_idx y) (gpcs n ! q) = Some (st, i, pc, out)"
      "n' = n\<lparr>mem := (mem n)\<lparr>streams := (streams (mem n))[p_stream y := st],
                        prods := (prods (mem n))[q := Some (y\<lparr>p_idx := i\<rparr>)]\<rparr>,
         gpcs := (gpcs n)[q := pc], got := (got n)[q := got n ! q @ out]\<rparr>"
    show ?thesis
    proof (cases "q = p")
      case True
      then have xy: "y = x" using x(1) y(2) by simp
      have "edge_ok s p st i pc (ppcs n ! s) (sent n ! s) (got n ! p @ out)"
        by (rule edge_get [OF ok]) (use y(3) True xy x(2) in simp)
      with True xy y(4) x(2,3) len(1-3) sole_edge_get [OF assms(1,2) sole] show ?thesis by (simp add: edge_inv_def)
    next
      case False
      then have "p_stream y \<noteq> s" using x(5) [OF _ y(2)] assms(2) len(1) by auto
      with False y(4) x(1) ok sole_edge_get [OF assms(1,2) sole] show ?thesis by (simp add: edge_inv_def)
    qed
  qed
qed

lemma edge_inv_put:
  assumes "put_next j v n = Some n'" "j < length (ppcs n)" "edge_inv s p n"
  shows "edge_inv s p n'"
proof -
  obtain st pc ins where t: "put_turn j v (streams (mem n) ! j) (ppcs n ! j) = Some (st, pc, ins)"
    and n': "n' = n\<lparr>mem := (mem n)\<lparr>streams := (streams (mem n))[j := st]\<rparr>,
         ppcs := (ppcs n)[j := pc], sent := (sent n)[j := sent n ! j @ ins]\<rparr>"
    using assms(1) by (auto simp: put_next_def split: option.splits)
  have sole: "sole_edge s p n" "s < length (streams (mem n))" "length (ppcs n) = length (streams (mem n))"
    "length (sent n) = length (streams (mem n))"
    using assms(3) by (simp_all add: sole_edge_def edge_inv_def)
  then have sole': "sole_edge s p n'" by (simp add: sole_edge_def n' readers_def)
  show ?thesis
  proof (cases "j = s")
    case True
    with assms(3) t sole sole' show ?thesis by (simp add: edge_inv_def n' edge_put)
  next
    case False
    with assms(3) sole' show ?thesis by (simp add: edge_inv_def n')
  qed
qed

lemma edge_inv_reach: "net_reach n0 n \<Longrightarrow> edge_inv s p n0 \<Longrightarrow> edge_inv s p n"
proof (induction rule: net_reach.induct)
  case (getter n0 n p' n')
  from edge_inv_get [OF getter.hyps(3,2)] getter.IH getter.prems show ?case by blast
next
  case (putter n0 n j v n')
  from edge_inv_put [OF putter.hyps(3,2)] putter.IH putter.prems show ?case by blast
qed simp

text \<open>A memory in which stream \<open>s\<close> was initialised and connected once, to the consumer cell \<open>p\<close>, and
  nothing was put yet.\<close>

definition connected_once :: "nat \<Rightarrow> ptr \<Rightarrow> 'v mem \<Rightarrow> bool" where
  "connected_once s p m \<longleftrightarrow> s < length (streams m) \<and> only_reader s p (readers m) \<and> p_idx (the (prods m ! p)) = 0 \<and>
     s_lock (streams m ! s) = None \<and> s_empty (streams m ! s) = 5 \<and> length (s_buffer (streams m ! s)) = 5 \<and>
     s_read_count (streams m ! s) = replicate 5 9999 \<and> s_put_idx (streams m ! s) = 0 \<and> s_consumers (streams m ! s) = 1"

lemma edge_inv_idle:
  assumes "connected_once s p m"
  shows "edge_inv s p (idle_net m)"
proof -
  have c: "s < length (streams m)" "only_reader s p (readers m)" "p_idx (the (prods m ! p)) = 0"
    using assms by (simp_all add: connected_once_def)
  then have p: "p < length (prods m)" by (simp add: only_reader_def)
  have "slots_ok (streams m ! s) [] 0" using assms by (simp add: connected_once_def slots_ok_def)
  then have "edge_ok s p (streams m ! s) 0 GIdle PIdle [] []"
    using assms by (simp add: connected_once_def edge_ok_def)
  then show ?thesis using c p by (simp add: edge_inv_def sole_edge_def idle_net_def)
qed

text \<open>Such a stream keeps the contract of a queue.\<close>

interpretation one: token_stream "edge_inv s p" "\<lambda>n. sent n ! s" "\<lambda>n. {p}" "\<lambda>n q. got n ! q" 5 for s p
proof
  fix n :: "'a net" and q
  assume inv: "edge_inv s p n" and "q \<in> {p}"
  then have q: "q = p" by simp
  obtain st i g pp where ok: "edge_ok s p st i g pp (sent n ! s) (got n ! p)" using inv by (auto simp: edge_inv_def)
  then have "got n ! p = take (length (got n ! p)) (sent n ! s)" unfolding edge_ok_def by blast
  then show "prefix (got n ! q) (sent n ! s)" unfolding q by (metis take_is_prefix)
  show "length (sent n ! s) \<le> length (got n ! q) + 5" unfolding q by (rule edge_ok_bound [OF ok])
qed

definition raw_stream :: "int stream" where
  "raw_stream = \<lparr>s_lock = None, s_empty = 7, s_buffer = [-1, -2, -3, -4, -5], s_read_count = [0, 0, 0, 0, 0],
     s_put_idx = 3, s_consumers = 4, s_prod_head = 9, s_prod_curr = 9\<rparr>"

definition fresh_mem :: "nat \<Rightarrow> int mem" where
  "fresh_mem k = \<lparr>streams = replicate k (init_stream raw_stream), prods = [None]\<rparr>"

definition one_consumer :: "int mem" where
  "one_consumer = \<lparr>streams = [init_stream raw_stream\<lparr>s_consumers := 1\<rparr>,
       init_stream raw_stream\<lparr>s_prod_head := 1, s_prod_curr := 1\<rparr>],
     prods = [None, Some \<lparr>p_idx = 0, p_stream = 0, p_next = NULL, p_prev = NULL\<rparr>]\<rparr>"

lemma one_consumer_built: "stream_connect 1 0 (fresh_mem 2) = Inr one_consumer"
  by code_simp

lemma one_consumer_connected: "connected_once 0 1 one_consumer"
  by (simp add: connected_once_def only_reader_def readers_def one_consumer_def init_stream_def raw_stream_def
      BUFFER_SIZE_def less_Suc_eq)

text \<open>C20: A stream with one consumer is a reliable bounded queue: in every state that any interleaving
  of its producer, its consumer and all other threads of the program reaches, the consumer got exactly
  the first tokens put, in order, at most five tokens are waiting, the producer never has to wait
  for the slot it was promised, and producer and consumer are never inside the lock together.\<close>

theorem stream_one_consumer:
  assumes "connected_once s p m" "net_reach (idle_net m) n"
  shows "got n ! p = take (length (got n ! p)) (sent n ! s) \<and> length (got n ! p) \<le> length (sent n ! s) \<and>
     length (sent n ! s) \<le> length (got n ! p) + 5 \<and>
     (ppcs n ! s = PTest v \<longrightarrow> \<not> put_waits (streams (mem n) ! s)) \<and>
     \<not> (get_inside (gpcs n ! p) \<and> put_inside (ppcs n ! s))"
proof -
  have inv: "edge_inv s p n" by (rule edge_inv_reach [OF assms(2) edge_inv_idle [OF assms(1)]])
  then have ok: "edge_ok s p (streams (mem n) ! s) (p_idx (the (prods (mem n) ! p))) (gpcs n ! p) (ppcs n ! s)
      (sent n ! s) (got n ! p)" by (simp add: edge_inv_def)
  have "\<not> put_waits (streams (mem n) ! s)" if "ppcs n ! s = PTest v"
    by (rule put_never_waits [where snt = "sent n ! s" and k = "length (got n ! p)"])
       (use ok that in \<open>auto simp: edge_ok_def\<close>)
  moreover have "\<not> (get_inside (gpcs n ! p) \<and> put_inside (ppcs n ! s))" using ok unfolding edge_ok_def by blast
  ultimately show ?thesis using one.taken_take [OF inv] one.taken_le [OF inv] one.bounded [OF inv] by blast
qed

definition put_one :: "nat \<Rightarrow> int \<Rightarrow> int turn list" where "put_one s v = replicate 6 (Put s v)"

lemma one_consumer_run:
  "case play (put_one 0 1 @ put_one 0 2 @ replicate 6 (Get 1)) (idle_net one_consumer) of
     None \<Rightarrow> False | Some n \<Rightarrow> got n ! 1 = [1] \<and> sent n ! 0 = [1, 2]"
  by code_simp

theorem stream_one_consumer_witness:
  "\<exists>n. net_reach (idle_net one_consumer) n \<and> got n ! 1 = [1] \<and> sent n ! 0 = [1, 2] \<and>
     got n ! 1 = take (length (got n ! 1)) (sent n ! 0)"
proof -
  obtain n where n: "play (put_one 0 1 @ put_one 0 2 @ replicate 6 (Get 1)) (idle_net one_consumer) = Some n"
    "got n ! 1 = [1]" "sent n ! 0 = [1, 2]"
    using one_consumer_run by (auto split: option.splits)
  have "net_reach (idle_net one_consumer) n" by (rule play_reach [OF n(1) net_reach.start])
  from stream_one_consumer [OF one_consumer_connected this] this n(2,3) show ?thesis by blast
qed

end
