(* ===== verification/Streams_Sharing.thy ===== *)
theory Streams_Sharing
  imports Streams_Props
begin

text \<open>
  Streams with any number of consumers, and connections that come and go: the lock of a stream lets one
  thread in under every interleaving, how a \<open>get\<close> and a \<open>put\<close> go on, a schedule of two consumers that
  breaks the stream, and what \<open>stream_disconnect\<close> leaves behind.
\<close>

section \<open>The lock\<close>

definition locks_ok :: "'v net \<Rightarrow> bool" where
  "locks_ok n \<longleftrightarrow>
     (\<forall>p x. p < length (prods (mem n)) \<longrightarrow> prods (mem n) ! p = Some x \<longrightarrow> get_inside (gpcs n ! p) \<longrightarrow>
        s_lock (streams (mem n) ! p_stream x) = Some (Getter p)) \<and>
     (\<forall>j. j < length (streams (mem n)) \<longrightarrow> put_inside (ppcs n ! j) \<longrightarrow> s_lock (streams (mem n) ! j) = Some (Putter j))"

definition net_wf :: "'v net \<Rightarrow> bool" where
  "net_wf n \<longleftrightarrow> length (gpcs n) = length (prods (mem n)) \<and> length (ppcs n) = length (streams (mem n)) \<and>
     (\<forall>p x. p < length (prods (mem n)) \<longrightarrow> prods (mem n) ! p = Some x \<longrightarrow> p_stream x < length (streams (mem n)))"

text \<open>A turn touches the lock only when it is free or its own.\<close>

lemma get_turn_lock:
  assumes "get_turn p st i pc = Some (st', i', pc', out)" "get_inside pc \<Longrightarrow> s_lock st = Some (Getter p)"
  shows "get_inside pc' \<Longrightarrow> s_lock st' = Some (Getter p)" "a \<noteq> Getter p \<Longrightarrow> s_lock st = Some a \<Longrightarrow> s_lock st' = Some a"
proof -
  have body: "s_lock st' = s_lock st" if "get_body st i = (v, st', i')" for v
    using that by (auto simp: get_body_def Let_def)
  show "get_inside pc' \<Longrightarrow> s_lock st' = Some (Getter p)"
    using assms body by (cases pc) (auto simp: get_turn_def split: if_splits prod.splits)
  show "a \<noteq> Getter p \<Longrightarrow> s_lock st = Some a \<Longrightarrow> s_lock st' = Some a"
    using assms body by (cases pc) (auto simp: get_turn_def split: if_splits prod.splits)
qed

lemma put_turn_lock:
  assumes "put_turn j v st pc = Some (st', pc', ins)" "put_inside pc \<Longrightarrow> s_lock st = Some (Putter j)"
  shows "put_inside pc' \<Longrightarrow> s_lock st' = Some (Putter j)" "a \<noteq> Putter j \<Longrightarrow> s_lock st = Some a \<Longrightarrow> s_lock st' = Some a"
  using assms by (cases pc; auto simp: put_turn_def put_body_def split: if_splits)+

lemma locks_get:
  assumes "get_next q n = Inr (Some n')" "q < length (gpcs n)" "locks_ok n" "net_wf n"
  shows "locks_ok n' \<and> net_wf n'"
proof -
  have len: "length (gpcs n) = length (prods (mem n))" using assms(4) by (simp add: net_wf_def)
  show ?thesis
  proof (rule get_next_cases [OF assms(1,2) len])
    fix y st i pc out
    assume y: "q \<noteq> NULL" "prods (mem n) ! q = Some y"
      "get_turn q (streams (mem n) ! p_stream y) (p_idx y) (gpcs n ! q) = Some (st, i, pc, out)"
      "n' = n\<lparr>mem := (mem n)\<lparr>streams := (streams (mem n))[p_stream y := st],
                        prods := (prods (mem n))[q := Some (y\<lparr>p_idx := i\<rparr>)]\<rparr>,
         gpcs := (gpcs n)[q := pc], got := (got n)[q := got n ! q @ out]\<rparr>"
    have ql: "q < length (prods (mem n))" "p_stream y < length (streams (mem n))"
      using assms(2,4) y(2) by (auto simp: net_wf_def)
    have own: "get_inside (gpcs n ! q) \<Longrightarrow> s_lock (streams (mem n) ! p_stream y) = Some (Getter q)"
      using assms(3) ql(1) y(2) by (simp add: locks_ok_def)
    note turn = get_turn_lock [OF y(3) own]
    have wf: "net_wf n'" using assms(4) ql y(2,4) by (auto simp: net_wf_def nth_list_update split: if_splits)
    have getters: "s_lock (streams (mem n') ! p_stream x) = Some (Getter p)"
      if "p < length (prods (mem n'))" "prods (mem n') ! p = Some x" "get_inside (gpcs n' ! p)" for p x
    proof (cases "p = q")
      case True
      with that y(4) ql(1) len have "x = y\<lparr>p_idx := i\<rparr>" "get_inside pc" by simp_all
      with True y(4) ql(2) turn(1) show ?thesis by simp
    next
      case False
      with that y(4) have "s_lock (streams (mem n) ! p_stream x) = Some (Getter p)"
        using assms(3) by (simp add: locks_ok_def)
      with False y(4) ql(2) turn(2) [of "Getter p"] show ?thesis by (simp add: nth_list_update)
    qed
    have putters: "s_lock (streams (mem n') ! j) = Some (Putter j)"
      if "j < length (streams (mem n'))" "put_inside (ppcs n' ! j)" for j
    proof -
      have "s_lock (streams (mem n) ! j) = Some (Putter j)" using that y(4) assms(3) by (simp add: locks_ok_def)
      with y(4) ql(2) turn(2) [of "Putter j"] show ?thesis by (simp add: nth_list_update)
    qed
    show ?thesis using getters putters wf by (simp add: locks_ok_def)
  qed
qed

lemma locks_put:
  assumes "put_next j v n = Some n'" "j < length (ppcs n)" "locks_ok n" "net_wf n"
  shows "locks_ok n' \<and> net_wf n'"
proof -
  obtain st pc ins where t: "put_turn j v (streams (mem n) ! j) (ppcs n ! j) = Some (st, pc, ins)"
    and n': "n' = n\<lparr>mem := (mem n)\<lparr>streams := (streams (mem n))[j := st]\<rparr>,
         ppcs := (ppcs n)[j := pc], sent := (sent n)[j := sent n ! j @ ins]\<rparr>"
    using assms(1) by (auto simp: put_next_def split: option.splits)
  have jl: "j < length (streams (mem n))" "length (ppcs n) = length (streams (mem n))"
    using assms(2,4) by (auto simp: net_wf_def)
  have own: "put_inside (ppcs n ! j) \<Longrightarrow> s_lock (streams (mem n) ! j) = Some (Putter j)"
    using assms(3) jl(1) by (simp add: locks_ok_def)
  note turn = put_turn_lock [OF t own]
  have wf: "net_wf n'" using assms(4) by (simp add: net_wf_def n')
  have getters: "s_lock (streams (mem n') ! p_stream x) = Some (Getter p)"
    if "p < length (prods (mem n'))" "prods (mem n') ! p = Some x" "get_inside (gpcs n' ! p)" for p x
  proof -
    have "s_lock (streams (mem n) ! p_stream x) = Some (Getter p)" using that assms(3) by (simp add: locks_ok_def n')
    with jl(1) turn(2) [of "Getter p"] show ?thesis by (simp add: n' nth_list_update)
  qed
  have putters: "s_lock (streams (mem n') ! i) = Some (Putter i)"
    if "i < length (streams (mem n'))" "put_inside (ppcs n' ! i)" for i
  proof (cases "i = j")
    case True
    with that jl turn(1) show ?thesis by (simp add: n')
  next
    case False
    with that assms(3) show ?thesis by (simp add: locks_ok_def n')
  qed
  show ?thesis using getters putters wf by (simp add: locks_ok_def)
qed

lemma locks_reach: "net_reach n0 n \<Longrightarrow> locks_ok n0 \<Longrightarrow> net_wf n0 \<Longrightarrow> locks_ok n \<and> net_wf n"
proof (induction rule: net_reach.induct)
  case (getter n0 n p n')
  from locks_get [OF getter.hyps(3,2)] getter.IH getter.prems show ?case by blast
next
  case (putter n0 n j v n')
  from locks_put [OF putter.hyps(3,2)] putter.IH putter.prems show ?case by blast
qed simp

text \<open>C21: Mutual exclusion for any number of consumers: whatever the program's threads do, two threads
  that are between taking and giving back the lock of the same stream are the same thread.\<close>

theorem stream_lock_exclusive:
  assumes "\<And>p x. p < length (prods m) \<Longrightarrow> prods m ! p = Some x \<Longrightarrow> p_stream x < length (streams m)"
    and "net_reach (idle_net m) n" "p < length (prods (mem n))" "prods (mem n) ! p = Some x" "get_inside (gpcs n ! p)"
  shows "s_lock (streams (mem n) ! p_stream x) = Some (Getter p) \<and> \<not> put_inside (ppcs n ! p_stream x) \<and>
     \<not> (q < length (prods (mem n)) \<and> q \<noteq> p \<and> prods (mem n) ! q = Some y \<and> p_stream y = p_stream x \<and>
        get_inside (gpcs n ! q))"
proof -
  have "locks_ok (idle_net m)" by (simp add: locks_ok_def idle_net_def)
  moreover have "net_wf (idle_net m)" using assms(1) by (simp add: net_wf_def idle_net_def)
  ultimately have inv: "locks_ok n" "net_wf n" using locks_reach [OF assms(2)] by blast+
  then have "p_stream x < length (streams (mem n))" using assms(3,4) by (simp add: net_wf_def)
  then show ?thesis using inv(1) assms(3-5) unfolding locks_ok_def by (metis agent.distinct(1) agent.inject(1) option.inject)
qed

theorem stream_lock_exclusive_witness:
  "\<exists>n. net_reach (idle_net one_consumer) n \<and> gpcs n ! 1 = GTest1 \<and> s_lock (streams (mem n) ! 0) = Some (Getter 1)"
proof -
  have "case play (replicate 2 (Get 1)) (idle_net one_consumer) of None \<Rightarrow> False | Some n \<Rightarrow>
      length (prods (mem n)) = 2 \<and> prods (mem n) ! 1 = Some \<lparr>p_idx = 0, p_stream = 0, p_next = NULL, p_prev = NULL\<rparr> \<and>
      gpcs n ! 1 = GTest1"
    by code_simp
  then obtain n where n: "play (replicate 2 (Get 1)) (idle_net one_consumer) = Some n" "length (prods (mem n)) = 2"
    "prods (mem n) ! 1 = Some \<lparr>p_idx = 0, p_stream = 0, p_next = NULL, p_prev = NULL\<rparr>" "gpcs n ! 1 = GTest1"
    by (auto split: option.splits)
  have reach: "net_reach (idle_net one_consumer) n" by (rule play_reach [OF n(1) net_reach.start])
  have "p_stream x < length (streams one_consumer)"
    if "p < length (prods one_consumer)" "prods one_consumer ! p = Some x" for p x
    using that by (auto simp: one_consumer_def less_Suc_eq)
  from stream_lock_exclusive [OF this reach _ n(3)] n(2,4) reach show ?thesis by auto
qed

section \<open>How a call goes on\<close>

text \<open>The first wait of \<open>get\<close> holds back a consumer with exactly one token to read.\<close>

lemma waits1_iff:
  assumes "g \<le> s" "s \<le> g + 5"
  shows "(g mod 5 + 1) mod 5 = s mod 5 mod 5 \<longleftrightarrow> s = g + (1::nat)"
proof -
  have "(g mod 5 + 1) mod 5 = (g + 1) mod 5" by (simp add: mod_simps)
  moreover have "(g + 1) mod 5 \<noteq> s mod 5" if "s \<noteq> g + 1"
    by (rule slot_distinct [where m = "max s (g + 1) + 1"]) (use assms that in auto)
  ultimately show ?thesis by (cases "s = g + 1") simp_all
qed

lemma edge_waits:
  assumes "edge_ok j p st i g pp snt gt"
  shows "get_waits1 st i \<longleftrightarrow> length snt = length gt + 1" "get_waits2 st i \<longleftrightarrow> length snt = length gt"
proof -
  have ok: "slots_ok st snt (length gt)" "length gt \<le> length snt" "length snt \<le> length gt + 5" "i = length gt mod 5"
    "s_consumers st = 1" using assms edge_ok_bound [OF assms] by (simp_all add: edge_ok_def)
  show "get_waits1 st i \<longleftrightarrow> length snt = length gt + 1"
    using ok(1,4) waits1_iff [OF ok(2,3)] by (simp only: get_waits1_def BUFFER_SIZE_def slots_ok_def)
  have "s_read_count st ! (length gt mod 5) = 0" if "length gt < length snt"
    using ok(1,3) that by (simp add: slots_ok_def)
  then show "get_waits2 st i \<longleftrightarrow> length snt = length gt"
    using read_count_old [OF ok(1-3) _ ok(5)] ok(2,4,5)
    by (cases "length gt < length snt") (auto simp: get_waits2_def not_le [symmetric])
qed

lemma edge_invD:
  assumes "edge_inv s p n"
  obtains x where "prods (mem n) ! p = Some x" "p_stream x = s" "p < length (prods (mem n))" "p \<noteq> NULL"
    "s < length (streams (mem n))" "p < length (gpcs n)" "p < length (got n)" "s < length (ppcs n)" "s < length (sent n)"
    "edge_ok s p (streams (mem n) ! s) (p_idx x) (gpcs n ! p) (ppcs n ! s) (sent n ! s) (got n ! p)"
proof -
  have sole: "sole_edge s p n" using assms by (simp add: edge_inv_def)
  then have r: "only_reader s p (readers (mem n))" by (simp add: sole_edge_def)
  obtain x where x: "prods (mem n) ! p = Some x" "p_stream x = s" "p < length (prods (mem n))" "p \<noteq> NULL"
    by (rule only_readerD [OF r]) (rule that)
  show thesis
    by (rule that [OF x]) (use assms sole x(1,3) in \<open>simp_all add: sole_edge_def edge_inv_def\<close>)
qed

text \<open>Turns of one getter change only its cell and its stream.\<close>

definition get_at :: "'v net \<Rightarrow> ptr \<Rightarrow> producer \<Rightarrow> 'v stream \<times> nat \<times> get_pc \<times> 'v list \<Rightarrow> 'v net" where
  "get_at n p x t = (case t of (st, i, pc, out) \<Rightarrow> n\<lparr>
     mem := (mem n)\<lparr>streams := (streams (mem n))[p_stream x := st], prods := (prods (mem n))[p := Some (x\<lparr>p_idx := i\<rparr>)]\<rparr>,
     gpcs := (gpcs n)[p := pc], got := (got n)[p := got n ! p @ out]\<rparr>)"

definition reads_cell :: "'v net \<Rightarrow> ptr \<Rightarrow> producer \<Rightarrow> bool" where
  "reads_cell n p x \<longleftrightarrow> p \<noteq> NULL \<and> prods (mem n) ! p = Some x \<and> p < length (prods (mem n)) \<and> p < length (gpcs n) \<and>
     p < length (got n) \<and> p_stream x < length (streams (mem n))"

lemma get_at_start: "reads_cell n p x \<Longrightarrow> n = get_at n p x (streams (mem n) ! p_stream x, p_idx x, gpcs n ! p, [])"
proof -
  assume r: "reads_cell n p x"
  then have "(prods (mem n))[p := Some x] = prods (mem n)" by (metis list_update_id reads_cell_def)
  then show ?thesis by (simp add: get_at_def)
qed

lemma play_get_at:
  assumes "reads_cell n p x"
  shows "play (Get p # ts) (get_at n p x (st, i, pc, out)) =
    (case get_turn p st i pc of None \<Rightarrow> None
     | Some (st1, i1, pc1, out1) \<Rightarrow> play ts (get_at n p x (st1, i1, pc1, out @ out1)))"
  using assms by (simp add: reads_cell_def get_at_def get_next_def prod_at_def split: option.split)

lemma replicate_six: "replicate 6 x = [x, x, x, x, x, x]"
  by (simp add: eval_nat_numeral)

lemma get_completes:
  assumes "edge_inv s p n" "gpcs n ! p = GIdle" "\<not> put_inside (ppcs n ! s)"
    "length (got n ! p) + 2 \<le> length (sent n ! s)"
  shows "\<exists>n'. play (replicate 6 (Get p)) n = Some n' \<and> gpcs n' ! p = GIdle \<and>
     got n' ! p = got n ! p @ [sent n ! s ! length (got n ! p)]"
proof (rule edge_invD [OF assms(1)])
  fix x
  let ?st = "streams (mem n) ! s" and ?v = "sent n ! s ! length (got n ! p)"
  assume x: "prods (mem n) ! p = Some x" "p_stream x = s" "p < length (prods (mem n))" "p \<noteq> NULL"
    "s < length (streams (mem n))" "p < length (gpcs n)" "p < length (got n)"
    and ok: "edge_ok s p ?st (p_idx x) (gpcs n ! p) (ppcs n ! s) (sent n ! s) (got n ! p)"
  let ?l = "?st\<lparr>s_lock := Some (Getter p)\<rparr>"
  have r: "reads_cell n p x" using x by (simp add: reads_cell_def)
  have "s_lock ?st = None" "\<not> get_waits1 ?st (p_idx x)" "\<not> get_waits2 ?st (p_idx x)"
    using ok edge_waits [OF ok] assms(2-4) by (simp_all add: edge_ok_def)
  then have free: "s_lock ?st = None" "\<not> get_waits1 ?l (p_idx x)" "\<not> get_waits2 ?l (p_idx x)"
    by (simp_all add: get_waits1_def get_waits2_def)
  have "s_buffer ?l ! p_idx x = ?v" using ok assms(4) edge_ok_bound [OF ok] by (simp add: edge_ok_def slots_ok_def)
  then obtain st1 where body: "get_body ?l (p_idx x) = (?v, st1, (p_idx x + 1) mod 5)"
    by (auto simp: get_body_def BUFFER_SIZE_def Let_def)
  have "play (replicate 6 (Get p)) (get_at n p x (?st, p_idx x, GIdle, [])) =
      Some (get_at n p x (st1\<lparr>s_lock := None\<rparr>, (p_idx x + 1) mod 5, GIdle, [?v]))"
    by (simp add: replicate_six play_get_at [OF r] get_turn_def free body del: play.simps(2))
  moreover have "get_at n p x (?st, p_idx x, GIdle, []) = n"
    using get_at_start [OF r] x(2) assms(2) by simp
  ultimately have "play (replicate 6 (Get p)) n =
      Some (get_at n p x (st1\<lparr>s_lock := None\<rparr>, (p_idx x + 1) mod 5, GIdle, [?v]))" by argo
  then show ?thesis using x by (simp add: get_at_def)
qed

text \<open>With fewer than two tokens to read the getter stays in its waits.\<close>

fun waiting_pc :: "get_pc \<Rightarrow> bool \<Rightarrow> bool" where
  "waiting_pc GTest2 none = none"
| "waiting_pc GWait2 none = none"
| "waiting_pc GBody none = False"
| "waiting_pc GUnlock none = False"
| "waiting_pc _ none = True"

lemma get_turn_waiting:
  assumes "edge_ok j p st i g pp snt gt" "length snt < length gt + 2" "waiting_pc g (length snt = length gt)"
    "get_turn p st i g = Some (st', i', g', out)"
  shows "out = [] \<and> waiting_pc g' (length snt = length gt)"
proof -
  have "length gt \<le> length snt" using assms(1) unfolding edge_ok_def by blast
  then have w: "get_waits1 st i \<or> length snt = length gt" "length snt = length gt \<Longrightarrow> get_waits2 st i"
    using edge_waits [OF assms(1)] assms(2) by auto
  show ?thesis using assms(3,4) w by (cases g) (auto simp: get_turn_def split: if_splits)
qed

lemma get_waiting:
  assumes "play (replicate k (Get p)) n = Some n'" "edge_inv s p n" "length (sent n ! s) < length (got n ! p) + 2"
    "waiting_pc (gpcs n ! p) (length (sent n ! s) = length (got n ! p))"
  shows "got n' ! p = got n ! p"
  using assms
proof (induction k arbitrary: n)
  case (Suc k)
  from Suc.prems(1) obtain n1 where g: "p < length (gpcs n)" "get_next p n = Inr (Some n1)"
    "play (replicate k (Get p)) n1 = Some n'" by (auto split: if_splits sum.splits option.splits)
  have inv: "edge_inv s p n1" by (rule edge_inv_get [OF g(2,1) Suc.prems(2)])
  have "got n1 ! p = got n ! p \<and> sent n1 = sent n \<and> waiting_pc (gpcs n1 ! p) (length (sent n ! s) = length (got n ! p))"
  proof (rule edge_invD [OF Suc.prems(2)])
    fix x
    assume x: "prods (mem n) ! p = Some x" "p_stream x = s" "p < length (prods (mem n))" "p \<noteq> NULL" "p < length (got n)"
      and ok: "edge_ok s p (streams (mem n) ! s) (p_idx x) (gpcs n ! p) (ppcs n ! s) (sent n ! s) (got n ! p)"
    obtain st i pc out where t: "get_turn p (streams (mem n) ! s) (p_idx x) (gpcs n ! p) = Some (st, i, pc, out)"
      "n1 = n\<lparr>mem := (mem n)\<lparr>streams := (streams (mem n))[s := st],
                        prods := (prods (mem n))[p := Some (x\<lparr>p_idx := i\<rparr>)]\<rparr>,
         gpcs := (gpcs n)[p := pc], got := (got n)[p := got n ! p @ out]\<rparr>"
      using g(2) x by (auto simp: get_next_def prod_at_def split: option.splits)
    from get_turn_waiting [OF ok Suc.prems(3,4) t(1)] t(2) x(5) g(1) show ?thesis by simp
  qed
  then show ?case using Suc.IH [OF g(3) inv] Suc.prems(3) by simp
qed simp

text \<open>Turns of the thread that puts.\<close>

definition put_at :: "'v net \<Rightarrow> nat \<Rightarrow> 'v stream \<times> 'v put_pc \<times> 'v list \<Rightarrow> 'v net" where
  "put_at n j t = (case t of (st, pc, ins) \<Rightarrow> n\<lparr>
     mem := (mem n)\<lparr>streams := (streams (mem n))[j := st]\<rparr>,
     ppcs := (ppcs n)[j := pc], sent := (sent n)[j := sent n ! j @ ins]\<rparr>)"

lemma put_at_start: "n = put_at n j (streams (mem n) ! j, ppcs n ! j, [])"
  by (simp add: put_at_def)

lemma play_put_at:
  assumes "j < length (streams (mem n))" "j < length (ppcs n)" "j < length (sent n)"
  shows "play (Put j v # ts) (put_at n j (st, pc, ins)) =
    (case put_turn j v st pc of None \<Rightarrow> None
     | Some (st1, pc1, ins1) \<Rightarrow> play ts (put_at n j (st1, pc1, ins @ ins1)))"
  using assms by (simp add: put_at_def put_next_def split: option.split)

lemma put_completes:
  assumes "edge_inv s p n" "ppcs n ! s = PIdle" "\<not> get_inside (gpcs n ! p)"
    "length (sent n ! s) < length (got n ! p) + 5"
  shows "\<exists>n'. play (replicate 6 (Put s v)) n = Some n' \<and> ppcs n' ! s = PIdle \<and> sent n' ! s = sent n ! s @ [v]"
proof (rule edge_invD [OF assms(1)])
  fix x
  let ?st = "streams (mem n) ! s"
  assume x: "s < length (streams (mem n))" "s < length (ppcs n)" "s < length (sent n)"
    and ok: "edge_ok s p ?st (p_idx x) (gpcs n ! p) (ppcs n ! s) (sent n ! s) (got n ! p)"
  let ?l = "?st\<lparr>s_empty := s_empty ?st - 1, s_lock := Some (Putter s)\<rparr>"
  have "slots_ok ?st (sent n ! s) (length (got n ! p))" "length (got n ! p) \<le> length (sent n ! s)" "s_consumers ?st = 1"
    "s_lock ?st = None" "s_empty ?st + (length (sent n ! s) - length (got n ! p)) = 5"
    using ok assms(2,3) by (simp_all add: edge_ok_def)
  then have free: "s_lock ?st = None" "s_empty ?st > 0" "\<not> put_waits ?l"
    using assms(4) put_never_waits [of ?l "sent n ! s" "length (got n ! p)"] by simp_all
  have "play (replicate 6 (Put s v)) (put_at n s (?st, PIdle, [])) =
      Some (put_at n s (put_body v ?l\<lparr>s_lock := None\<rparr>, PIdle, [v]))"
    using free by (simp add: replicate_six play_put_at [OF x] put_turn_def del: play.simps(3))
  moreover have "put_at n s (?st, PIdle, []) = n" using put_at_start [of n s] assms(2) by simp
  ultimately have "play (replicate 6 (Put s v)) n = Some (put_at n s (put_body v ?l\<lparr>s_lock := None\<rparr>, PIdle, [v]))"
    by argo
  then show ?thesis using x by (simp add: put_at_def)
qed

lemma put_waits_full:
  assumes "edge_inv s p n" "ppcs n ! s = PIdle" "length (sent n ! s) = length (got n ! p) + 5"
  shows "play (replicate 2 (Put s v)) n = None"
proof (rule edge_invD [OF assms(1)])
  fix x
  assume x: "s < length (streams (mem n))" "s < length (ppcs n)" "s < length (sent n)"
    and ok: "edge_ok s p (streams (mem n) ! s) (p_idx x) (gpcs n ! p) (ppcs n ! s) (sent n ! s) (got n ! p)"
  have "s_empty (streams (mem n) ! s) = 0" using ok assms(2,3) by (simp add: edge_ok_def)
  then show ?thesis using x assms(2) by (simp add: numeral_2_eq_2 put_next_def put_turn_def)
qed

text \<open>C22: How far a caller gets by its own turns alone, on a stream with one consumer, when neither the consumer nor the producer is
  inside a call: a call of \<open>get\<close> returns the next token, in six turns, when two or more tokens wait, and with one token or none it
  stays in its waits however many turns it takes while nobody else takes one; a call of \<open>put\<close> returns, in six turns,
  when fewer than five tokens wait, and with five it stops at the semaphore.\<close>

theorem stream_progress:
  assumes "connected_once s p m" "net_reach (idle_net m) n" "gpcs n ! p = GIdle" "ppcs n ! s = PIdle"
  shows "(if length (got n ! p) + 2 \<le> length (sent n ! s)
     then \<exists>n'. play (replicate 6 (Get p)) n = Some n' \<and> gpcs n' ! p = GIdle \<and>
            got n' ! p = got n ! p @ [sent n ! s ! length (got n ! p)]
     else \<forall>k n'. play (replicate k (Get p)) n = Some n' \<longrightarrow> got n' ! p = got n ! p) \<and>
    (if length (sent n ! s) < length (got n ! p) + 5
     then \<exists>n'. play (replicate 6 (Put s v)) n = Some n' \<and> ppcs n' ! s = PIdle \<and> sent n' ! s = sent n ! s @ [v]
     else play (replicate 2 (Put s v)) n = None)"
    (is "?get \<and> ?put")
proof -
  have inv: "edge_inv s p n" by (rule edge_inv_reach [OF assms(2) edge_inv_idle [OF assms(1)]])
  have "length (sent n ! s) \<le> length (got n ! p) + 5"
    using inv edge_ok_bound unfolding edge_inv_def by blast
  then have ?put using put_completes [OF inv assms(4)] put_waits_full [OF inv assms(4)] assms(3) by simp
  moreover have ?get
    using get_completes [OF inv assms(3)] get_waiting [OF _ inv] assms(3,4) by (auto simp: not_le)
  ultimately show ?thesis by blast
qed

theorem stream_progress_witness:
  "\<exists>n n'. play (replicate 6 (Put 0 (8::int)) @ replicate 6 (Put 0 9)) (idle_net one_consumer) = Some n \<and>
     sent n ! 0 = [8, 9] \<and> play (replicate 6 (Get 1)) n = Some n' \<and> got n' ! 1 = [8]"
proof -
  have "case play (replicate 6 (Put 0 (8::int)) @ replicate 6 (Put 0 9)) (idle_net one_consumer) of None \<Rightarrow> False
    | Some n \<Rightarrow> gpcs n ! 1 = GIdle \<and> ppcs n ! 0 = PIdle \<and> got n ! 1 = [] \<and> sent n ! 0 = [8, 9]"
    by code_simp
  then obtain n where n: "play (replicate 6 (Put 0 (8::int)) @ replicate 6 (Put 0 9)) (idle_net one_consumer) = Some n"
    and st: "gpcs n ! 1 = GIdle" "ppcs n ! 0 = PIdle" "got n ! 1 = []" "sent n ! 0 = [8, 9]"
    by (auto split: option.splits)
  have "net_reach (idle_net one_consumer) n" by (rule play_reach [OF n net_reach.start])
  from stream_progress [OF one_consumer_connected this st(1,2)] n st(3,4) show ?thesis by auto
qed

section \<open>Two consumers\<close>

definition two_consumers :: "int mem" where
  "two_consumers = \<lparr>streams = [init_stream raw_stream\<lparr>s_consumers := 2\<rparr>,
       init_stream raw_stream\<lparr>s_prod_head := 1, s_prod_curr := 1\<rparr>,
       init_stream raw_stream\<lparr>s_prod_head := 2, s_prod_curr := 2\<rparr>],
     prods = [None, Some \<lparr>p_idx = 0, p_stream = 0, p_next = NULL, p_prev = NULL\<rparr>,
                    Some \<lparr>p_idx = 0, p_stream = 0, p_next = NULL, p_prev = NULL\<rparr>]\<rparr>"

text \<open>The first consumer waits inside \<open>get\<close> before every token; the second takes no turn.\<close>

definition wait_and_put :: "int \<Rightarrow> int turn list" where
  "wait_and_put v = replicate 4 (Get 1) @ put_one 0 v @ replicate 4 (Get 1)"

definition first_ahead :: "int turn list" where
  "first_ahead = concat (map wait_and_put [1, 2, 3, 4, 5]) @ replicate 6 (Get 1)"

definition second_late :: "int turn list" where
  "second_late = put_one 0 6 @ replicate 6 (Get 1) @ put_one 0 7 @ replicate 6 (Get 2)"

lemma two_consumers_run:
  "case play first_ahead (idle_net two_consumers) of None \<Rightarrow> False | Some n \<Rightarrow>
     sent n ! 0 = [1, 2, 3, 4, 5] \<and> got n ! 1 = [1, 2, 3, 4, 5, 1] \<and>
     (case play second_late n of None \<Rightarrow> False | Some n' \<Rightarrow>
        sent n' ! 0 = [1, 2, 3, 4, 5, 6, 7] \<and> got n' ! 1 = [1, 2, 3, 4, 5, 1, 2] \<and> got n' ! 2 = [6])"
  by code_simp

text \<open>With two consumers at different rates a stream is not a queue: connected as the library connects
  them, the first consumer can be handed token 1 a second time when it is five tokens ahead, which
  counts as the second consumer's read; the producer then writes over tokens the second consumer never
  saw, and the first token it gets is the sixth.\<close>

theorem stream_two_consumers:
  "bindE (stream_connect 1 0 (fresh_mem 3)) (stream_connect 2 0) = Inr two_consumers \<and>
   (\<exists>n n'. net_reach (idle_net two_consumers) n \<and> sent n ! 0 = [1, 2, 3, 4, 5] \<and> got n ! 1 = [1, 2, 3, 4, 5, 1] \<and>
      net_reach (idle_net two_consumers) n' \<and> sent n' ! 0 = [1, 2, 3, 4, 5, 6, 7] \<and> got n' ! 2 = [6])"
proof -
  have built: "bindE (stream_connect 1 0 (fresh_mem 3)) (stream_connect 2 0) = Inr two_consumers" by code_simp
  obtain n n' where n: "play first_ahead (idle_net two_consumers) = Some n" "sent n ! 0 = [1, 2, 3, 4, 5]"
    "got n ! 1 = [1, 2, 3, 4, 5, 1]" "play second_late n = Some n'" "sent n' ! 0 = [1, 2, 3, 4, 5, 6, 7]" "got n' ! 2 = [6]"
    using two_consumers_run by (auto split: option.splits)
  have "net_reach (idle_net two_consumers) n" by (rule play_reach [OF n(1) net_reach.start])
  moreover from this have "net_reach (idle_net two_consumers) n'" by (rule play_reach [OF n(4)])
  ultimately show ?thesis using built n by blast
qed

end
