(* ===== verification/Streams_Links.thy ===== *)
theory Streams_Links
  imports Streams
begin

text \<open>
  Connections that come and go: the doubly linked list of the producers a stream reads from, what
  \<open>stream_connect\<close> does to it, and what \<open>stream_disconnect\<close> does to it, to the freed cell and to the
  counters of the producer.
\<close>

section \<open>The list of producers\<close>

lemma prod_at_streams [simp]: "prod_at (m\<lparr>streams := ss\<rparr>) p = prod_at m p"
  by (simp add: prod_at_def)

lemma prod_at_Inr: "prod_at m p = Inr x \<longleftrightarrow> p \<noteq> NULL \<and> p < length (prods m) \<and> prods m ! p = Some x"
  by (auto simp: prod_at_def split: option.split)

lemma prod_set_at:
  assumes "prod_at m p = Inr x"
  shows "\<exists>m'. prod_set m p f = Inr m' \<and> streams m' = streams m \<and> length (prods m') = length (prods m) \<and>
    (\<forall>q. prod_at m' q = (if q = p then Inr (f x) else prod_at m q))"
proof -
  let ?m = "m\<lparr>prods := (prods m)[p := Some (f x)]\<rparr>"
  have p: "p \<noteq> NULL" "p < length (prods m)" using assms by (simp_all add: prod_at_Inr)
  have "prod_set m p f = Inr ?m" using assms by (simp add: prod_set_def)
  moreover have "prod_at ?m q = (if q = p then Inr (f x) else prod_at m q)" for q
    using p by (simp add: prod_at_def)
  ultimately show ?thesis by (intro exI [of _ ?m]) simp
qed

lemma prod_at_freed:
  "prod_at (m\<lparr>streams := ss, prods := (prods m)[p := None]\<rparr>) q =
    (if q = p \<and> q \<noteq> NULL then Inl BadDeref else prod_at m q)"
  by (auto simp: prod_at_def nth_list_update split: option.split)

text \<open>The cells from \<open>p\<close> to \<open>e\<close>, the first one pointing back to \<open>pr\<close>.\<close>

fun seg :: "'v mem \<Rightarrow> ptr \<Rightarrow> ptr \<Rightarrow> ptr list \<Rightarrow> ptr \<Rightarrow> bool" where
  "seg m pr p [] e = (p = e)"
| "seg m pr p (q # qs) e = (p = q \<and> (case prod_at m q of Inl _ \<Rightarrow> False
     | Inr x \<Rightarrow> p_prev x = pr \<and> seg m q (p_next x) qs e))"

lemma seg_append: "seg m pr p (as @ bs) e \<longleftrightarrow> (\<exists>r. seg m pr p as r \<and> seg m (last (pr # as)) r bs e)"
  by (induction as arbitrary: pr p) (auto split: sum.split)

lemma seg_cong: "(\<And>q. q \<in> set ps \<Longrightarrow> prod_at m' q = prod_at m q) \<Longrightarrow> seg m' pr p ps e = seg m pr p ps e"
  by (induction ps arbitrary: pr p) (auto split: sum.split)

lemma snoc_parts:
  assumes "distinct ps" "ps \<noteq> []"
  shows "ps = butlast ps @ [last ps]" "last ps \<notin> set (butlast ps)" "last ps \<in> set ps"
  using assms by (cases ps rule: rev_cases, simp_all)+

lemma seg_streams [simp]: "seg (m\<lparr>streams := ss\<rparr>) pr p ps e = seg m pr p ps e"
  by (rule seg_cong) simp

lemma seg_cells: "seg m pr p ps e \<Longrightarrow> q \<in> set ps \<Longrightarrow> \<exists>x. prod_at m q = Inr x"
  by (induction ps arbitrary: pr p) (auto split: sum.splits)

lemma seg_snocI:
  assumes "seg m pr p ps q" "ps \<noteq> []" "prod_at m q = Inr x" "p_prev x = last ps" "p_next x = e"
  shows "seg m pr p (ps @ [q]) e"
  unfolding seg_append using assms by (intro exI [of _ q]) simp

lemma seg_set_next:
  assumes "seg m pr p (as @ [a]) e" "a \<notin> set as" "prod_at m a = Inr x" "prod_at m' a = Inr (x\<lparr>p_next := e'\<rparr>)"
    "\<And>q. q \<in> set as \<Longrightarrow> prod_at m' q = prod_at m q"
  shows "seg m' pr p (as @ [a]) e'"
  using assms seg_cong [of as m' m] by (auto simp: seg_append)

lemma seg_set_prev:
  assumes "seg m pr p (b # bs) e" "prod_at m b = Inr x" "prod_at m' b = Inr (x\<lparr>p_prev := pr'\<rparr>)"
    "\<And>q. q \<in> set bs \<Longrightarrow> prod_at m' q = prod_at m q"
  shows "seg m' pr' p (b # bs) e"
  using assms seg_cong [of bs m' m] by simp

definition linked :: "'v mem \<Rightarrow> nat \<Rightarrow> ptr list \<Rightarrow> bool" where
  "linked m k ps \<longleftrightarrow> seg m NULL (s_prod_head (streams m ! k)) ps NULL \<and> distinct ps \<and>
     (ps \<noteq> [] \<longrightarrow> s_prod_curr (streams m ! k) = last ps)"

definition source_of :: "'v mem \<Rightarrow> ptr \<Rightarrow> nat option" where
  "source_of m p = (case prod_at m p of Inl _ \<Rightarrow> None | Inr x \<Rightarrow> Some (p_stream x))"

lemma source_of_streams [simp]: "source_of (m\<lparr>streams := ss\<rparr>) p = source_of m p"
  by (simp add: source_of_def)

lemma linked_bound: "seg m pr p ps e \<Longrightarrow> distinct ps \<Longrightarrow> length ps \<le> length (prods m)"
proof -
  assume s: "seg m pr p ps e" "distinct ps"
  then have "set ps \<subseteq> {..<length (prods m)}" using seg_cells [OF s(1)] by (fastforce simp: prod_at_Inr)
  then have "card (set ps) \<le> length (prods m)" using card_mono [of "{..<length (prods m)}"] by simp
  then show ?thesis using s(2) by (simp add: distinct_card)
qed

section \<open>Connecting\<close>

text \<open>The streams after \<open>stream_connect\<close> has made the cell \<open>p\<close>.\<close>

definition streams_connected :: "nat \<Rightarrow> nat \<Rightarrow> ptr \<Rightarrow> 'v stream list \<Rightarrow> 'v stream list" where
  "streams_connected k j p ss =
     (let st = ss ! k;
          ss = ss[k := st\<lparr>s_prod_head := (if s_prod_head st = NULL then p else s_prod_head st), s_prod_curr := p\<rparr>] in
      ss[j := (ss ! j)\<lparr>s_consumers := s_consumers (ss ! j) + 1\<rparr>])"

lemma stream_connect_effect:
  assumes "linked m k ps" "k < length (streams m)" "j < length (streams m)" "prods m \<noteq> []"
  shows "\<exists>m' x. stream_connect k j m = Inr m' \<and> linked m' k (ps @ [length (prods m)]) \<and>
     length (prods m') = Suc (length (prods m)) \<and> streams m' = streams_connected k j (length (prods m)) (streams m) \<and>
     prod_at m' (length (prods m)) = Inr x \<and> p_stream x = j \<and> p_idx x = s_put_idx (streams m ! j) \<and>
     (\<forall>q \<in> set ps. \<exists>y y'. prod_at m q = Inr y \<and> prod_at m' q = Inr y' \<and> p_stream y' = p_stream y \<and> p_idx y' = p_idx y) \<and>
     (\<forall>q. q \<notin> set ps \<longrightarrow> q \<noteq> length (prods m) \<longrightarrow> prod_at m' q = prod_at m q)"
proof -
  let ?p = "length (prods m)" and ?st = "streams m ! k"
  let ?x = "\<lparr>p_idx = s_put_idx (streams m ! j), p_stream = j, p_next = NULL, p_prev = NULL\<rparr>"
  define m1 where "m1 = m\<lparr>prods := prods m @ [Some ?x]\<rparr>"
  have at1: "prod_at m1 ?p = Inr ?x" "\<And>q. q \<noteq> ?p \<Longrightarrow> prod_at m1 q = prod_at m q"
    using assms(4) by (auto simp: m1_def prod_at_def nth_append)
  have seg: "seg m NULL (s_prod_head ?st) ps NULL" "distinct ps" using assms(1) by (simp_all add: linked_def)
  have fresh: "?p \<notin> set ps" using seg_cells [OF seg(1)] by (auto simp: prod_at_Inr)
  let ?ss = "streams_connected k j ?p (streams m)"
  show ?thesis
  proof (cases ps)
    case Nil
    then have head: "s_prod_head ?st = NULL" using seg by simp
    have "stream_connect k j m = Inr (m1\<lparr>streams := ?ss\<rparr>)"
      by (simp add: stream_connect_def head m1_def streams_connected_def Let_def)
    moreover have "length (prods m1) = Suc ?p" by (simp add: m1_def)
    ultimately show ?thesis using Nil at1 assms(2,3) head
      by (simp add: linked_def streams_connected_def Let_def nth_list_update)
  next
    case (Cons b bs)
    let ?a = "last ps"
    have snoc: "ps = butlast ps @ [?a]" "?a \<notin> set (butlast ps)" "?a \<in> set ps"
      by (rule snoc_parts [OF seg(2)], use Cons in simp)+
    have curr: "s_prod_curr ?st = ?a" "s_prod_head ?st \<noteq> NULL"
      using assms(1) Cons seg_cells [OF seg(1), of b] by (auto simp: linked_def prod_at_Inr)
    obtain y where y: "prod_at m ?a = Inr y" using seg_cells [OF seg(1) snoc(3)] by blast
    have neq: "?a \<noteq> ?p" using fresh snoc(3) by metis
    obtain m2 where m2: "prod_set m1 ?p (p_prev_update (\<lambda>_. ?a)) = Inr m2" "streams m2 = streams m1"
      "\<And>q. prod_at m2 q = (if q = ?p then Inr (?x\<lparr>p_prev := ?a\<rparr>) else prod_at m1 q)"
      "length (prods m2) = length (prods m1)"
      using prod_set_at [OF at1(1), of "p_prev_update (\<lambda>_. ?a)"] by blast
    have y2: "prod_at m2 ?a = Inr y" using m2(3) at1(2) neq y by simp
    obtain m3 where m3: "prod_set m2 ?a (p_next_update (\<lambda>_. ?p)) = Inr m3" "streams m3 = streams m2"
      "\<And>q. prod_at m3 q = (if q = ?a then Inr (y\<lparr>p_next := ?p\<rparr>) else prod_at m2 q)"
      "length (prods m3) = length (prods m2)"
      using prod_set_at [OF y2, of "p_next_update (\<lambda>_. ?p)"] by blast
    have str: "streams m3 = streams m" by (simp add: m3(2) m2(2) m1_def)
    have at3: "prod_at m3 ?p = Inr (?x\<lparr>p_prev := ?a\<rparr>)" "prod_at m3 ?a = Inr (y\<lparr>p_next := ?p\<rparr>)"
      "\<And>q. q \<noteq> ?p \<Longrightarrow> q \<noteq> ?a \<Longrightarrow> prod_at m3 q = prod_at m q"
      using m3(3) m2(3) at1(2) neq by simp_all
    have len: "length (prods m3) = Suc ?p" using m2(4) m3(4) by (simp add: m1_def)
    have "(streams m)[k := ?st\<lparr>s_prod_curr := ?p\<rparr>] = (streams m)[k := ?st\<lparr>s_prod_head := s_prod_head ?st, s_prod_curr := ?p\<rparr>]"
      by simp
    then have "stream_connect k j m = Inr (m3\<lparr>streams := ?ss\<rparr>)"
      using m2(1) m3(1) by (simp add: stream_connect_def curr m1_def streams_connected_def str [unfolded m1_def] Let_def)
    moreover have "seg m3 NULL (s_prod_head ?st) ps ?p"
    proof -
      have "seg m3 NULL (s_prod_head ?st) (butlast ps @ [?a]) ?p"
      proof (rule seg_set_next [OF _ snoc(2) y at3(2)])
        show "seg m NULL (s_prod_head ?st) (butlast ps @ [?a]) NULL" using seg(1) snoc(1) by simp
        show "prod_at m3 q = prod_at m q" if "q \<in> set (butlast ps)" for q
          by (rule at3(3)) (use that snoc(2) fresh in_set_butlastD [OF that] in blast)+
      qed
      with snoc(1) show ?thesis by simp
    qed
    then have "seg m3 NULL (s_prod_head ?st) (ps @ [?p]) NULL"
      by (rule seg_snocI [OF _ _ at3(1)]) (simp_all add: Cons)
    moreover have "\<exists>x x'. prod_at m q = Inr x \<and> prod_at m3 q = Inr x' \<and> p_stream x' = p_stream x \<and> p_idx x' = p_idx x"
      if "q \<in> set ps" for q
    proof (cases "q = ?a")
      case False
      with that fresh have "prod_at m3 q = prod_at m q" by (intro at3(3)) auto
      then show ?thesis using seg_cells [OF seg(1) that] by auto
    qed (use at3(2) y in simp)
    moreover have "prod_at m3 q = prod_at m q" if "q \<notin> set ps" "q \<noteq> ?p" for q
      using that snoc(3) by (intro at3(3)) auto
    ultimately show ?thesis using at3(1) assms(2,3) seg(2) fresh len curr(2)
      by (simp add: linked_def streams_connected_def Let_def nth_list_update)
  qed
qed

text \<open>\<open>stream_connect\<close> refines appending to a list: the producers stream \<open>k\<close> reads from are the ones it
  had, in order, followed by a new cell that reads from \<open>j\<close> and starts where \<open>j\<close> writes next, and \<open>j\<close> has one
  consumer more.\<close>

theorem stream_connect_appends:
  assumes "linked m k ps" "k < length (streams m)" "j < length (streams m)" "prods m \<noteq> []"
  shows "\<exists>m' x. stream_connect k j m = Inr m' \<and> linked m' k (ps @ [length (prods m)]) \<and>
     prod_at m' (length (prods m)) = Inr x \<and> p_stream x = j \<and> p_idx x = s_put_idx (streams m ! j) \<and>
     s_consumers (streams m' ! j) = s_consumers (streams m ! j) + 1 \<and>
     (\<forall>q \<in> set ps. source_of m' q = source_of m q)"
proof -
  obtain m' x where c: "stream_connect k j m = Inr m'" "linked m' k (ps @ [length (prods m)])"
    "streams m' = streams_connected k j (length (prods m)) (streams m)" "prod_at m' (length (prods m)) = Inr x" "p_stream x = j"
    "p_idx x = s_put_idx (streams m ! j)"
    "\<forall>q \<in> set ps. \<exists>y y'. prod_at m q = Inr y \<and> prod_at m' q = Inr y' \<and> p_stream y' = p_stream y \<and> p_idx y' = p_idx y"
    using stream_connect_effect [OF assms] by blast
  moreover have "source_of m' q = source_of m q" if "q \<in> set ps" for q
    using c(7) that by (auto simp: source_of_def)
  ultimately show ?thesis using assms(2,3) by (auto simp: streams_connected_def Let_def nth_list_update)
qed

section \<open>Disconnecting\<close>

text \<open>The search stops at the first cell that reads from \<open>j\<close>, or at the end of the list.\<close>

lemma disconnect_loop_skip:
  assumes "seg m pr p as e" "\<And>a. a \<in> set as \<Longrightarrow> source_of m a \<noteq> Some j" "length as \<le> n"
  shows "disconnect_loop n j p m = disconnect_loop (n - length as) j e m"
  using assms
proof (induction as arbitrary: pr p n)
  case (Cons a as)
  obtain x where x: "p = a" "prod_at m a = Inr x" "seg m a (p_next x) as e"
    using Cons.prems(1) by (auto split: sum.splits)
  obtain n1 where n: "n = Suc n1" "length as \<le> n1" using Cons.prems(3) by (cases n) auto
  have "p_stream x \<noteq> j" using Cons.prems(2) [of a] x(2) by (simp add: source_of_def)
  moreover have "a \<noteq> NULL" using x(2) by (simp add: prod_at_Inr)
  ultimately show ?case using Cons.IH [OF x(3) _ n(2)] Cons.prems(2) x n(1) by simp
qed simp

text \<open>Taking a cell out of the middle or off the end of the list.\<close>

lemma unlink_inner:
  assumes "seg m NULL h (as @ q # bs) NULL" "distinct (as @ q # bs)" "as \<noteq> []"
  shows "\<exists>m'. unlink_prod q m = Inr m' \<and> seg m' NULL h (as @ bs) NULL \<and> streams m' = streams m \<and>
     length (prods m') = length (prods m) \<and> (\<forall>p. source_of m' p = source_of m p) \<and> (\<exists>y. prod_at m' q = Inr y)"
proof -
  let ?a = "last as"
  obtain x where x: "prod_at m q = Inr x" "p_prev x = ?a" "seg m NULL h as q" "seg m q (p_next x) bs NULL"
    using assms(1,3) by (auto simp: seg_append split: sum.splits)
  have as: "as = butlast as @ [?a]" "?a \<in> set as" "?a \<notin> set (butlast as)"
    using assms(2,3) snoc_parts [of as] by simp_all
  have qa: "q \<noteq> ?a" "?a \<notin> set bs" "q \<notin> set bs" "set as \<inter> set bs = {}" "distinct bs" using assms(2) as(2) by auto
  obtain y where y: "prod_at m ?a = Inr y" using seg_cells [OF x(3) as(2)] by blast
  obtain m1 where m1: "prod_set m ?a (p_next_update (\<lambda>_. p_next x)) = Inr m1" "streams m1 = streams m"
    "length (prods m1) = length (prods m)"
    "\<And>r. prod_at m1 r = (if r = ?a then Inr (y\<lparr>p_next := p_next x\<rparr>) else prod_at m r)"
    using prod_set_at [OF y, of "p_next_update (\<lambda>_. p_next x)"] by blast
  have s1: "source_of m1 r = source_of m r" for r using m1(4) y by (simp add: source_of_def)
  have left: "seg m1 NULL h as (p_next x)"
  proof -
    have "seg m1 NULL h (butlast as @ [?a]) (p_next x)"
    proof (rule seg_set_next [OF _ as(3) y])
      show "seg m NULL h (butlast as @ [?a]) q" using x(3) as(1) by simp
      show "prod_at m1 ?a = Inr (y\<lparr>p_next := p_next x\<rparr>)" by (simp add: m1(4))
      show "prod_at m1 r = prod_at m r" if "r \<in> set (butlast as)" for r using as(3) that m1(4) by auto
    qed
    with as(1) show ?thesis by simp
  qed
  have "prod_at m1 r = prod_at m r" if "r \<in> set bs" for r using that qa(2) m1(4) by auto
  from seg_cong [OF this, of bs] x(4) have right: "seg m1 q (p_next x) bs NULL" by blast
  show ?thesis
  proof (cases bs)
    case Nil
    then have "p_next x = NULL" using x(4) by simp
    moreover have "?a \<noteq> NULL" using y by (simp add: prod_at_Inr)
    ultimately have "unlink_prod q m = Inr m1" "seg m1 NULL h (as @ bs) NULL" "prod_at m1 q = Inr x"
      using m1(1,4) x(1,2) left Nil qa(1) by (simp_all add: unlink_prod_def)
    with m1 s1 show ?thesis by blast
  next
    case (Cons b cs)
    then obtain z where z: "p_next x = b" "prod_at m1 b = Inr z" "b \<noteq> NULL"
      using right by (auto simp: prod_at_Inr split: sum.splits)
    obtain m2 where m2: "prod_set m1 b (p_prev_update (\<lambda>_. ?a)) = Inr m2" "streams m2 = streams m1"
      "length (prods m2) = length (prods m1)"
      "\<And>r. prod_at m2 r = (if r = b then Inr (z\<lparr>p_prev := ?a\<rparr>) else prod_at m1 r)"
      using prod_set_at [OF z(2), of "p_prev_update (\<lambda>_. ?a)"] by blast
    have "?a \<noteq> NULL" using y by (simp add: prod_at_Inr)
    then have un: "unlink_prod q m = Inr m2" using x m1(1) m2(1) z by (simp add: unlink_prod_def)
    have nb: "b \<notin> set as" "b \<notin> set cs" using Cons qa(4,5) by auto
    have "prod_at m2 r = prod_at m1 r" if "r \<in> set as" for r using that nb(1) m2(4) by auto
    from seg_cong [OF this, of as] left z(1) have "seg m2 NULL h as b" by blast
    moreover have "seg m2 ?a b (b # cs) NULL"
      by (rule seg_set_prev [where pr = q and m = m1]) (use right Cons z m2(4) nb(2) in auto)
    ultimately have "seg m2 NULL h (as @ bs) NULL"
      unfolding seg_append using Cons assms(3) by auto
    moreover have "source_of m2 r = source_of m1 r" for r using m2(4) z(2) by (simp add: source_of_def)
    moreover have "prod_at m2 q = Inr x" using m2(4) m1(4) x(1) qa(1,3) Cons by auto
    ultimately show ?thesis using un m1(2,3) m2(2,3) s1 by auto
  qed
qed

text \<open>\<open>stream_disconnect\<close> on the cell \<open>q\<close> the search finds. The freed cell is out of the list when another
  cell stands before it. The head of the list is freed as well, but the list still starts with it.\<close>

lemma disconnect_found:
  assumes "linked m k (as @ q # bs)" "\<And>a. a \<in> set as \<Longrightarrow> source_of m a \<noteq> Some j" "source_of m q = Some j"
    "k < length (streams m)" "j < length (streams m)"
  shows "\<exists>m'. stream_disconnect k j m = Inr m' \<and> prod_at m' q = Inl BadDeref \<and>
     streams m' = (streams m)[j := forget_consumer (streams m ! j)] \<and>
     (if as = [] then s_prod_head (streams m' ! k) = q
      else seg m' NULL (s_prod_head (streams m' ! k)) (as @ bs) NULL \<and>
           (if bs = [] then s_prod_curr (streams m' ! k) = q else linked m' k (as @ bs)))"
proof -
  let ?h = "s_prod_head (streams m ! k)"
  have l: "seg m NULL ?h (as @ q # bs) NULL" "distinct (as @ q # bs)" using assms(1) by (simp_all add: linked_def)
  obtain x where x: "seg m NULL ?h as q" "prod_at m q = Inr x" "p_stream x = j" "p_prev x = last (NULL # as)"
    using l(1) assms(3) by (auto simp: seg_append source_of_def split: sum.splits)
  have len: "length as < length (prods m)" using linked_bound [OF l] by simp
  then obtain n where n: "Suc (length (prods m)) - length as = Suc n" by (metis Suc_diff_le less_imp_le)
  have loop: "stream_disconnect k j m = disconnect_loop (Suc n) j q m"
    using disconnect_loop_skip [OF x(1) assms(2), of "Suc (length (prods m))"] len n by (simp add: stream_disconnect_def)
  have q: "q \<noteq> NULL" using x(2) by (simp add: prod_at_Inr)
  have forget: "s_prod_head (forget_consumer st) = s_prod_head st" "s_prod_curr (forget_consumer st) = s_prod_curr st"
    for st :: "'a stream" by (simp_all add: forget_consumer_def)
  show ?thesis
  proof (cases "as = []")
    case True
    then show ?thesis using loop x q l(1) assms(4,5)
      by (simp add: unlink_prod_def Let_def prod_at_freed nth_list_update forget)
  next
    case False
    obtain m1 where m1: "unlink_prod q m = Inr m1" "seg m1 NULL ?h (as @ bs) NULL" "streams m1 = streams m"
      using unlink_inner [OF l False] by blast
    have "q \<notin> set (as @ bs)" using l(2) by auto
    then have sg: "seg (m1\<lparr>streams := ss, prods := (prods m1)[q := None]\<rparr>) NULL ?h (as @ bs) NULL" for ss
      using m1(2) by (subst seg_cong [of _ _ m1]) (auto simp: prod_at_freed)
    let ?m = "m1\<lparr>streams := (streams m)[j := forget_consumer (streams m ! j)], prods := (prods m1)[q := None]\<rparr>"
    have run: "stream_disconnect k j m = Inr ?m" using loop x q m1 by (simp add: Let_def)
    have ends: "s_prod_head (streams ?m ! k) = ?h" "s_prod_curr (streams ?m ! k) = s_prod_curr (streams m ! k)"
      using assms(4,5) by (simp_all add: nth_list_update forget)
    have curr: "s_prod_curr (streams m ! k) = last (q # bs)" using assms(1) by (simp add: linked_def)
    have "linked ?m k (as @ bs)" if "bs \<noteq> []"
      using sg ends curr l(2) that by (simp add: linked_def del: seg.simps)
    then show ?thesis using run sg ends curr False q by (simp add: prod_at_freed)
  qed
qed

lemma disconnect_none:
  assumes "linked m k ps" "\<And>a. a \<in> set ps \<Longrightarrow> source_of m a \<noteq> Some j"
  shows "stream_disconnect k j m = Inr m"
proof -
  have l: "seg m NULL (s_prod_head (streams m ! k)) ps NULL" "distinct ps" using assms(1) by (simp_all add: linked_def)
  then have "length ps < Suc (length (prods m))" using linked_bound [OF l] by simp
  moreover from this obtain n where "Suc (length (prods m)) - length ps = Suc n" by (metis Suc_diff_Suc)
  ultimately show ?thesis
    using disconnect_loop_skip [OF l(1) assms(2), of "Suc (length (prods m))"] by (simp add: stream_disconnect_def)
qed

text \<open>C23: \<open>stream_disconnect\<close> on a well-formed list of producers returns. It frees the first cell that reads from \<open>j\<close> and
  forgets one consumer of \<open>j\<close>. When that cell is in the middle of the list, the list without it is well-formed again. When it is the
  last one of several, the others stay linked in order but \<open>prod_curr\<close> still points to the freed cell, and when it is the first one,
  the list still starts with the freed cell. With no such cell nothing happens.\<close>

theorem stream_disconnect_unlinks:
  assumes "linked m k ps" "k < length (streams m)" "j < length (streams m)"
  shows "case dropWhile (\<lambda>a. source_of m a \<noteq> Some j) ps of
     [] \<Rightarrow> stream_disconnect k j m = Inr m
   | q # bs \<Rightarrow> \<exists>m'. stream_disconnect k j m = Inr m' \<and> prod_at m' q = Inl BadDeref \<and>
       streams m' = (streams m)[j := forget_consumer (streams m ! j)] \<and>
       (let as = takeWhile (\<lambda>a. source_of m a \<noteq> Some j) ps in
        if as = [] then s_prod_head (streams m' ! k) = q
        else seg m' NULL (s_prod_head (streams m' ! k)) (as @ bs) NULL \<and>
             (if bs = [] then s_prod_curr (streams m' ! k) = q else linked m' k (as @ bs)))"
proof (cases "dropWhile (\<lambda>a. source_of m a \<noteq> Some j) ps")
  case Nil
  then have "stream_disconnect k j m = Inr m" by (intro disconnect_none [OF assms(1)]) (simp add: dropWhile_eq_Nil_conv)
  then show ?thesis unfolding Nil by simp
next
  case (Cons q bs)
  let ?as = "takeWhile (\<lambda>a. source_of m a \<noteq> Some j) ps"
  have ps: "ps = ?as @ q # bs" by (metis Cons takeWhile_dropWhile_id)
  have q: "source_of m q = Some j" using Cons by (metis (mono_tags, lifting) dropWhile_eq_Cons_conv)
  have before: "a \<in> set ?as \<Longrightarrow> source_of m a \<noteq> Some j" for a by (drule set_takeWhileD) blast
  have "linked m k (?as @ q # bs)" by (subst ps [symmetric]) (rule assms(1))
  from disconnect_found [OF this before q assms(2,3)] show ?thesis
    unfolding Cons by (simp add: Let_def)
qed

text \<open>A stream that reads from streams 1 and 2.\<close>

definition two_sources :: "int mem" where
  "two_sources = (let st = \<lparr>s_lock = None, s_empty = 5, s_buffer = [0, 0, 0, 0, 0], s_read_count = [0, 1, 1, 9999, 9999],
       s_put_idx = 2, s_consumers = 1, s_prod_head = NULL, s_prod_curr = NULL\<rparr> in
     \<lparr>streams = [st\<lparr>s_prod_head := 1, s_prod_curr := 2\<rparr>, st, st],
      prods = [None, Some \<lparr>p_idx = 2, p_stream = 1, p_next = 2, p_prev = NULL\<rparr>,
                     Some \<lparr>p_idx = 2, p_stream = 2, p_next = NULL, p_prev = 1\<rparr>]\<rparr>)"

lemma two_sources_linked: "linked two_sources 0 [1, 2]"
  by code_simp

theorem stream_connect_appends_witness:
  "\<exists>m'. stream_connect 0 2 two_sources = Inr m' \<and> linked m' 0 [1, 2, 3] \<and> s_consumers (streams m' ! 2) = 2"
proof -
  have "length (streams two_sources) = 3" "length (prods two_sources) = 3" "prods two_sources \<noteq> []"
    "s_consumers (streams two_sources ! 2) = 1" by code_simp+
  then show ?thesis using stream_connect_appends [OF two_sources_linked, of 2] by auto
qed

theorem stream_disconnect_unlinks_witness:
  "\<exists>m'. stream_disconnect 0 2 two_sources = Inr m' \<and> seg m' NULL 1 [1] NULL \<and> prod_at m' 2 = Inl BadDeref \<and>
     s_prod_curr (streams m' ! 0) = 2"
proof -
  have "source_of two_sources 1 \<noteq> Some 2" "source_of two_sources 2 = Some 2" "s_prod_head (streams two_sources ! 0) = 1"
    "length (streams two_sources) = 3" by code_simp+
  then show ?thesis
    using stream_disconnect_unlinks [OF two_sources_linked, of 2] by (auto simp: Let_def)
qed

end
