(* ===== verification/Streams_Many.thy ===== *)
theory Streams_Many
  imports Streams_Sharing
begin

text \<open>
  A stream with any number of consumers that were all connected before the first token. As long as no
  consumer gets five tokens ahead of another one, the stream hands every token to every consumer, in
  order; the schedules that break a stream are exactly of the other kind.
\<close>

section \<open>The invariant\<close>

text \<open>How many of the consumers \<open>C\<close> have read token \<open>t\<close>.\<close>

definition readers_of :: "ptr set \<Rightarrow> (ptr \<Rightarrow> 'v list) \<Rightarrow> nat \<Rightarrow> nat" where
  "readers_of C gt t = card {p \<in> C. t < length (gt p)}"

text \<open>\<open>lo\<close> is the number of tokens every consumer has read.\<close>

definition slowest :: "ptr set \<Rightarrow> (ptr \<Rightarrow> 'v list) \<Rightarrow> nat \<Rightarrow> bool" where
  "slowest C gt lo \<longleftrightarrow> (\<forall>p \<in> C. lo \<le> length (gt p)) \<and> (\<exists>p \<in> C. length (gt p) = lo)"

definition reader_ok :: "ptr \<Rightarrow> agent option \<Rightarrow> nat \<Rightarrow> get_pc \<Rightarrow> 'v list \<Rightarrow> 'v list \<Rightarrow> bool" where
  "reader_ok p lock i g snt gt \<longleftrightarrow> length gt \<le> length snt \<and> gt = take (length gt) snt \<and> i = length gt mod 5 \<and>
     (g = GBody \<longrightarrow> length gt < length snt) \<and> (get_inside g \<longleftrightarrow> lock = Some (Getter p))"

definition many_ok ::
  "nat \<Rightarrow> ptr set \<Rightarrow> 'v stream \<Rightarrow> (ptr \<Rightarrow> nat) \<Rightarrow> (ptr \<Rightarrow> get_pc) \<Rightarrow> 'v put_pc \<Rightarrow> 'v list \<Rightarrow> (ptr \<Rightarrow> 'v list) \<Rightarrow> bool" where
  "many_ok j C st i g pp snt gt \<longleftrightarrow> finite C \<and> s_consumers st = int (card C) \<and>
     ring_ok st snt (readers_of C gt) \<and>
     (\<forall>p \<in> C. reader_ok p (s_lock st) (i p) (g p) snt (gt p)) \<and>
     (\<exists>lo. slowest C gt lo \<and> s_empty st + (length snt - lo) + holds_slot pp = 5) \<and>
     (put_inside pp \<longleftrightarrow> s_lock st = Some (Putter j))"

text \<open>No consumer is five tokens ahead of another one.\<close>

definition close :: "ptr set \<Rightarrow> (ptr \<Rightarrow> 'v list) \<Rightarrow> bool" where
  "close C gt \<longleftrightarrow> (\<forall>p \<in> C. \<forall>q \<in> C. length (gt p) < length (gt q) + 5)"

lemma slowest_bound:
  assumes "slowest C gt lo" "s_empty st + (length snt - lo) + holds_slot pp = 5" "p \<in> C"
  shows "length snt \<le> length (gt p) + 5"
proof -
  have "lo \<le> length (gt p)" using assms(1,3) by (simp add: slowest_def)
  then show ?thesis using assms(2) by linarith
qed

text \<open>All consumers have read a token exactly when its count is their number.\<close>

lemma readers_of_all: "finite C \<Longrightarrow> readers_of C gt t = card C \<longleftrightarrow> (\<forall>p \<in> C. t < length (gt p))"
proof
  assume "finite C" "readers_of C gt t = card C"
  then have "{p \<in> C. t < length (gt p)} = C" unfolding readers_of_def by (intro card_subset_eq) auto
  then show "\<forall>p \<in> C. t < length (gt p)" by blast
next
  assume "\<forall>p \<in> C. t < length (gt p)"
  then have "{p \<in> C. t < length (gt p)} = C" by blast
  then show "readers_of C gt t = card C" by (simp add: readers_of_def)
qed

lemma readers_of_le: "finite C \<Longrightarrow> readers_of C gt t \<le> card C"
  unfolding readers_of_def by (rule card_mono) auto

lemma readers_of_none: "(\<And>p. p \<in> C \<Longrightarrow> length (gt p) \<le> t) \<Longrightarrow> readers_of C gt t = 0"
  by (auto simp: readers_of_def card_eq_0_iff not_less)

lemma readers_of_read:
  assumes "finite C" "p \<in> C" "gt' = gt(p := gt p @ [v])"
  shows "readers_of C gt' t = (if t = length (gt p) then readers_of C gt t + 1 else readers_of C gt t)"
proof (cases "t = length (gt p)")
  case True
  have "{q \<in> C. t < length (gt' q)} = insert p {q \<in> C. t < length (gt q)}" using assms(2,3) True by auto
  then show ?thesis using assms(1) True by (simp add: readers_of_def)
next
  case False
  then have "{q \<in> C. t < length (gt' q)} = {q \<in> C. t < length (gt q)}" using assms(3) by auto
  then show ?thesis using False by (simp add: readers_of_def)
qed

text \<open>The second wait of \<open>get\<close> ends only for a consumer that has a token to read.\<close>

lemma many_second_wait:
  assumes ok: "many_ok j C st i g pp snt gt" and "close C gt" "p \<in> C" "\<not> get_waits2 st (i p)"
  shows "length (gt p) < length snt"
proof (rule ccontr)
  assume "\<not> length (gt p) < length snt"
  then have k: "length (gt p) = length snt" using ok assms(3) by (fastforce simp: many_ok_def reader_ok_def)
  have ring: "ring_ok st snt (readers_of C gt)" "finite C" "s_consumers st = int (card C)" "i p = length snt mod 5"
    using ok assms(3) k by (auto simp: many_ok_def reader_ok_def)
  have count: "s_read_count st ! (length snt mod 5) < int (card C)"
    using assms(4) ring(3,4) by (simp add: get_waits2_def)
  show False
  proof (cases "length snt < 5")
    case True
    then have "int (card C) \<le> s_read_count st ! length snt" using ring(1,3) by (simp add: ring_ok_def)
    with count True show False by simp
  next
    case False
    let ?t = "length snt - 5"
    have "s_read_count st ! (?t mod 5) = int (readers_of C gt ?t)" using ring(1) False by (auto simp: ring_ok_def)
    moreover have "?t mod 5 = length snt mod 5" using False by (metis le_mod_geq not_less)
    moreover have "\<forall>q \<in> C. ?t < length (gt q)" using assms(2,3) k False by (fastforce simp: close_def)
    ultimately show False using count readers_of_all [OF ring(2), of gt ?t] by simp
  qed
qed

text \<open>The producer never waits under the lock.\<close>

lemma many_put_free:
  assumes ok: "many_ok j C st i g pp snt gt" and "holds_slot pp = 1"
  shows "\<not> put_waits st"
proof -
  have ring: "ring_ok st snt (readers_of C gt)" "finite C" "s_consumers st = int (card C)"
    using ok by (auto simp: many_ok_def)
  obtain lo where lo: "slowest C gt lo" "s_empty st + (length snt - lo) + 1 = 5"
    using ok assms(2) by (auto simp: many_ok_def)
  show ?thesis
  proof (cases "length snt < 5")
    case True
    then have "\<not> s_read_count st ! length snt < int (card C)" using ring(1,3) by (simp add: ring_ok_def not_less)
    with True ring show ?thesis by (simp add: put_waits_def ring_ok_def)
  next
    case False
    let ?t = "length snt - 5"
    have "s_read_count st ! (?t mod 5) = int (readers_of C gt ?t)" using ring(1) False by (auto simp: ring_ok_def)
    moreover have "?t mod 5 = length snt mod 5" using False by (metis le_mod_geq not_less)
    moreover have "\<forall>q \<in> C. ?t < length (gt q)" using lo False by (fastforce simp: slowest_def)
    ultimately show ?thesis using ring readers_of_all [OF ring(2), of gt ?t] by (simp add: put_waits_def ring_ok_def)
  qed
qed

section \<open>Preservation\<close>

lemma many_put_body:
  assumes ok: "many_ok j C st i g (PBody x) snt gt"
  shows "many_ok j C (put_body x st) i g PUnlock (snt @ [x]) gt"
proof -
  have keep: "s_consumers (put_body x st) = s_consumers st" "s_empty (put_body x st) = s_empty st"
    "s_lock (put_body x st) = s_lock st" by (simp_all add: put_body_def)
  have len: "\<And>p. p \<in> C \<Longrightarrow> length (gt p) \<le> length snt" using ok by (simp add: many_ok_def reader_ok_def)
  have "ring_ok (put_body x st) (snt @ [x]) (readers_of C gt)"
    by (rule ring_put) (use ok readers_of_none [of C gt "length snt"] len in \<open>auto simp: many_ok_def\<close>)
  moreover have "\<exists>lo. slowest C gt lo \<and> s_empty st + (length (snt @ [x]) - lo) + holds_slot PUnlock = 5"
  proof -
    obtain lo where lo: "slowest C gt lo" "s_empty st + (length snt - lo) + 1 = 5" using ok by (auto simp: many_ok_def)
    then have "lo \<le> length snt" using len by (fastforce simp: slowest_def)
    with lo show ?thesis by (intro exI [of _ lo]) simp
  qed
  moreover have "reader_ok p (s_lock st) (i p) (g p) (snt @ [x]) (gt p)" if "p \<in> C" for p
  proof -
    have "reader_ok p (s_lock st) (i p) (g p) snt (gt p)" using ok that unfolding many_ok_def by blast
    then show ?thesis by (auto simp: reader_ok_def)
  qed
  ultimately show ?thesis using ok unfolding many_ok_def keep by simp
qed

lemma many_get_body:
  assumes ok: "many_ok j C st i g pp snt gt" and p: "p \<in> C" "g p = GBody"
    and body: "get_body st (i p) = (v, st', i')"
  shows "many_ok j C st' (i(p := i')) (g(p := GUnlock)) pp snt (gt(p := gt p @ [v]))"
proof -
  let ?k = "length (gt p)" and ?gt = "gt(p := gt p @ [v])"
  have fin: "finite C" and ring: "ring_ok st snt (readers_of C gt)" and cons: "s_consumers st = int (card C)"
    and k: "?k < length snt" "i p = ?k mod 5" "gt p = take ?k snt" using ok p by (auto simp: many_ok_def reader_ok_def)
  obtain lo where lo: "slowest C gt lo" "s_empty st + (length snt - lo) + holds_slot pp = 5"
    using ok by (auto simp: many_ok_def)
  have near: "length snt \<le> ?k + 5" by (rule slowest_bound [OF lo p(1)])
  have cnt: "s_read_count st ! (?k mod 5) = int (readers_of C gt ?k)" "s_buffer st ! (?k mod 5) = snt ! ?k"
    "length (s_read_count st) = 5" using ring k(1) near by (auto simp: ring_ok_def)
  have more: "readers_of C ?gt = (readers_of C gt)(?k := readers_of C ?gt ?k)" "readers_of C ?gt ?k = readers_of C gt ?k + 1"
    using readers_of_read [OF fin p(1), of ?gt gt v] by auto
  let ?last = "readers_of C ?gt ?k = card C"
  have v: "v = snt ! ?k" "i' = Suc ?k mod 5" and
    st': "st' = st\<lparr>s_read_count := (s_read_count st)[?k mod 5 := int (readers_of C ?gt ?k)],
       s_empty := (if ?last then s_empty st + 1 else s_empty st)\<rparr>"
    using body cnt more(2) cons k(2) by (auto simp: get_body_def BUFFER_SIZE_def Let_def mod_Suc_eq add.commute split: if_splits)
  have ring': "ring_ok st' snt (readers_of C ?gt)"
    unfolding st' by (subst more(1)) (rule ring_get [OF ring k(1) near])
  have pref: "?gt p = take (length (?gt p)) snt"
    using k v(1) by (simp add: take_Suc_conv_app_nth)
  have slow: "\<exists>lo. slowest C ?gt lo \<and> s_empty st' + (length snt - lo) + holds_slot pp = 5"
  proof (cases ?last)
    case True
    then have all: "\<forall>q \<in> C. ?k < length (?gt q)" using readers_of_all [OF fin, of ?gt ?k] by blast
    obtain r where r: "r \<in> C" "length (gt r) = lo" using lo(1) by (auto simp: slowest_def)
    have "lo \<le> ?k" using lo(1) p(1) by (simp add: slowest_def)
    moreover have "?k < lo" if "r \<noteq> p" using all r that by auto
    ultimately have "lo = ?k" using r(2) by (cases "r = p") auto
    moreover have "slowest C ?gt (Suc ?k)"
      using all p(1) by (auto simp: slowest_def intro!: bexI [of _ p])
    ultimately show ?thesis using lo(2) k(1) True by (intro exI [of _ "Suc ?k"]) (simp add: st')
  next
    case False
    then obtain q where q: "q \<in> C" "length (?gt q) \<le> ?k" using readers_of_all [OF fin, of ?gt ?k] by (auto simp: not_less)
    then have "q \<noteq> p" by auto
    obtain r where r: "r \<in> C" "length (gt r) = lo" using lo(1) by (auto simp: slowest_def)
    have "\<exists>r \<in> C. length (?gt r) = lo"
    proof (cases "r = p")
      case True
      then have "length (gt q) = lo" using q r(2) \<open>q \<noteq> p\<close> lo(1) by (auto simp: slowest_def)
      with q(1) \<open>q \<noteq> p\<close> show ?thesis by (intro bexI [of _ q]) simp_all
    qed (use r in auto)
    moreover have "lo \<le> length (?gt r)" if "r \<in> C" for r using that lo(1) by (fastforce simp: slowest_def)
    ultimately have "slowest C ?gt lo" by (simp add: slowest_def)
    then show ?thesis using lo(2) False by (intro exI [of _ lo]) (simp add: st')
  qed
  have lock: "s_lock st' = s_lock st" "s_consumers st' = s_consumers st" by (simp_all add: st')
  have "reader_ok q (s_lock st) ((i(p := i')) q) ((g(p := GUnlock)) q) snt (?gt q)" if "q \<in> C" for q
  proof (cases "q = p")
    case True
    have "get_inside (g p) \<longleftrightarrow> s_lock st = Some (Getter p)" using ok p(1) by (simp add: many_ok_def reader_ok_def)
    then show ?thesis using True pref k(1) v(2) p(2) by (simp add: reader_ok_def)
  next
    case False
    then show ?thesis using ok that by (simp add: many_ok_def)
  qed
  with ok ring' slow show ?thesis unfolding many_ok_def lock by blast
qed

text \<open>A turn that only takes, keeps or gives back the lock.\<close>

lemma many_relock:
  assumes ok: "many_ok j C st i g pp snt gt" and p: "p \<in> C" "g' = GBody \<longrightarrow> length (gt p) < length snt"
    and lock: "(l = Some (Getter p) \<and> get_inside g' \<and> s_lock st \<in> {None, Some (Getter p)}) \<or>
      (l = None \<and> \<not> get_inside g' \<and> s_lock st = Some (Getter p)) \<or> (l = s_lock st \<and> get_inside g' = get_inside (g p))"
  shows "many_ok j C (st\<lparr>s_lock := l\<rparr>) i (g(p := g')) pp snt gt"
proof -
  have rd: "reader_ok q (s_lock st) (i q) (g q) snt (gt q)" if "q \<in> C" for q using ok that by (simp add: many_ok_def)
  have "reader_ok q l (i q) ((g(p := g')) q) snt (gt q)" if "q \<in> C" for q
  proof (cases "q = p")
    case True
    with rd [OF p(1)] p(2) lock show ?thesis by (auto simp: reader_ok_def)
  next
    case False
    with rd [OF that] lock show ?thesis by (auto simp: reader_ok_def)
  qed
  moreover have "put_inside pp \<longleftrightarrow> l = Some (Putter j)" using ok lock by (auto simp: many_ok_def)
  ultimately show ?thesis using ok by (simp add: many_ok_def)
qed

lemma many_put_relock:
  assumes ok: "many_ok j C st i g pp snt gt" and hold: "e + holds_slot pp' = s_empty st + holds_slot pp"
    and lock: "(l = Some (Putter j) \<and> put_inside pp' \<and> s_lock st \<in> {None, Some (Putter j)}) \<or>
      (l = None \<and> \<not> put_inside pp' \<and> s_lock st = Some (Putter j)) \<or> (l = s_lock st \<and> put_inside pp' = put_inside pp)"
  shows "many_ok j C (st\<lparr>s_empty := e, s_lock := l\<rparr>) i g pp' snt gt"
proof -
  have "reader_ok q l (i q) (g q) snt (gt q)" if "q \<in> C" for q
  proof -
    have "reader_ok q (s_lock st) (i q) (g q) snt (gt q)" using ok that by (simp add: many_ok_def)
    with lock show ?thesis by (auto simp: reader_ok_def)
  qed
  moreover have "put_inside pp' \<longleftrightarrow> l = Some (Putter j)" using ok lock by (auto simp: many_ok_def)
  moreover obtain lo where "slowest C gt lo" "s_empty st + (length snt - lo) + holds_slot pp = 5"
    using ok by (auto simp: many_ok_def)
  then have "\<exists>lo. slowest C gt lo \<and> e + (length snt - lo) + holds_slot pp' = 5" using hold by (intro exI [of _ lo]) simp
  ultimately show ?thesis using ok by (simp add: many_ok_def)
qed

lemma many_get:
  assumes ok: "many_ok j C st i g pp snt gt" and near: "close C gt" and p: "p \<in> C"
    and turn: "get_turn p st (i p) (g p) = Some (st', i', g', out)"
  shows "many_ok j C st' (i(p := i')) (g(p := g')) pp snt (gt(p := gt p @ out))"
proof (cases "g p = GBody")
  case True
  then obtain v where "get_body st (i p) = (v, st', i')" "g' = GUnlock" "out = [v]"
    using turn by (auto simp: get_turn_def split: prod.splits)
  with many_get_body [OF ok p True] show ?thesis by simp
next
  case False
  have inside: "get_inside (g p) \<longleftrightarrow> s_lock st = Some (Getter p)" using ok p by (simp add: many_ok_def reader_ok_def)
  have second: "g p = GTest2 \<Longrightarrow> \<not> get_waits2 st (i p) \<Longrightarrow> length (gt p) < length snt"
    using many_second_wait [OF ok near p] by blast
  obtain l where l: "st' = st\<lparr>s_lock := l\<rparr>" "i' = i p" "out = []" "g' = GBody \<longrightarrow> length (gt p) < length snt"
    "(l = Some (Getter p) \<and> get_inside g' \<and> s_lock st \<in> {None, Some (Getter p)}) \<or>
      (l = None \<and> \<not> get_inside g' \<and> s_lock st = Some (Getter p)) \<or> (l = s_lock st \<and> get_inside g' = get_inside (g p))"
    using turn False inside second
    by (cases "g p") (auto simp: get_turn_def split: if_splits intro: that [of "s_lock st"])
  from many_relock [OF ok p l(4,5)] l(1-3) show ?thesis by simp
qed

lemma many_put:
  assumes ok: "many_ok j C st i g pp snt gt" and turn: "put_turn j v st pp = Some (st', pp', ins)"
  shows "many_ok j C st' i g pp' (snt @ ins) gt"
proof (cases "\<exists>x. pp = PBody x")
  case True
  then obtain x where "pp = PBody x" "st' = put_body x st" "pp' = PUnlock" "ins = [x]"
    using turn by (auto simp: put_turn_def)
  with many_put_body [of j C st i g x snt gt] ok show ?thesis by simp
next
  case False
  have inside: "put_inside pp \<longleftrightarrow> s_lock st = Some (Putter j)" using ok by (simp add: many_ok_def)
  have l: "st' = st\<lparr>s_empty := s_empty st', s_lock := s_lock st'\<rparr>" "ins = []"
    "s_empty st' + holds_slot pp' = s_empty st + holds_slot pp"
    "(s_lock st' = Some (Putter j) \<and> put_inside pp' \<and> s_lock st \<in> {None, Some (Putter j)}) \<or>
      (s_lock st' = None \<and> \<not> put_inside pp' \<and> s_lock st = Some (Putter j)) \<or>
      (s_lock st' = s_lock st \<and> put_inside pp' = put_inside pp)"
    using turn False inside by (cases pp; auto simp: put_turn_def split: if_splits)+
  from many_put_relock [OF ok l(3,4)] l(2) show ?thesis by (subst l(1)) simp
qed

section \<open>In a running program\<close>

text \<open>The cells that read from stream \<open>s\<close>.\<close>

definition cells_of :: "nat \<Rightarrow> 'v mem \<Rightarrow> ptr set" where
  "cells_of s m = {p. p < length (prods m) \<and> p \<noteq> NULL \<and> map_option p_stream (prods m ! p) = Some s}"

lemma finite_cells_of [simp]: "finite (cells_of s m)"
  by (simp add: cells_of_def)

definition many_inv :: "nat \<Rightarrow> 'v net \<Rightarrow> bool" where
  "many_inv s n \<longleftrightarrow> s < length (streams (mem n)) \<and> length (gpcs n) = length (prods (mem n)) \<and>
     length (got n) = length (prods (mem n)) \<and> length (ppcs n) = length (streams (mem n)) \<and>
     length (sent n) = length (streams (mem n)) \<and>
     many_ok s (cells_of s (mem n)) (streams (mem n) ! s) (\<lambda>p. p_idx (the (prods (mem n) ! p))) (\<lambda>p. gpcs n ! p)
       (ppcs n ! s) (sent n ! s) (\<lambda>p. got n ! p)"

definition calm :: "nat \<Rightarrow> 'v net \<Rightarrow> bool" where
  "calm s n \<longleftrightarrow> close (cells_of s (mem n)) (\<lambda>p. got n ! p)"

lemma many_ok_cong:
  assumes "\<And>p. p \<in> C \<Longrightarrow> i' p = i p \<and> g' p = g p \<and> gt' p = gt p"
  shows "many_ok j C st i' g' pp snt gt' = many_ok j C st i g pp snt gt"
proof -
  have "{p \<in> C. t < length (gt' p)} = {p \<in> C. t < length (gt p)}" for t using assms by auto
  then have "readers_of C gt' = readers_of C gt" by (simp add: readers_of_def fun_eq_iff)
  moreover have "slowest C gt' lo = slowest C gt lo" for lo using assms by (simp add: slowest_def)
  ultimately show ?thesis using assms by (simp add: many_ok_def)
qed

lemma cells_of_update:
  assumes "prods m ! q = Some y" "p_stream y' = p_stream y"
  shows "cells_of s (m\<lparr>streams := ss, prods := (prods m)[q := Some y']\<rparr>) = cells_of s m"
proof (cases "q < length (prods m)")
  case True
  then show ?thesis using assms by (auto simp: cells_of_def nth_list_update)
next
  case False
  then show ?thesis by (simp add: cells_of_def list_update_beyond)
qed

lemma many_inv_get:
  assumes "get_next q n = Inr (Some n')" "q < length (gpcs n)" "many_inv s n" "calm s n"
  shows "many_inv s n'"
proof -
  have len: "length (gpcs n) = length (prods (mem n))" "length (got n) = length (prods (mem n))"
    "s < length (streams (mem n))" using assms(3) by (simp_all add: many_inv_def)
  let ?C = "cells_of s (mem n)"
  show ?thesis
  proof (rule get_next_cases [OF assms(1,2) len(1)])
    fix y st i pc out
    assume y: "q \<noteq> NULL" "prods (mem n) ! q = Some y"
      "get_turn q (streams (mem n) ! p_stream y) (p_idx y) (gpcs n ! q) = Some (st, i, pc, out)"
      and n': "n' = n\<lparr>mem := (mem n)\<lparr>streams := (streams (mem n))[p_stream y := st],
                        prods := (prods (mem n))[q := Some (y\<lparr>p_idx := i\<rparr>)]\<rparr>,
         gpcs := (gpcs n)[q := pc], got := (got n)[q := got n ! q @ out]\<rparr>"
    have ql: "q < length (prods (mem n))" "q < length (got n)" using assms(2) len by simp_all
    have cells: "cells_of s (mem n') = ?C" using y(2) by (simp add: n' cells_of_update)
    have ok: "many_ok s ?C (streams (mem n) ! s) (\<lambda>p. p_idx (the (prods (mem n) ! p))) (\<lambda>p. gpcs n ! p)
        (ppcs n ! s) (sent n ! s) (\<lambda>p. got n ! p)" using assms(3) by (simp add: many_inv_def)
    have "many_ok s ?C (streams (mem n') ! s) (\<lambda>p. p_idx (the (prods (mem n') ! p))) (\<lambda>p. gpcs n' ! p)
        (ppcs n' ! s) (sent n' ! s) (\<lambda>p. got n' ! p)"
    proof (cases "q \<in> ?C")
      case True
      then have s: "p_stream y = s" using y(2) by (simp add: cells_of_def)
      have near: "close ?C (\<lambda>p. got n ! p)" using assms(4) by (simp add: calm_def)
      have turn: "get_turn q (streams (mem n) ! s) (p_idx (the (prods (mem n) ! q))) (gpcs n ! q) = Some (st, i, pc, out)"
        using y(2,3) s by simp
      have eqs: "(\<lambda>p. p_idx (the (prods (mem n') ! p))) = (\<lambda>p. p_idx (the (prods (mem n) ! p)))(q := i)"
        "(\<lambda>p. gpcs n' ! p) = (\<lambda>p. gpcs n ! p)(q := pc)"
        "(\<lambda>p. got n' ! p) = (\<lambda>p. got n ! p)(q := got n ! q @ out)"
        using ql assms(2) by (auto simp: n' fun_eq_iff nth_list_update)
      have same: "streams (mem n') ! s = st" "ppcs n' = ppcs n" "sent n' = sent n" using s len(3) by (simp_all add: n')
      show ?thesis unfolding eqs same by (rule many_get [OF ok near True turn])
    next
      case False
      then have s: "p_stream y \<noteq> s" using y(1,2) ql(1) by (simp add: cells_of_def)
      have "p_idx (the (prods (mem n') ! p)) = p_idx (the (prods (mem n) ! p)) \<and> gpcs n' ! p = gpcs n ! p \<and>
          got n' ! p = got n ! p" if "p \<in> ?C" for p
      proof -
        have "q \<noteq> p" using that False by blast
        then show ?thesis by (simp add: n')
      qed
      from many_ok_cong [of ?C, OF this] ok s show ?thesis by (simp add: n')
    qed
    then show ?thesis using assms(3) unfolding many_inv_def cells by (simp add: n')
  qed
qed

lemma many_inv_put:
  assumes "put_next j v n = Some n'" "j < length (ppcs n)" "many_inv s n"
  shows "many_inv s n'"
proof -
  obtain st pc ins where t: "put_turn j v (streams (mem n) ! j) (ppcs n ! j) = Some (st, pc, ins)"
    and n': "n' = n\<lparr>mem := (mem n)\<lparr>streams := (streams (mem n))[j := st]\<rparr>,
         ppcs := (ppcs n)[j := pc], sent := (sent n)[j := sent n ! j @ ins]\<rparr>"
    using assms(1) by (auto simp: put_next_def split: option.splits)
  have cells: "cells_of s (mem n') = cells_of s (mem n)" by (simp add: n' cells_of_def)
  show ?thesis
  proof (cases "j = s")
    case True
    have "many_ok s (cells_of s (mem n)) (streams (mem n) ! s) (\<lambda>p. p_idx (the (prods (mem n) ! p))) (\<lambda>p. gpcs n ! p)
        (ppcs n ! s) (sent n ! s) (\<lambda>p. got n ! p)" using assms(3) by (simp add: many_inv_def)
    from many_put [OF this, of v st pc ins] t True assms(3) show ?thesis
      unfolding many_inv_def cells by (simp add: n')
  next
    case False
    then show ?thesis using assms(3) unfolding many_inv_def cells by (simp add: n')
  qed
qed

text \<open>Runs in which no consumer of \<open>s\<close> is ever five tokens ahead of another one.\<close>

inductive calm_reach :: "nat \<Rightarrow> 'v net \<Rightarrow> 'v net \<Rightarrow> bool" for s where
  calm_start: "calm_reach s n n"
| calm_getter: "calm_reach s n0 n \<Longrightarrow> calm s n \<Longrightarrow> p < length (gpcs n) \<Longrightarrow> get_next p n = Inr (Some n') \<Longrightarrow>
    calm_reach s n0 n'"
| calm_putter: "calm_reach s n0 n \<Longrightarrow> calm s n \<Longrightarrow> j < length (ppcs n) \<Longrightarrow> put_next j v n = Some n' \<Longrightarrow>
    calm_reach s n0 n'"

lemma many_inv_reach: "calm_reach s n0 n \<Longrightarrow> many_inv s n0 \<Longrightarrow> many_inv s n"
proof (induction rule: calm_reach.induct)
  case (calm_getter n0 n p n')
  from many_inv_get [OF calm_getter.hyps(4,3)] calm_getter show ?case by blast
next
  case (calm_putter n0 n j v n')
  from many_inv_put [OF calm_putter.hyps(4,3)] calm_putter show ?case by blast
qed simp

text \<open>Stream \<open>s\<close> was initialised, then its consumers were connected, and nothing was put yet.\<close>

definition connected_all :: "nat \<Rightarrow> 'v mem \<Rightarrow> bool" where
  "connected_all s m \<longleftrightarrow> s < length (streams m) \<and> cells_of s m \<noteq> {} \<and> card (cells_of s m) \<le> 9999 \<and>
     (\<forall>p \<in> cells_of s m. p_idx (the (prods m ! p)) = 0) \<and>
     s_lock (streams m ! s) = None \<and> s_empty (streams m ! s) = 5 \<and> length (s_buffer (streams m ! s)) = 5 \<and>
     s_read_count (streams m ! s) = replicate 5 9999 \<and> s_put_idx (streams m ! s) = 0 \<and>
     s_consumers (streams m ! s) = int (card (cells_of s m))"

lemma many_inv_idle:
  assumes "connected_all s m"
  shows "many_inv s (idle_net m)"
proof -
  let ?C = "cells_of s m"
  have c: "s < length (streams m)" "?C \<noteq> {}" "\<And>p. p \<in> ?C \<Longrightarrow> p < length (prods m)"
    using assms by (auto simp: connected_all_def cells_of_def)
  have "slowest ?C (\<lambda>p. replicate (length (prods m)) [] ! p) 0"
    using c(2,3) by (auto simp: slowest_def)
  moreover have "reader_ok p None (p_idx (the (prods m ! p))) (replicate (length (prods m)) GIdle ! p) []
      (replicate (length (prods m)) [] ! p)" if "p \<in> ?C" for p
    using assms c(3) [OF that] that by (simp add: reader_ok_def connected_all_def)
  ultimately show ?thesis using assms c(1)
    by (auto simp: many_inv_def idle_net_def many_ok_def connected_all_def ring_ok_def)
qed

text \<open>Such a stream keeps the contract of a queue for all its consumers.\<close>

interpretation many: token_stream "many_inv s" "\<lambda>n. sent n ! s" "\<lambda>n. cells_of s (mem n)" "\<lambda>n p. got n ! p" 5 for s
proof
  fix n :: "'a net" and p
  assume inv: "many_inv s n" and p: "p \<in> cells_of s (mem n)"
  then have ok: "many_ok s (cells_of s (mem n)) (streams (mem n) ! s) (\<lambda>p. p_idx (the (prods (mem n) ! p))) (\<lambda>p. gpcs n ! p)
      (ppcs n ! s) (sent n ! s) (\<lambda>p. got n ! p)" by (simp add: many_inv_def)
  have "reader_ok p (s_lock (streams (mem n) ! s)) (p_idx (the (prods (mem n) ! p))) (gpcs n ! p) (sent n ! s) (got n ! p)"
    using ok p by (simp add: many_ok_def)
  then have "got n ! p = take (length (got n ! p)) (sent n ! s)" unfolding reader_ok_def by blast
  then show "prefix (got n ! p) (sent n ! s)" by (metis take_is_prefix)
  show "length (sent n ! s) \<le> length (got n ! p) + 5"
    using ok p slowest_bound unfolding many_ok_def by blast
qed


section \<open>Every consumer sees a bounded queue\<close>

lemma turn_outputs:
  "get_turn p st i g = Some (st', i', g', out) \<Longrightarrow> length out \<le> 1"
  "put_turn j v st pp = Some (st', pp', ins) \<Longrightarrow> length ins \<le> 1"
  by (cases g; auto simp: get_turn_def split: if_splits prod.splits) (cases pp; auto simp: put_turn_def split: if_splits)

lemma play_histories:
  assumes "play [t] n = Some n'" "many_inv s n" "p \<in> cells_of s (mem n)"
  shows "\<exists>ins out. sent n' ! s = sent n ! s @ ins \<and> got n' ! p = got n ! p @ out \<and> length ins + length out \<le> 1"
proof (cases t)
  case (Get q)
  have g: "q < length (gpcs n)" "get_next q n = Inr (Some n')" using assms(1) Get by (auto split: if_splits sum.splits option.splits)
  have len: "length (gpcs n) = length (prods (mem n))" "length (got n) = length (prods (mem n))"
    using assms(2) by (simp_all add: many_inv_def)
  show ?thesis
  proof (rule get_next_cases [OF g(2,1) len(1)])
    fix y st i pc out
    assume "get_turn q (streams (mem n) ! p_stream y) (p_idx y) (gpcs n ! q) = Some (st, i, pc, out)"
      "n' = n\<lparr>mem := (mem n)\<lparr>streams := (streams (mem n))[p_stream y := st],
                        prods := (prods (mem n))[q := Some (y\<lparr>p_idx := i\<rparr>)]\<rparr>,
         gpcs := (gpcs n)[q := pc], got := (got n)[q := got n ! q @ out]\<rparr>"
    then show ?thesis using turn_outputs(1) g(1) len
      by (intro exI [of _ "[]"] exI [of _ "if q = p then out else []"]) (auto dest: turn_outputs(1))
  qed
next
  case (Put j v)
  then obtain st pc ins where "put_turn j v (streams (mem n) ! j) (ppcs n ! j) = Some (st, pc, ins)" "j < length (ppcs n)"
    "n' = n\<lparr>mem := (mem n)\<lparr>streams := (streams (mem n))[j := st]\<rparr>,
         ppcs := (ppcs n)[j := pc], sent := (sent n)[j := sent n ! j @ ins]\<rparr>"
    using assms(1) by (auto simp: put_next_def split: if_splits option.splits)
  moreover have "length (sent n) = length (ppcs n)" using assms(2) by (simp add: many_inv_def)
  ultimately show ?thesis
    by (intro exI [of _ "if j = s then ins else []"] exI [of _ "[]"]) (auto dest: turn_outputs(2))
qed

lemma play_many:
  assumes "play [t] n = Some n'" "many_inv s n" "calm s n"
  shows "many_inv s n'"
  using assms many_inv_get many_inv_put by (cases t) (auto split: if_splits sum.splits option.splits)

lemma play_cells: "play [t] n = Some n' \<Longrightarrow> cells_of s (mem n') = cells_of s (mem n)"
proof (cases t)
  case (Get q)
  assume "play [t] n = Some n'"
  then obtain y st i pc out where "prods (mem n) ! q = Some y"
    "n' = n\<lparr>mem := (mem n)\<lparr>streams := (streams (mem n))[p_stream y := st],
                        prods := (prods (mem n))[q := Some (y\<lparr>p_idx := i\<rparr>)]\<rparr>,
         gpcs := (gpcs n)[q := pc], got := (got n)[q := got n ! q @ out]\<rparr>"
    using Get by (auto simp: get_next_def prod_at_def bindE_Inr_iff split: if_splits option.splits sum.splits)
  then show ?thesis by (simp add: cells_of_update)
next
  case (Put j v)
  assume "play [t] n = Some n'"
  then obtain ss where "mem n' = (mem n)\<lparr>streams := ss\<rparr>" using Put by (auto simp: put_next_def split: if_splits option.splits)
  then show ?thesis by (simp add: cells_of_def)
qed

text \<open>C25: A stream refines a bounded queue, seen from each of its consumers. The queue of a consumer holds the tokens
  put and not yet read by it; every turn of any thread, in a run in which no consumer gets five tokens ahead of another one,
  leaves this queue as it is, or appends the token that was put to a queue of fewer than five, or takes the token that
  was read from its front.\<close>

theorem stream_refines_queue:
  assumes "connected_all s m" "calm_reach s (idle_net m) n" "calm s n" "p \<in> cells_of s (mem n)" "play [t] n = Some n'"
  shows "\<exists>op. queue_apply 5 op (waiting_for (got n ! p) (sent n ! s)) = Some (waiting_for (got n' ! p) (sent n' ! s)) \<and>
     sent n' ! s = sent n ! s @ enqueued op \<and> got n' ! p = got n ! p @ dequeued op"
proof -
  have inv: "many_inv s n" by (rule many_inv_reach [OF assms(2) many_inv_idle [OF assms(1)]])
  have inv': "many_inv s n'" by (rule play_many [OF assms(5) inv assms(3)])
  obtain ins out where hist: "sent n' ! s = sent n ! s @ ins" "got n' ! p = got n ! p @ out" "length ins + length out \<le> 1"
    using play_histories [OF assms(5) inv assms(4)] by blast
  have "p \<in> cells_of s (mem n')" using assms(4) play_cells [OF assms(5)] by simp
  from many.queue_view [OF inv inv' assms(4) this hist] hist(1,2) show ?thesis by blast
qed

section \<open>A calm run\<close>

text \<open>As long as nobody has five tokens the run is calm.\<close>

definition short :: "'v net \<Rightarrow> bool" where
  "short n \<longleftrightarrow> length (got n) = length (prods (mem n)) \<and> list_all (\<lambda>xs. length xs < 5) (got n)"

lemma short_calm: "short n \<Longrightarrow> calm s n"
  by (fastforce simp: short_def calm_def close_def cells_of_def list_all_length)

fun short_play :: "'v turn list \<Rightarrow> 'v net \<Rightarrow> 'v net option" where
  "short_play [] n = Some n"
| "short_play (t # ts) n = (if short n then (case play [t] n of None \<Rightarrow> None | Some n1 \<Rightarrow> short_play ts n1) else None)"

lemma short_play_reach: "short_play ts n = Some n' \<Longrightarrow> calm_reach s n0 n \<Longrightarrow> calm_reach s n0 n'"
proof (induction ts arbitrary: n)
  case (Cons t ts)
  then obtain n1 where n1: "short n" "play [t] n = Some n1" "short_play ts n1 = Some n'"
    by (auto split: if_splits option.splits)
  have "calm_reach s n0 n1"
    using n1(2) short_calm [OF n1(1)] Cons.prems(2)
    by (cases t) (auto split: if_splits sum.splits option.splits intro: calm_getter calm_putter)
  then show ?case by (rule Cons.IH [OF n1(3)])
qed simp

lemma cells_of_two: "cells_of 0 two_consumers = {1, 2}"
  by (auto simp: cells_of_def two_consumers_def less_Suc_eq)

lemma two_consumers_connected: "connected_all 0 two_consumers"
  unfolding connected_all_def cells_of_two
  by (simp add: two_consumers_def init_stream_def raw_stream_def BUFFER_SIZE_def)


lemma calm_cells: "calm_reach s n0 n \<Longrightarrow> cells_of s (mem n) = cells_of s (mem n0)"
proof (induction rule: calm_reach.induct)
  case (calm_getter n0 n p n')
  then show ?case using play_cells [of "Get p" n n' s] by simp
next
  case (calm_putter n0 n j v n')
  then show ?case using play_cells [of "Put j v" n n' s] by simp
qed simp

theorem stream_refines_queue_witness:
  "\<exists>n n'. calm_reach 0 (idle_net two_consumers) n \<and> play [Get 2] n = Some n' \<and> waiting_for (got n ! 2) (sent n ! 0) = [8, 9] \<and>
     queue_apply 5 (Deq 8) [8, 9] = Some (waiting_for (got n' ! 2) (sent n' ! 0))"
proof -
  let ?ts = "put_one 0 8 @ put_one 0 9 @ replicate 4 (Get 2)"
  have "case short_play ?ts (idle_net two_consumers) of None \<Rightarrow> False | Some n \<Rightarrow>
      short n \<and> sent n ! 0 = [8, 9] \<and> got n ! 2 = [] \<and> (case play [Get 2] n of None \<Rightarrow> False | Some n' \<Rightarrow> got n' ! 2 = [8])"
    by code_simp
  then obtain n n' where n: "short_play ?ts (idle_net two_consumers) = Some n" "short n" "sent n ! 0 = [8, 9]" "got n ! 2 = []"
    and n': "play [Get 2] n = Some n'" "got n' ! 2 = [8]" by (auto simp del: play.simps split: option.splits)
  have reach: "calm_reach 0 (idle_net two_consumers) n" by (rule short_play_reach [OF n(1) calm_start])
  have "2 \<in> cells_of 0 (mem n)" using calm_cells [OF reach] cells_of_two by (simp add: idle_net_def)
  from stream_refines_queue [OF two_consumers_connected reach short_calm [OF n(2)] this n'(1)] n(3,4) n'(2)
  obtain op where op: "queue_apply 5 op (waiting_for [] [8, 9]) = Some (waiting_for [8] (sent n' ! 0))" "[8] = dequeued op"
    by (auto simp del: play.simps queue_apply.simps)
  then have "op = Deq 8" by (cases op) auto
  with op(1) n'(2) have "queue_apply 5 (Deq 8) [8, 9] = Some (waiting_for (got n' ! 2) (sent n' ! 0))"
    by (simp add: waiting_for_def)
  moreover have "waiting_for (got n ! 2) (sent n ! 0) = [8, 9]" by (simp add: waiting_for_def n(3,4))
  ultimately show ?thesis using reach n'(1) by blast
qed

end
