(* ===== verification/Streams_Threads.thy ===== *)
theory Streams_Threads
  imports Streams
begin

text \<open>
  The threads of \<open>hw3_pthreads\<close>: the bodies \<open>successor\<close>, \<open>times\<close>, \<open>merge\<close> and \<open>consumer\<close> of \<open>streams.c\<close> as the sequence
  of their \<open>get\<close> and \<open>put\<close> calls, and the program \<open>main.c\<close> that connects five of them. A thread is the place
  in its body with the values of its local variables there; its turns are the turns of the call it is in.
  Tokens are the integers the code allocates: no thread writes a token after it has put it. Numbers are
  unbounded; printing and sleeping have no effect on the state.
\<close>

section \<open>The bodies\<close>

text \<open>\<open>Successor self i\<close>: at \<open>put(self, i)\<close>. \<open>TimesGet self multiplier p\<close> and \<open>TimesPut self multiplier p in\<close>: at
  \<open>get(p)\<close> and at the \<open>put\<close> after it. \<open>MergeA\<close> and \<open>MergeB\<close>: at the two \<open>get\<close> calls before the loop, \<open>MergePut\<close>:
  at the \<open>put\<close> of one of the held \<open>a\<close> and \<open>b\<close>, \<open>MergeGetA\<close> and \<open>MergeGetB\<close>: at the \<open>get\<close> after it, with the token
  that is still held. \<open>Consumer self i p\<close>: at \<open>get(p)\<close> in round \<open>i\<close>.\<close>

datatype thread =
    Successor nat int
  | TimesGet nat int ptr
  | TimesPut nat int ptr int
  | MergeA nat ptr ptr
  | MergeB nat ptr ptr int
  | MergePut nat ptr ptr int int
  | MergeGetA nat ptr ptr int
  | MergeGetB nat ptr ptr int
  | Consumer nat nat ptr
  | Exited

datatype stream_call = CGet ptr | CPut nat int | CExit

text \<open>What a thread does first.\<close>

definition start_successor :: "nat \<Rightarrow> thread" where
  "start_successor self = Successor self 1"

text \<open>\<open>times\<close> prints \<open>p->stream->id\<close> before its loop.\<close>

definition start_times :: "int mem \<Rightarrow> nat \<Rightarrow> int \<Rightarrow> fault + thread" where
  "start_times m self multiplier = (let p = s_prod_head (streams m ! self) in
     bindE (prod_at m p) (\<lambda>x. Inr (TimesGet self multiplier p)))"

definition start_merge :: "int mem \<Rightarrow> nat \<Rightarrow> fault + thread" where
  "start_merge m self = (let p1 = s_prod_head (streams m ! self) in
     bindE (prod_at m p1) (\<lambda>x. Inr (MergeA self p1 (p_next x))))"

text \<open>Without a producer the ten rounds of \<open>consumer\<close> are empty.\<close>

definition start_consumer :: "int mem \<Rightarrow> nat \<Rightarrow> thread" where
  "start_consumer m self = (let p = s_prod_head (streams m ! self) in if p = NULL then Exited else Consumer self 0 p)"

definition consume_single :: "int mem \<Rightarrow> nat \<Rightarrow> stream_call" where
  "consume_single m self = CGet (s_prod_head (streams m ! self))"

text \<open>The call a thread is at.\<close>

fun next_call :: "thread \<Rightarrow> stream_call" where
  "next_call (Successor self i) = CPut self i"
| "next_call (TimesGet self k p) = CGet p"
| "next_call (TimesPut self k p x) = CPut self (x * k)"
| "next_call (MergeA self p1 p2) = CGet p1"
| "next_call (MergeB self p1 p2 a) = CGet p2"
| "next_call (MergePut self p1 p2 a b) = CPut self (if a < b then a else b)"
| "next_call (MergeGetA self p1 p2 b) = CGet p1"
| "next_call (MergeGetB self p1 p2 a) = CGet p2"
| "next_call (Consumer self i p) = CGet p"
| "next_call Exited = CExit"

text \<open>Where a thread is after its call has returned \<open>v\<close>. The inner loop of \<open>times\<close> does not advance \<open>p\<close>.\<close>

fun after_call :: "int mem \<Rightarrow> thread \<Rightarrow> int \<Rightarrow> fault + thread" where
  "after_call m (Successor self i) v = Inr (Successor self (i + 1))"
| "after_call m (TimesGet self k p) v = Inr (TimesPut self k p v)"
| "after_call m (TimesPut self k p x) v = Inr (TimesGet self k p)"
| "after_call m (MergeA self p1 p2) v = Inr (MergeB self p1 p2 v)"
| "after_call m (MergeB self p1 p2 a) v = Inr (MergePut self p1 p2 a v)"
| "after_call m (MergePut self p1 p2 a b) v = Inr (if a < b then MergeGetA self p1 p2 b else MergeGetB self p1 p2 a)"
| "after_call m (MergeGetA self p1 p2 b) v = Inr (MergePut self p1 p2 v b)"
| "after_call m (MergeGetB self p1 p2 a) v = Inr (MergePut self p1 p2 a v)"
| "after_call m (Consumer self i p) v = bindE (prod_at m p) (\<lambda>x. Inr (
     if p_next x \<noteq> NULL then Consumer self i (p_next x)
     else if i + 1 < 10 then
       (let h = s_prod_head (streams m ! self) in if h = NULL then Exited else Consumer self (i + 1) h)
     else Exited))"
| "after_call m Exited v = Inr Exited"

section \<open>The program\<close>

record world =
  network :: "int net"
  threads :: "thread list"

text \<open>One turn of thread \<open>t\<close>; \<open>None\<close>: it waits, or has exited.\<close>

definition thread_turn :: "nat \<Rightarrow> world \<Rightarrow> fault + world option" where
  "thread_turn t w = (let n = network w; th = threads w ! t in
     case next_call th of
       CExit \<Rightarrow> Inr None
     | CGet p \<Rightarrow> bindE (get_next p n) (\<lambda>r. case r of
         None \<Rightarrow> Inr None
       | Some n1 \<Rightarrow>
           if gpcs n ! p = GUnlock
           then bindE (after_call (mem n1) th (last (got n1 ! p)))
             (\<lambda>th1. Inr (Some (w\<lparr>network := n1, threads := (threads w)[t := th1]\<rparr>)))
           else Inr (Some (w\<lparr>network := n1\<rparr>)))
     | CPut s v \<Rightarrow> (case put_next s v n of
         None \<Rightarrow> Inr None
       | Some n1 \<Rightarrow>
           if ppcs n ! s = PUnlock
           then bindE (after_call (mem n1) th v) (\<lambda>th1. Inr (Some (w\<lparr>network := n1, threads := (threads w)[t := th1]\<rparr>)))
           else Inr (Some (w\<lparr>network := n1\<rparr>))))"

text \<open>\<open>main\<close> up to the creation of its threads. The streams are 0 successor, 1 times 5, 2 times 7, 3 merge and
  4 consumer; \<open>raw\<close> is what the stack holds.\<close>

definition main_mem :: "int stream list \<Rightarrow> fault + int mem" where
  "main_mem raw =
     (let m = \<lparr>streams = map init_stream raw, prods = [None]\<rparr> in
      bindE (stream_connect 4 3 m) (\<lambda>m.
      bindE (stream_connect 3 1 m) (\<lambda>m.
      bindE (stream_connect 3 2 m) (\<lambda>m.
      bindE (stream_connect 1 0 m) (\<lambda>m.
      stream_connect 2 0 m)))))"

definition main_start :: "int stream list \<Rightarrow> fault + world" where
  "main_start raw = bindE (main_mem raw) (\<lambda>m.
     bindE (start_times m 1 5) (\<lambda>t5.
     bindE (start_times m 2 7) (\<lambda>t7.
     bindE (start_merge m 3) (\<lambda>mg.
     Inr \<lparr>network = idle_net m, threads = [start_successor 0, t5, t7, mg, start_consumer m 4]\<rparr>))))"

text \<open>\<open>main\<close> waits for the consumer and then cancels the others.\<close>

definition main_done :: "world \<Rightarrow> bool" where
  "main_done w \<longleftrightarrow> threads w ! 4 = Exited"

text \<open>A schedule.\<close>

fun run_threads :: "nat list \<Rightarrow> world \<Rightarrow> world option" where
  "run_threads [] w = Some w"
| "run_threads (t # ts) w = (if t < length (threads w) then
     (case thread_turn t w of Inr (Some w1) \<Rightarrow> run_threads ts w1 | _ \<Rightarrow> None) else None)"

inductive world_reach :: "world \<Rightarrow> world \<Rightarrow> bool" where
  world_start: "world_reach w w"
| world_turn: "world_reach w0 w \<Longrightarrow> t < length (threads w) \<Longrightarrow> thread_turn t w = Inr (Some w') \<Longrightarrow> world_reach w0 w'"

lemma run_threads_reach: "run_threads ts w = Some w' \<Longrightarrow> world_reach w0 w \<Longrightarrow> world_reach w0 w'"
proof (induction ts arbitrary: w)
  case (Cons t ts)
  then obtain w1 where "t < length (threads w)" "thread_turn t w = Inr (Some w1)" "run_threads ts w1 = Some w'"
    by (auto split: if_splits sum.splits option.splits)
  with Cons world_turn show ?case by blast
qed simp

end
