(* ===== verification/Streams_Main.thy ===== *)
theory Streams_Main
  imports Streams_Many Streams_Threads
begin

text \<open>
  What the threads of \<open>hw3_pthreads\<close> compute. Each body keeps a relation between the tokens its \<open>get\<close> calls have
  returned and the tokens its \<open>put\<close> calls have delivered, whatever the streams do in between; with the
  queue property of the streams this gives the output of the program \<open>main.c\<close>.
\<close>

section \<open>Calls\<close>

text \<open>The tokens of the calls that have returned, and the call a thread may be in.\<close>

definition received :: "get_pc \<Rightarrow> 'v list \<Rightarrow> 'v list" where
  "received g gt = (if g = GUnlock then butlast gt else gt)"

fun entered :: "'v put_pc \<Rightarrow> 'v list \<Rightarrow> 'v list" where
  "entered PUnlock snt = butlast snt"
| "entered pp snt = snt"

fun in_put :: "'v put_pc \<Rightarrow> 'v list \<Rightarrow> 'v \<Rightarrow> bool" where
  "in_put PIdle snt v = True"
| "in_put (PSem x) snt v = (x = v)"
| "in_put (PLock x) snt v = (x = v)"
| "in_put (PTest x) snt v = (x = v)"
| "in_put (PWait x) snt v = (x = v)"
| "in_put (PBody x) snt v = (x = v)"
| "in_put PUnlock snt v = (snt \<noteq> [] \<and> last snt = v)"

definition in_get :: "get_pc \<Rightarrow> 'v list \<Rightarrow> bool" where
  "in_get g gt \<longleftrightarrow> (g = GUnlock \<longrightarrow> gt \<noteq> [])"

lemma put_turn_call:
  assumes "put_turn j v st pp = Some (st', pp', ins)" "in_put pp snt v"
  shows "if pp = PUnlock then pp' = PIdle \<and> ins = [] \<and> snt = entered pp snt @ [v]
    else in_put pp' (snt @ ins) v \<and> entered pp' (snt @ ins) = entered pp snt \<and> pp' \<noteq> PIdle"
  using assms by (cases pp) (auto simp: put_turn_def split: if_splits)

lemma get_turn_call:
  assumes "get_turn p st i g = Some (st', i', g', out)" "in_get g gt"
  shows "if g = GUnlock then g' = GIdle \<and> out = [] \<and> gt = received g gt @ [last gt]
    else in_get g' (gt @ out) \<and> received g' (gt @ out) = received g gt"
  using assms by (cases g) (auto simp: get_turn_def received_def in_get_def split: if_splits prod.splits)

text \<open>A call's turns change only its cell, or its stream's side of the producer.\<close>

lemma get_next_call:
  assumes "get_next p n = Inr (Some n')" "p < length (gpcs n)" "length (gpcs n) = length (prods (mem n))"
    "length (got n) = length (prods (mem n))" "in_get (gpcs n ! p) (got n ! p)"
  shows "ppcs n' = ppcs n \<and> sent n' = sent n \<and>
    (\<forall>q. q \<noteq> p \<longrightarrow> gpcs n' ! q = gpcs n ! q \<and> got n' ! q = got n ! q) \<and>
    (if gpcs n ! p = GUnlock then gpcs n' ! p = GIdle \<and> got n' ! p = got n ! p \<and>
        got n ! p = received (gpcs n ! p) (got n ! p) @ [last (got n ! p)]
     else in_get (gpcs n' ! p) (got n' ! p) \<and> received (gpcs n' ! p) (got n' ! p) = received (gpcs n ! p) (got n ! p))"
proof (rule get_next_cases [OF assms(1-3)])
  fix y st i pc out
  assume y: "get_turn p (streams (mem n) ! p_stream y) (p_idx y) (gpcs n ! p) = Some (st, i, pc, out)"
    and n': "n' = n\<lparr>mem := (mem n)\<lparr>streams := (streams (mem n))[p_stream y := st],
                        prods := (prods (mem n))[p := Some (y\<lparr>p_idx := i\<rparr>)]\<rparr>,
         gpcs := (gpcs n)[p := pc], got := (got n)[p := got n ! p @ out]\<rparr>"
  have "gpcs n' ! p = pc" "got n' ! p = got n ! p @ out" using assms(2-4) by (simp_all add: n')
  with get_turn_call [OF y assms(5)] show ?thesis by (simp add: n' split: if_splits)
qed

lemma put_next_call:
  assumes "put_next s v n = Some n'" "s < length (ppcs n)" "s < length (sent n)" "in_put (ppcs n ! s) (sent n ! s) v"
  shows "gpcs n' = gpcs n \<and> got n' = got n \<and>
    (\<forall>q. q \<noteq> s \<longrightarrow> ppcs n' ! q = ppcs n ! q \<and> sent n' ! q = sent n ! q) \<and>
    (if ppcs n ! s = PUnlock then ppcs n' ! s = PIdle \<and> sent n' ! s = sent n ! s \<and>
        sent n ! s = entered (ppcs n ! s) (sent n ! s) @ [v]
     else in_put (ppcs n' ! s) (sent n' ! s) v \<and> entered (ppcs n' ! s) (sent n' ! s) = entered (ppcs n ! s) (sent n ! s))"
proof -
  obtain st pc ins where t: "put_turn s v (streams (mem n) ! s) (ppcs n ! s) = Some (st, pc, ins)"
    and n': "n' = n\<lparr>mem := (mem n)\<lparr>streams := (streams (mem n))[s := st]\<rparr>,
         ppcs := (ppcs n)[s := pc], sent := (sent n)[s := sent n ! s @ ins]\<rparr>"
    using assms(1) by (auto simp: put_next_def split: option.splits)
  have "ppcs n' ! s = pc" "sent n' ! s = sent n ! s @ ins" using assms(2,3) by (simp_all add: n')
  with put_turn_call [OF t assms(4)] show ?thesis by (simp add: n' split: if_splits)
qed

section \<open>Merging\<close>

text \<open>What \<open>merge\<close> puts while it has a token of each side: on equal tokens the second side's goes first.\<close>

fun merge_out :: "int list \<Rightarrow> int list \<Rightarrow> int list" where
  "merge_out (a # as) (b # bs) = (if a < b then a # merge_out as (b # bs) else b # merge_out (a # as) bs)"
| "merge_out as bs = []"

lemma merge_out_Nil [simp]: "merge_out [] bs = []" "merge_out as [] = []"
  by (cases as; simp)+

lemma merge_out_prefix: "prefix as as' \<Longrightarrow> prefix bs bs' \<Longrightarrow> prefix (merge_out as bs) (merge_out as' bs')"
proof (induction as bs arbitrary: as' bs' rule: merge_out.induct)
  case (1 a as b bs)
  then obtain as1 bs1 where "as' = a # as1" "prefix as as1" "bs' = b # bs1" "prefix bs bs1"
    by (auto simp: prefix_Cons Cons_prefix_Cons neq_Nil_conv elim!: prefixE)
  with "1.IH" "1.prems" show ?case by auto
qed auto

section \<open>The invariant of each body\<close>

fun successor_ok :: "nat \<Rightarrow> int net \<Rightarrow> thread \<Rightarrow> bool" where
  "successor_ok s n (Successor self i) = (self = s \<and> 1 \<le> i \<and> in_put (ppcs n ! s) (sent n ! s) i \<and>
     entered (ppcs n ! s) (sent n ! s) = [1..i - 1])"
| "successor_ok s n _ = False"

fun times_ok :: "nat \<Rightarrow> int \<Rightarrow> ptr \<Rightarrow> int net \<Rightarrow> thread \<Rightarrow> bool" where
  "times_ok s k p n (TimesGet self k' p') = (self = s \<and> k' = k \<and> p' = p \<and> ppcs n ! s = PIdle \<and>
     in_get (gpcs n ! p) (got n ! p) \<and> sent n ! s = map (\<lambda>x. x * k) (received (gpcs n ! p) (got n ! p)))"
| "times_ok s k p n (TimesPut self k' p' x) = (self = s \<and> k' = k \<and> p' = p \<and> gpcs n ! p = GIdle \<and>
     in_put (ppcs n ! s) (sent n ! s) (x * k) \<and>
     entered (ppcs n ! s) (sent n ! s) @ [x * k] = map (\<lambda>x. x * k) (got n ! p))"
| "times_ok s k p n _ = False"

text \<open>\<open>flow R1 R2 ha hb out\<close>: of the tokens \<open>R1\<close> and \<open>R2\<close> received, \<open>out\<close> was delivered, and \<open>ha\<close> and \<open>hb\<close> are held.\<close>

definition flow :: "int list \<Rightarrow> int list \<Rightarrow> int list \<Rightarrow> int list \<Rightarrow> int list \<Rightarrow> bool" where
  "flow R1 R2 ha hb out \<longleftrightarrow> (\<forall>as bs. merge_out (R1 @ as) (R2 @ bs) = out @ merge_out (ha @ as) (hb @ bs))"

fun merge_ok :: "nat \<Rightarrow> ptr \<Rightarrow> ptr \<Rightarrow> int net \<Rightarrow> thread \<Rightarrow> bool" where
  "merge_ok s p q n (MergeA self p' q') = (self = s \<and> p' = p \<and> q' = q \<and> ppcs n ! s = PIdle \<and> gpcs n ! q = GIdle \<and>
     in_get (gpcs n ! p) (got n ! p) \<and> flow (received (gpcs n ! p) (got n ! p)) (got n ! q) [] [] (sent n ! s))"
| "merge_ok s p q n (MergeB self p' q' a) = (self = s \<and> p' = p \<and> q' = q \<and> ppcs n ! s = PIdle \<and> gpcs n ! p = GIdle \<and>
     in_get (gpcs n ! q) (got n ! q) \<and> flow (got n ! p) (received (gpcs n ! q) (got n ! q)) [a] [] (sent n ! s))"
| "merge_ok s p q n (MergePut self p' q' a b) = (self = s \<and> p' = p \<and> q' = q \<and> gpcs n ! p = GIdle \<and> gpcs n ! q = GIdle \<and>
     in_put (ppcs n ! s) (sent n ! s) (if a < b then a else b) \<and>
     flow (got n ! p) (got n ! q) [a] [b] (entered (ppcs n ! s) (sent n ! s)))"
| "merge_ok s p q n (MergeGetA self p' q' b) = (self = s \<and> p' = p \<and> q' = q \<and> ppcs n ! s = PIdle \<and> gpcs n ! q = GIdle \<and>
     in_get (gpcs n ! p) (got n ! p) \<and> flow (received (gpcs n ! p) (got n ! p)) (got n ! q) [] [b] (sent n ! s))"
| "merge_ok s p q n (MergeGetB self p' q' a) = (self = s \<and> p' = p \<and> q' = q \<and> ppcs n ! s = PIdle \<and> gpcs n ! p = GIdle \<and>
     in_get (gpcs n ! q) (got n ! q) \<and> flow (got n ! p) (received (gpcs n ! q) (got n ! q)) [a] [] (sent n ! s))"
| "merge_ok s p q n _ = False"

text \<open>A consumer with one producer, the cell \<open>p\<close>.\<close>

fun consumer_ok :: "nat \<Rightarrow> ptr \<Rightarrow> int net \<Rightarrow> thread \<Rightarrow> bool" where
  "consumer_ok s p n (Consumer self i p') = (self = s \<and> p' = p \<and> i < 10 \<and> in_get (gpcs n ! p) (got n ! p) \<and>
     length (received (gpcs n ! p) (got n ! p)) = i)"
| "consumer_ok s p n Exited = (gpcs n ! p = GIdle \<and> length (got n ! p) = 10)"
| "consumer_ok s p n _ = False"

lemma flow_first: "flow R1 R2 [] hb out \<Longrightarrow> flow (R1 @ [a]) R2 [a] hb out"
  by (simp add: flow_def)

lemma flow_second: "flow R1 R2 ha [] out \<Longrightarrow> flow R1 (R2 @ [b]) ha [b] out"
  by (simp add: flow_def)

lemma flow_put_first: "flow R1 R2 [a] [b] out \<Longrightarrow> a < b \<Longrightarrow> flow R1 R2 [] [b] (out @ [a])"
  by (simp add: flow_def)

lemma flow_put_second: "flow R1 R2 [a] [b] out \<Longrightarrow> \<not> a < b \<Longrightarrow> flow R1 R2 [a] [] (out @ [b])"
  by (simp add: flow_def)

lemma flow_out: "flow R1 R2 ha hb out \<Longrightarrow> prefix out (merge_out R1 R2)"
  using spec [of "\<lambda>as. \<forall>bs. merge_out (R1 @ as) (R2 @ bs) = out @ merge_out (ha @ as) (hb @ bs)" "[]"]
  unfolding flow_def by (metis append.right_neutral prefixI)

section \<open>A turn of a thread\<close>

lemma thread_turn_cases:
  assumes "thread_turn t w = Inr (Some w')"
  obtains (get) p n1 where "next_call (threads w ! t) = CGet p" "get_next p (network w) = Inr (Some n1)" "network w' = n1"
      "if gpcs (network w) ! p = GUnlock
       then \<exists>th1. after_call (mem n1) (threads w ! t) (last (got n1 ! p)) = Inr th1 \<and> threads w' = (threads w)[t := th1]
       else threads w' = threads w"
  | (put) s v n1 where "next_call (threads w ! t) = CPut s v" "put_next s v (network w) = Some n1" "network w' = n1"
      "if ppcs (network w) ! s = PUnlock
       then \<exists>th1. after_call (mem n1) (threads w ! t) v = Inr th1 \<and> threads w' = (threads w)[t := th1]
       else threads w' = threads w"
proof (cases "next_call (threads w ! t)")
  case (CGet p)
  with assms obtain n1 where n1: "get_next p (network w) = Inr (Some n1)"
    by (cases "get_next p (network w)") (auto simp: thread_turn_def Let_def split: option.splits)
  show thesis
    by (rule get [OF CGet n1])
      (use assms CGet n1 in \<open>auto simp: thread_turn_def Let_def bindE_Inr_iff split: if_splits\<close>)
next
  case (CPut s v)
  with assms obtain n1 where n1: "put_next s v (network w) = Some n1"
    by (auto simp: thread_turn_def Let_def split: option.splits)
  show thesis
    by (rule put [OF CPut n1])
      (use assms CPut n1 in \<open>auto simp: thread_turn_def Let_def bindE_Inr_iff split: if_splits\<close>)
next
  case CExit
  with assms show thesis by (simp add: thread_turn_def)
qed

text \<open>The five threads of \<open>main\<close>, with the cells 1 to 5 in the order of the connections.\<close>

definition main_shape :: "int net \<Rightarrow> bool" where
  "main_shape n \<longleftrightarrow> length (gpcs n) = 6 \<and> length (got n) = 6 \<and> length (prods (mem n)) = 6 \<and>
     length (ppcs n) = 5 \<and> length (sent n) = 5 \<and> length (streams (mem n)) = 5 \<and>
     map (map_option (\<lambda>x. (p_stream x, p_next x))) (prods (mem n)) =
       [None, Some (3, 0), Some (1, 3), Some (2, 0), Some (0, 0), Some (0, 0)] \<and>
     s_prod_head (streams (mem n) ! 4) = 1"

definition main_threads :: "int net \<Rightarrow> thread list \<Rightarrow> bool" where
  "main_threads n ths \<longleftrightarrow> length ths = 5 \<and> successor_ok 0 n (ths ! 0) \<and> times_ok 1 5 4 n (ths ! 1) \<and>
     times_ok 2 7 5 n (ths ! 2) \<and> merge_ok 3 2 3 n (ths ! 3) \<and> consumer_ok 4 1 n (ths ! 4)"

lemma get_turn_links:
  "get_turn p st i g = Some (st', i', g', out) \<Longrightarrow> s_prod_head st' = s_prod_head st"
  by (cases g) (auto simp: get_turn_def get_body_def Let_def split: if_splits)

lemma put_turn_links: "put_turn j v st pp = Some (st', pp', ins) \<Longrightarrow> s_prod_head st' = s_prod_head st"
  by (cases pp) (auto simp: put_turn_def put_body_def split: if_splits)

lemma main_shape_get:
  assumes "get_next p n = Inr (Some n')" "p < length (gpcs n)" "main_shape n"
  shows "main_shape n'"
proof -
  have len: "length (gpcs n) = length (prods (mem n))" using assms(3) by (simp add: main_shape_def)
  show ?thesis
  proof (rule get_next_cases [OF assms(1,2) len])
    fix y st i pc out
    assume y: "prods (mem n) ! p = Some y"
      "get_turn p (streams (mem n) ! p_stream y) (p_idx y) (gpcs n ! p) = Some (st, i, pc, out)"
      and n': "n' = n\<lparr>mem := (mem n)\<lparr>streams := (streams (mem n))[p_stream y := st],
                        prods := (prods (mem n))[p := Some (y\<lparr>p_idx := i\<rparr>)]\<rparr>,
         gpcs := (gpcs n)[p := pc], got := (got n)[p := got n ! p @ out]\<rparr>"
    let ?f = "map_option (\<lambda>x. (p_stream x, p_next x))"
    have pl: "p < length (prods (mem n))" using assms(2) len by simp
    have "map ?f ((prods (mem n))[p := Some (y\<lparr>p_idx := i\<rparr>)]) = map ?f (prods (mem n))"
      using y(1) pl by (intro nth_equalityI) (auto simp: nth_list_update)
    moreover have "s_prod_head ((streams (mem n))[p_stream y := st] ! 4) = s_prod_head (streams (mem n) ! 4)"
      using get_turn_links [OF y(2)] by (cases "p_stream y = 4"; cases "p_stream y < length (streams (mem n))")
        (simp_all add: list_update_beyond)
    ultimately show ?thesis using assms(3) by (simp add: n' main_shape_def)
  qed
qed

lemma main_shape_put:
  assumes "put_next j v n = Some n'" "main_shape n"
  shows "main_shape n'"
proof -
  obtain st pc ins where t: "put_turn j v (streams (mem n) ! j) (ppcs n ! j) = Some (st, pc, ins)"
    and n': "n' = n\<lparr>mem := (mem n)\<lparr>streams := (streams (mem n))[j := st]\<rparr>,
         ppcs := (ppcs n)[j := pc], sent := (sent n)[j := sent n ! j @ ins]\<rparr>"
    using assms(1) by (auto simp: put_next_def split: option.splits)
  have "s_prod_head ((streams (mem n))[j := st] ! 4) = s_prod_head (streams (mem n) ! 4)"
    using put_turn_links [OF t] by (cases "j = 4"; cases "j < length (streams (mem n))") (simp_all add: list_update_beyond)
  then show ?thesis using assms(2) by (simp add: n' main_shape_def)
qed

text \<open>What a turn of a \<open>get\<close> of cell \<open>p\<close> and of a \<open>put\<close> of \<open>v\<close> into stream \<open>s\<close> do to the calls.\<close>

definition get_step :: "ptr \<Rightarrow> 'v net \<Rightarrow> 'v net \<Rightarrow> bool" where
  "get_step p n n' \<longleftrightarrow> ppcs n' = ppcs n \<and> sent n' = sent n \<and>
    (\<forall>q. q \<noteq> p \<longrightarrow> gpcs n' ! q = gpcs n ! q \<and> got n' ! q = got n ! q) \<and>
    (if gpcs n ! p = GUnlock then gpcs n' ! p = GIdle \<and> got n' ! p = got n ! p \<and>
        got n ! p = received (gpcs n ! p) (got n ! p) @ [last (got n ! p)]
     else in_get (gpcs n' ! p) (got n' ! p) \<and> received (gpcs n' ! p) (got n' ! p) = received (gpcs n ! p) (got n ! p))"

definition put_step :: "nat \<Rightarrow> 'v \<Rightarrow> 'v net \<Rightarrow> 'v net \<Rightarrow> bool" where
  "put_step s v n n' \<longleftrightarrow> gpcs n' = gpcs n \<and> got n' = got n \<and>
    (\<forall>q. q \<noteq> s \<longrightarrow> ppcs n' ! q = ppcs n ! q \<and> sent n' ! q = sent n ! q) \<and>
    (if ppcs n ! s = PUnlock then ppcs n' ! s = PIdle \<and> sent n' ! s = sent n ! s \<and>
        sent n ! s = entered (ppcs n ! s) (sent n ! s) @ [v]
     else in_put (ppcs n' ! s) (sent n' ! s) v \<and> entered (ppcs n' ! s) (sent n' ! s) = entered (ppcs n ! s) (sent n ! s))"

lemma returned_simps [simp]: "received GIdle gt = gt" "g \<noteq> GUnlock \<Longrightarrow> received g gt = gt"
  by (simp_all add: received_def)

lemma in_get_idle [simp]: "in_get GIdle gt"
  by (simp add: in_get_def)

lemma successor_put:
  assumes "successor_ok s n th" "next_call th = CPut r v" "put_step r v n n'"
  shows "r = s \<and> (if ppcs n ! r = PUnlock then \<exists>th1. after_call m th v = Inr th1 \<and> successor_ok s n' th1
    else successor_ok s n' th)"
proof (cases th)
  case (Successor self i)
  with assms have i: "self = s" "r = s" "v = i" "1 \<le> i" "entered (ppcs n ! s) (sent n ! s) = [1..i - 1]" by auto
  show ?thesis
  proof (cases "ppcs n ! s = PUnlock")
    case True
    then have "sent n' ! s = [1..i - 1] @ [i]" "ppcs n' ! s = PIdle" using assms(3) i by (simp_all add: put_step_def)
    moreover have "[1..i - 1] @ [i] = [1..i]" using upto_rec2 [of 1 i] i(4) by simp
    ultimately show ?thesis using True Successor i by simp
  next
    case False
    then show ?thesis using assms(3) Successor i by (simp add: put_step_def)
  qed
qed (use assms in auto)

lemma times_get:
  assumes "times_ok s k p n th" "next_call th = CGet q" "get_step q n n'"
  shows "q = p \<and> (if gpcs n ! q = GUnlock then \<exists>th1. after_call m th (last (got n' ! q)) = Inr th1 \<and> times_ok s k p n' th1
    else times_ok s k p n' th)"
proof (cases th)
  case (TimesGet self k' p')
  with assms have i: "self = s" "k' = k" "p' = p" "q = p" "ppcs n ! s = PIdle"
    "sent n ! s = map (\<lambda>x. x * k) (received (gpcs n ! p) (got n ! p))" by auto
  show ?thesis
  proof (cases "gpcs n ! p = GUnlock")
    case True
    then have g: "gpcs n' ! p = GIdle" "got n' ! p = received (gpcs n ! p) (got n ! p) @ [last (got n ! p)]"
      "got n' ! p = got n ! p" "ppcs n' = ppcs n" "sent n' = sent n"
      using assms(3) i by (auto simp: get_step_def)
    then have "map (\<lambda>x. x * k) (got n' ! p) = sent n ! s @ [last (got n' ! p) * k]" using i(6) by (metis map_append list.simps(8,9))
    with True TimesGet i g show ?thesis by simp
  next
    case False
    then show ?thesis using assms(3) TimesGet i by (simp add: get_step_def)
  qed
qed (use assms in auto)

lemma times_put:
  assumes "times_ok s k p n th" "next_call th = CPut r v" "put_step r v n n'"
  shows "r = s \<and> (if ppcs n ! r = PUnlock then \<exists>th1. after_call m th v = Inr th1 \<and> times_ok s k p n' th1
    else times_ok s k p n' th)"
proof (cases th)
  case (TimesPut self k' p' x)
  with assms have i: "self = s" "k' = k" "p' = p" "r = s" "v = x * k" "gpcs n ! p = GIdle"
    "entered (ppcs n ! s) (sent n ! s) @ [x * k] = map (\<lambda>x. x * k) (got n ! p)" by auto
  then show ?thesis using assms(3) TimesPut by (cases "ppcs n ! s = PUnlock") (simp_all add: put_step_def)
qed (use assms in auto)

lemma consumer_get:
  assumes "consumer_ok s p n th" "next_call th = CGet q" "get_step q n n'"
    and "prod_at m p = Inr x" "p_next x = NULL" "s_prod_head (streams m ! s) = p"
  shows "q = p \<and> (if gpcs n ! q = GUnlock then \<exists>th1. after_call m th (last (got n' ! q)) = Inr th1 \<and> consumer_ok s p n' th1
    else consumer_ok s p n' th)"
proof (cases th)
  case (Consumer self i p')
  with assms have i: "self = s" "p' = p" "q = p" "i < 10" "length (received (gpcs n ! p) (got n ! p)) = i" by auto
  show ?thesis
  proof (cases "gpcs n ! p = GUnlock")
    case True
    then have g: "gpcs n' ! p = GIdle" "got n' ! p = received (gpcs n ! p) (got n ! p) @ [last (got n ! p)]"
      using assms(3) i by (auto simp: get_step_def)
    then have "length (got n' ! p) = i + 1" using i(5) by simp
    moreover have "p \<noteq> NULL" using assms(4) by (simp add: prod_at_def split: if_splits)
    ultimately show ?thesis using True Consumer i g(1) assms(4-6) by (auto simp: Let_def)
  next
    case False
    then show ?thesis using assms(3) Consumer i by (simp add: get_step_def)
  qed
qed (use assms in auto)

lemma get_step_return:
  assumes "get_step p n n'" "gpcs n ! p = GUnlock"
  shows "gpcs n' ! p = GIdle" "got n' ! p = received (gpcs n ! p) (got n ! p) @ [last (got n' ! p)]"
    "ppcs n' = ppcs n" "sent n' = sent n" "q \<noteq> p \<Longrightarrow> gpcs n' ! q = gpcs n ! q" "q \<noteq> p \<Longrightarrow> got n' ! q = got n ! q"
  using assms by (simp_all add: get_step_def)

lemma get_step_inside:
  assumes "get_step p n n'" "gpcs n ! p \<noteq> GUnlock"
  shows "in_get (gpcs n' ! p) (got n' ! p)" "received (gpcs n' ! p) (got n' ! p) = received (gpcs n ! p) (got n ! p)"
    "ppcs n' = ppcs n" "sent n' = sent n" "q \<noteq> p \<Longrightarrow> gpcs n' ! q = gpcs n ! q" "q \<noteq> p \<Longrightarrow> got n' ! q = got n ! q"
  using assms by (simp_all add: get_step_def)

lemma merge_get_first:
  assumes "flow (received (gpcs n ! p) (got n ! p)) R [] hb out" "get_step p n n'" "gpcs n ! p = GUnlock"
  shows "flow (got n' ! p) R [last (got n' ! p)] hb out"
  by (subst get_step_return(2) [OF assms(2,3)]) (rule flow_first [OF assms(1)])

lemma merge_get_second:
  assumes "flow R (received (gpcs n ! q) (got n ! q)) ha [] out" "get_step q n n'" "gpcs n ! q = GUnlock"
  shows "flow R (got n' ! q) ha [last (got n' ! q)] out"
  by (subst get_step_return(2) [OF assms(2,3)]) (rule flow_second [OF assms(1)])

lemma merge_get:
  assumes "merge_ok s p q n th" "next_call th = CGet r" "get_step r n n'" "p \<noteq> q"
  shows "r \<in> {p, q} \<and> (if gpcs n ! r = GUnlock
     then \<exists>th1. after_call m th (last (got n' ! r)) = Inr th1 \<and> merge_ok s p q n' th1 else merge_ok s p q n' th)"
proof (cases "gpcs n ! r = GUnlock")
  case True
  note ret = get_step_return [OF assms(3) True]
  show ?thesis
  proof (cases th)
    case (MergeA self p' q')
    then show ?thesis using assms(1,2,4) True ret merge_get_first [OF _ assms(3) True] by simp
  next
    case (MergeB self p' q' a)
    then show ?thesis using assms(1,2,4) True ret merge_get_second [OF _ assms(3) True] by simp
  next
    case (MergeGetA self p' q' b)
    then show ?thesis using assms(1,2,4) True ret merge_get_first [OF _ assms(3) True] by simp
  next
    case (MergeGetB self p' q' a)
    then show ?thesis using assms(1,2,4) True ret merge_get_second [OF _ assms(3) True] by simp
  qed (use assms in auto)
next
  case False
  note inside = get_step_inside [OF assms(3) False]
  show ?thesis using assms(1,2,4) False inside by (cases th) auto
qed

lemma merge_put:
  assumes "merge_ok s p q n th" "next_call th = CPut r v" "put_step r v n n'"
  shows "r = s \<and> (if ppcs n ! r = PUnlock then \<exists>th1. after_call m th v = Inr th1 \<and> merge_ok s p q n' th1
    else merge_ok s p q n' th)"
proof (cases th)
  case (MergePut self p' q' a b)
  with assms have i: "self = s" "p' = p" "q' = q" "r = s" "v = (if a < b then a else b)" "gpcs n ! p = GIdle" "gpcs n ! q = GIdle"
    "flow (got n ! p) (got n ! q) [a] [b] (entered (ppcs n ! s) (sent n ! s))" by auto
  have same: "gpcs n' = gpcs n" "got n' = got n" using assms(3) by (simp_all add: put_step_def)
  show ?thesis
  proof (cases "ppcs n ! s = PUnlock")
    case True
    then have "ppcs n' ! s = PIdle" "sent n' ! s = entered (ppcs n ! s) (sent n ! s) @ [v]"
      using assms(3) i(4) by (auto simp: put_step_def)
    then show ?thesis using True MergePut i same flow_put_first [OF i(8)] flow_put_second [OF i(8)] by simp
  next
    case False
    then show ?thesis using assms(3) MergePut i same by (simp add: put_step_def)
  qed
qed (use assms in auto)

text \<open>A body is not touched by the turns of the others.\<close>

lemma frames:
  "ppcs n' ! s = ppcs n ! s \<Longrightarrow> sent n' ! s = sent n ! s \<Longrightarrow> successor_ok s n' th = successor_ok s n th"
  "ppcs n' ! s = ppcs n ! s \<Longrightarrow> sent n' ! s = sent n ! s \<Longrightarrow> gpcs n' ! p = gpcs n ! p \<Longrightarrow> got n' ! p = got n ! p \<Longrightarrow>
     times_ok s k p n' th = times_ok s k p n th"
  "ppcs n' ! s = ppcs n ! s \<Longrightarrow> sent n' ! s = sent n ! s \<Longrightarrow> gpcs n' ! p = gpcs n ! p \<Longrightarrow> got n' ! p = got n ! p \<Longrightarrow>
     gpcs n' ! q = gpcs n ! q \<Longrightarrow> got n' ! q = got n ! q \<Longrightarrow> merge_ok s p q n' th = merge_ok s p q n th"
  "gpcs n' ! p = gpcs n ! p \<Longrightarrow> got n' ! p = got n ! p \<Longrightarrow> consumer_ok s p n' th = consumer_ok s p n th"
  by (cases th; simp)+

text \<open>The calls a body can be at.\<close>

lemma calls_of:
  "successor_ok s n th \<Longrightarrow> next_call th = CPut r v \<Longrightarrow> r = s \<and> in_put (ppcs n ! r) (sent n ! r) v"
  "successor_ok s n th \<Longrightarrow> next_call th \<noteq> CGet q"
  "times_ok s k p n th \<Longrightarrow> next_call th = CPut r v \<Longrightarrow> r = s \<and> in_put (ppcs n ! r) (sent n ! r) v"
  "times_ok s k p n th \<Longrightarrow> next_call th = CGet q \<Longrightarrow> q = p \<and> in_get (gpcs n ! q) (got n ! q)"
  "merge_ok s p p2 n th \<Longrightarrow> next_call th = CPut r v \<Longrightarrow> r = s \<and> in_put (ppcs n ! r) (sent n ! r) v"
  "merge_ok s p p2 n th \<Longrightarrow> next_call th = CGet q \<Longrightarrow> q \<in> {p, p2} \<and> in_get (gpcs n ! q) (got n ! q)"
  "consumer_ok s p n th \<Longrightarrow> next_call th \<noteq> CPut r v"
  "consumer_ok s p n th \<Longrightarrow> next_call th = CGet q \<Longrightarrow> q = p \<and> in_get (gpcs n ! q) (got n ! q)"
  by (cases th; auto)+

lemma thread_result:
  assumes "if c then \<exists>th1. r = Inr th1 \<and> ths' = ths[t := th1] else ths' = ths"
    and "if c then \<exists>th1. r = Inr th1 \<and> P th1 else P (ths ! t)"
  shows "\<exists>th1. ths' = ths[t := th1] \<and> P th1"
  using assms by (cases c) (auto intro: exI [of _ "ths ! t"])

lemma main_get:
  assumes inv: "main_shape n" "main_threads n ths" and t: "t < 5" "next_call (ths ! t) = CGet p"
    and nx: "get_next p n = Inr (Some n1)"
    and ret: "if gpcs n ! p = GUnlock
       then \<exists>th1. after_call (mem n1) (ths ! t) (last (got n1 ! p)) = Inr th1 \<and> ths' = ths[t := th1] else ths' = ths"
  shows "main_threads n1 ths' \<and> p < length (gpcs n)"
proof -
  have ok: "length ths = 5" "successor_ok 0 n (ths ! 0)" "times_ok 1 5 4 n (ths ! 1)" "times_ok 2 7 5 n (ths ! 2)"
    "merge_ok 3 2 3 n (ths ! 3)" "consumer_ok 4 1 n (ths ! 4)" using inv(2) by (simp_all add: main_threads_def)
  have lens: "length (gpcs n) = 6" "length (gpcs n) = length (prods (mem n))" "length (got n) = length (prods (mem n))"
    using inv(1) by (simp_all add: main_shape_def)
  have ts: "t = 0 \<or> t = 1 \<or> t = 2 \<or> t = 3 \<or> t = 4" using t(1) by auto
  then have p: "in_get (gpcs n ! p) (got n ! p)" "p < length (gpcs n)"
    using t(2) ok calls_of(2,4,6,8) lens(1) by fastforce+
  have step: "get_step p n n1"
    unfolding get_step_def by (rule get_next_call [OF nx p(2) lens(2,3) p(1)])
  have same: "ppcs n1 = ppcs n" "sent n1 = sent n" "\<And>q. q \<noteq> p \<Longrightarrow> gpcs n1 ! q = gpcs n ! q \<and> got n1 ! q = got n ! q"
    using step by (simp_all add: get_step_def)
  have shape: "main_shape n1" by (rule main_shape_get [OF nx p(2) inv(1)])
  from ts show ?thesis
  proof (elim disjE)
    assume "t = 0"
    then show ?thesis using t(2) calls_of(2) [OF ok(2)] by simp
  next
    assume t1: "t = 1"
    then have q: "p = 4" using calls_of(4) [OF ok(3)] t(2) by simp
    obtain th1 where "ths' = ths[1 := th1]" "times_ok 1 5 4 n1 th1"
      using thread_result [OF ret, of "times_ok 1 5 4 n1"] times_get [OF ok(3) t(2) [unfolded t1] step, of "mem n1"]
      unfolding t1 by blast
    then show ?thesis using ok same q p(2) by (simp add: main_threads_def frames [of n1 _ n])
  next
    assume t2: "t = 2"
    then have q: "p = 5" using calls_of(4) [OF ok(4)] t(2) by simp
    obtain th1 where "ths' = ths[2 := th1]" "times_ok 2 7 5 n1 th1"
      using thread_result [OF ret, of "times_ok 2 7 5 n1"] times_get [OF ok(4) _ step, of "mem n1"] t(2) t2 by auto
    then show ?thesis using ok same q p(2) by (simp add: main_threads_def frames [of n1 _ n])
  next
    assume t3: "t = 3"
    then have q: "p = 2 \<or> p = 3" using calls_of(6) [OF ok(5)] t(2) by simp
    obtain th1 where "ths' = ths[3 := th1]" "merge_ok 3 2 3 n1 th1"
      using thread_result [OF ret, of "merge_ok 3 2 3 n1"] merge_get [OF ok(5) _ step, of "mem n1"] t(2) t3 by auto
    then show ?thesis using ok same q p(2) by (auto simp: main_threads_def frames [of n1 _ n])
  next
    assume t4: "t = 4"
    then have q: "p = 1" using calls_of(8) [OF ok(6)] t(2) by simp
    obtain x where x: "prod_at (mem n1) 1 = Inr x" "p_next x = NULL"
      using shape by (auto simp: main_shape_def prod_at_def map_eq_Cons_conv)
    have "s_prod_head (streams (mem n1) ! 4) = 1" using shape by (simp add: main_shape_def)
    then obtain th1 where "ths' = ths[4 := th1]" "consumer_ok 4 1 n1 th1"
      using thread_result [OF ret, of "consumer_ok 4 1 n1"] consumer_get [OF ok(6) _ step x] t(2) t4 by auto
    then show ?thesis using ok same q p(2) by (simp add: main_threads_def frames [of n1 _ n])
  qed
qed

lemma main_put:
  assumes inv: "main_shape n" "main_threads n ths" and t: "t < 5" "next_call (ths ! t) = CPut s v"
    and nx: "put_next s v n = Some n1"
    and ret: "if ppcs n ! s = PUnlock
       then \<exists>th1. after_call (mem n1) (ths ! t) v = Inr th1 \<and> ths' = ths[t := th1] else ths' = ths"
  shows "main_threads n1 ths' \<and> s < length (ppcs n)"
proof -
  have ok: "length ths = 5" "successor_ok 0 n (ths ! 0)" "times_ok 1 5 4 n (ths ! 1)" "times_ok 2 7 5 n (ths ! 2)"
    "merge_ok 3 2 3 n (ths ! 3)" "consumer_ok 4 1 n (ths ! 4)" using inv(2) by (simp_all add: main_threads_def)
  have lens: "length (ppcs n) = 5" "length (sent n) = 5" using inv(1) by (simp_all add: main_shape_def)
  have ts: "t = 0 \<or> t = 1 \<or> t = 2 \<or> t = 3 \<or> t = 4" using t(1) by auto
  then have p: "in_put (ppcs n ! s) (sent n ! s) v" "s < length (ppcs n)" "s < length (sent n)"
    using t(2) ok calls_of(1,3,5,7) lens by fastforce+
  have step: "put_step s v n n1"
    unfolding put_step_def by (rule put_next_call [OF nx p(2,3,1)])
  have same: "gpcs n1 = gpcs n" "got n1 = got n" "\<And>q. q \<noteq> s \<Longrightarrow> ppcs n1 ! q = ppcs n ! q \<and> sent n1 ! q = sent n ! q"
    using step by (simp_all add: put_step_def)
  from ts show ?thesis
  proof (elim disjE)
    assume t0: "t = 0"
    then have q: "s = 0" using calls_of(1) [OF ok(2)] t(2) by simp
    obtain th1 where "ths' = ths[0 := th1]" "successor_ok 0 n1 th1"
      using thread_result [OF ret, of "successor_ok 0 n1"] successor_put [OF ok(2) _ step, of "mem n1"] t(2) t0 by auto
    then show ?thesis using ok same q p(2) by (simp add: main_threads_def frames [of n1 _ n])
  next
    assume t1: "t = 1"
    then have q: "s = 1" using calls_of(3) [OF ok(3)] t(2) by simp
    obtain th1 where "ths' = ths[1 := th1]" "times_ok 1 5 4 n1 th1"
      using thread_result [OF ret, of "times_ok 1 5 4 n1"] times_put [OF ok(3) t(2) [unfolded t1] step, of "mem n1"]
      unfolding t1 by blast
    then show ?thesis using ok same q p(2) by (simp add: main_threads_def frames [of n1 _ n])
  next
    assume t2: "t = 2"
    then have q: "s = 2" using calls_of(3) [OF ok(4)] t(2) by simp
    obtain th1 where "ths' = ths[2 := th1]" "times_ok 2 7 5 n1 th1"
      using thread_result [OF ret, of "times_ok 2 7 5 n1"] times_put [OF ok(4) _ step, of "mem n1"] t(2) t2 by auto
    then show ?thesis using ok same q p(2) by (simp add: main_threads_def frames [of n1 _ n])
  next
    assume t3: "t = 3"
    then have q: "s = 3" using calls_of(5) [OF ok(5)] t(2) by simp
    obtain th1 where "ths' = ths[3 := th1]" "merge_ok 3 2 3 n1 th1"
      using thread_result [OF ret, of "merge_ok 3 2 3 n1"] merge_put [OF ok(5) _ step, of "mem n1"] t(2) t3 by auto
    then show ?thesis using ok same q p(2) by (simp add: main_threads_def frames [of n1 _ n])
  next
    assume "t = 4"
    then show ?thesis using t(2) calls_of(7) [OF ok(6)] by simp
  qed
qed

section \<open>The program\<close>

text \<open>Runs in which neither \<open>times\<close> thread ever gets five tokens ahead of the other.\<close>

inductive steady_reach :: "world \<Rightarrow> world \<Rightarrow> bool" where
  steady_start: "steady_reach w w"
| steady_turn: "steady_reach w0 w \<Longrightarrow> calm 0 (network w) \<Longrightarrow> t < length (threads w) \<Longrightarrow>
    thread_turn t w = Inr (Some w') \<Longrightarrow> steady_reach w0 w'"

definition main_inv :: "world \<Rightarrow> bool" where
  "main_inv w \<longleftrightarrow> main_shape (network w) \<and> main_threads (network w) (threads w) \<and>
     many_inv 0 (network w) \<and> many_inv 1 (network w) \<and> many_inv 2 (network w) \<and> many_inv 3 (network w)"

lemma cells_of_filter:
  "cells_of s m = set (filter (\<lambda>p. p \<noteq> NULL \<and> map_option p_stream (prods m ! p) = Some s) [0..<length (prods m)])"
  by (auto simp: cells_of_def)

lemma main_cells:
  assumes "main_shape n"
  shows "cells_of 0 (mem n) = {4, 5}" "cells_of 1 (mem n) = {2}" "cells_of 2 (mem n) = {3}" "cells_of 3 (mem n) = {1}"
proof -
  obtain a b c d e where ps: "prods (mem n) = [None, Some a, Some b, Some c, Some d, Some e]"
    and src: "p_stream a = 3" "p_stream b = 1" "p_stream c = 2" "p_stream d = 0" "p_stream e = 0"
    using assms by (auto simp: main_shape_def map_eq_Cons_conv)
  show "cells_of 0 (mem n) = {4, 5}" "cells_of 1 (mem n) = {2}" "cells_of 2 (mem n) = {3}" "cells_of 3 (mem n) = {1}"
    unfolding cells_of_filter ps by (simp_all add: upt_rec src numeral_eq_Suc)
qed

lemma calm_single: "cells_of s (mem n) = {p} \<Longrightarrow> calm s n"
  by (simp add: calm_def close_def)

lemma main_inv_turn:
  assumes "thread_turn t w = Inr (Some w')" "t < length (threads w)" "calm 0 (network w)" "main_inv w"
  shows "main_inv w'"
proof -
  have inv: "main_shape (network w)" "main_threads (network w) (threads w)" using assms(4) by (simp_all add: main_inv_def)
  have many: "many_inv 0 (network w)" "many_inv 1 (network w)" "many_inv 2 (network w)" "many_inv 3 (network w)"
    using assms(4) by (simp_all add: main_inv_def)
  have t: "t < 5" using assms(2) inv(2) by (simp add: main_threads_def)
  note calm = assms(3) calm_single [OF main_cells(2) [OF inv(1)]] calm_single [OF main_cells(3) [OF inv(1)]]
    calm_single [OF main_cells(4) [OF inv(1)]]
  from assms(1) show ?thesis
  proof (cases rule: thread_turn_cases)
    case (get p n1)
    have step: "main_threads n1 (threads w')" "p < length (gpcs (network w))"
      using main_get [OF inv t get(1,2,4)] by simp_all
    show ?thesis
      using step main_shape_get [OF get(2) step(2) inv(1)] many_inv_get [OF get(2) step(2) many(1) calm(1)]
        many_inv_get [OF get(2) step(2) many(2) calm(2)] many_inv_get [OF get(2) step(2) many(3) calm(3)]
        many_inv_get [OF get(2) step(2) many(4) calm(4)] get(3) by (simp add: main_inv_def)
  next
    case (put s v n1)
    have step: "main_threads n1 (threads w')" "s < length (ppcs (network w))"
      using main_put [OF inv t put(1,2,4)] by simp_all
    show ?thesis
      using step main_shape_put [OF put(2) inv(1)] many_inv_put [OF put(2) step(2) many(1)]
        many_inv_put [OF put(2) step(2) many(2)] many_inv_put [OF put(2) step(2) many(3)]
        many_inv_put [OF put(2) step(2) many(4)] put(3) by (simp add: main_inv_def)
  qed
qed

lemma main_inv_reach: "steady_reach w0 w \<Longrightarrow> main_inv w0 \<Longrightarrow> main_inv w"
  by (induction rule: steady_reach.induct) (auto intro: main_inv_turn)

text \<open>What \<open>main\<close> builds.\<close>

definition main_built :: "int stream list \<Rightarrow> int mem" where
  "main_built raw = \<lparr>streams = [
       init_stream (raw ! 0)\<lparr>s_consumers := 2\<rparr>,
       init_stream (raw ! 1)\<lparr>s_consumers := 1, s_prod_head := 4, s_prod_curr := 4\<rparr>,
       init_stream (raw ! 2)\<lparr>s_consumers := 1, s_prod_head := 5, s_prod_curr := 5\<rparr>,
       init_stream (raw ! 3)\<lparr>s_consumers := 1, s_prod_head := 2, s_prod_curr := 3\<rparr>,
       init_stream (raw ! 4)\<lparr>s_prod_head := 1, s_prod_curr := 1\<rparr>],
     prods = [None, Some \<lparr>p_idx = 0, p_stream = 3, p_next = 0, p_prev = 0\<rparr>,
       Some \<lparr>p_idx = 0, p_stream = 1, p_next = 3, p_prev = 0\<rparr>, Some \<lparr>p_idx = 0, p_stream = 2, p_next = 0, p_prev = 2\<rparr>,
       Some \<lparr>p_idx = 0, p_stream = 0, p_next = 0, p_prev = 0\<rparr>, Some \<lparr>p_idx = 0, p_stream = 0, p_next = 0, p_prev = 0\<rparr>]\<rparr>"

lemma main_mem_built:
  assumes "length raw = 5"
  shows "main_mem raw = Inr (main_built raw)"
proof -
  obtain r0 r1 r2 r3 r4 where "raw = [r0, r1, r2, r3, r4]"
    using assms by (auto simp: length_Suc_conv eval_nat_numeral)
  then show ?thesis
    by (simp add: main_mem_def main_built_def stream_connect_def prod_set_def prod_at_def init_stream_def Let_def)
qed

lemma main_start_inv:
  assumes "main_start raw = Inr w0" "length raw = 5" "\<And>r. r \<in> set raw \<Longrightarrow> length (s_buffer r) = 5"
  shows "main_inv w0"
proof -
  let ?m = "main_built raw"
  have w0: "w0 = \<lparr>network = idle_net ?m, threads = [Successor 0 1, TimesGet 1 5 4, TimesGet 2 7 5, MergeA 3 2 3, Consumer 4 0 1]\<rparr>"
    using assms(1) main_mem_built [OF assms(2)]
    by (simp add: main_start_def start_successor_def start_times_def start_merge_def start_consumer_def main_built_def
        prod_at_def Let_def init_stream_def)
  have shape: "main_shape (idle_net ?m)"
    by (simp add: main_shape_def idle_net_def main_built_def init_stream_def)
  note cells = main_cells [OF shape, unfolded idle_net_def, simplified]
  have buf: "length (s_buffer (raw ! i)) = 5" if "i < 5" for i using assms(2,3) that by simp
  have "connected_all s ?m" if "s \<in> {0, 1, 2, 3}" for s
    using that buf [of 0] buf [of 1] buf [of 2] buf [of 3] cells
    by (auto simp: connected_all_def) (simp_all add: main_built_def init_stream_def BUFFER_SIZE_def)
  then have many: "many_inv s (idle_net ?m)" if "s \<in> {0, 1, 2, 3}" for s using that many_inv_idle by blast
  have "main_threads (idle_net ?m) [Successor 0 1, TimesGet 1 5 4, TimesGet 2 7 5, MergeA 3 2 3, Consumer 4 0 1]"
    by (simp add: main_threads_def idle_net_def main_built_def flow_def)
  with shape many show ?thesis by (simp add: main_inv_def w0)
qed

lemma entered_prefix: "prefix (entered pp snt) snt"
  by (cases pp) (simp_all add: prefixeq_butlast)

lemma received_prefix: "prefix (received g gt) gt"
  by (simp add: received_def prefixeq_butlast)

section \<open>What the program prints\<close>

lemma in_put_cases:
  assumes "in_put pp snt v"
  obtains "snt = entered pp snt" | "snt = entered pp snt @ [v]"
  using assms by (cases pp) (auto simp: append_butlast_last_id)

lemma in_put_prefix: "in_put pp snt v \<Longrightarrow> prefix snt (entered pp snt @ [v])"
  by (erule in_put_cases) (metis prefixI, metis prefix_order.refl)

lemma successor_sent: "successor_ok s n th \<Longrightarrow> \<exists>m. sent n ! s = [1..m]"
proof (cases th)
  case (Successor self i)
  assume "successor_ok s n th"
  with Successor have ok: "1 \<le> i" "in_put (ppcs n ! s) (sent n ! s) i" "entered (ppcs n ! s) (sent n ! s) = [1..i - 1]"
    by simp_all
  have "[1..i] = [1..i - 1] @ [i]" using ok(1) by (simp add: upto_rec2)
  with in_put_cases [OF ok(2)] ok(3) show ?thesis by metis
qed simp_all

lemma times_sent: "times_ok s k p n th \<Longrightarrow> prefix (sent n ! s) (map (\<lambda>x. x * k) (got n ! p))"
proof (cases th)
  case (TimesPut self k' p' x)
  assume ok: "times_ok s k p n th"
  then have "in_put (ppcs n ! s) (sent n ! s) (x * k)" "entered (ppcs n ! s) (sent n ! s) @ [x * k] = map (\<lambda>x. x * k) (got n ! p)"
    using TimesPut by auto
  then show ?thesis by (metis in_put_prefix)
qed (auto simp: map_mono_prefix received_prefix)

lemma merge_sent: "merge_ok s p q n th \<Longrightarrow> prefix (sent n ! s) (merge_out (got n ! p) (got n ! q))"
proof -
  assume ok: "merge_ok s p q n th"
  have weaker: "prefix (merge_out (received g R1) (received h R2)) (merge_out R1 R2)"
    "prefix (merge_out (received g R1) R2) (merge_out R1 R2)" "prefix (merge_out R1 (received h R2)) (merge_out R1 R2)" for g h R1 R2
    by (rule merge_out_prefix; simp add: received_prefix)+
  show ?thesis
  proof (cases th)
    case (MergePut self p' q' a b)
    with ok have put: "in_put (ppcs n ! s) (sent n ! s) (if a < b then a else b)"
      and fl: "flow (got n ! p) (got n ! q) [a] [b] (entered (ppcs n ! s) (sent n ! s))" by simp_all
    have "\<exists>ha hb. flow (got n ! p) (got n ! q) ha hb (entered (ppcs n ! s) (sent n ! s) @ [if a < b then a else b])"
      using flow_put_first [OF fl] flow_put_second [OF fl] by (cases "a < b") auto
    then show ?thesis using flow_out in_put_prefix [OF put] prefix_order.trans by blast
  qed (use ok in \<open>auto dest!: flow_out intro: prefix_order.trans [OF _ weaker(2)] prefix_order.trans [OF _ weaker(3)]\<close>)
qed

lemma consumer_length:
  assumes "consumer_ok s p n th"
  shows "length (got n ! p) \<le> 10" "th = Exited \<Longrightarrow> length (got n ! p) = 10"
  using assms by (cases th; auto simp: received_def split: if_splits)+

text \<open>The tokens of \<open>times\<close> 5 and 7 that merge to what the consumer prints.\<close>

definition consumed :: "int list" where
  "consumed = [5, 7, 10, 14, 15, 20, 21, 25, 28, 30]"

lemma upto_prefix: "m \<le> k \<Longrightarrow> prefix [1..m] [1..k :: int]"
proof (cases "1 \<le> m")
  case True
  assume "m \<le> k"
  then show ?thesis using upto_split2 [OF True] prefixI by blast
qed simp

lemma consumed_merge: "prefix consumed (merge_out (map (\<lambda>x. x * 5) [1..max m 6]) (map (\<lambda>x. x * 7) [1..max m 6]))"
proof -
  have six: "consumed = merge_out (map (\<lambda>x. x * 5) [1..6]) (map (\<lambda>x. x * 7) [1..6])"
    by code_simp
  have "prefix [1..6] [1..max m 6]" by (rule upto_prefix) simp
  then show ?thesis unfolding six by (intro merge_out_prefix map_mono_prefix)
qed

lemma main_inv_prints:
  assumes "main_inv w"
  shows "prefix (got (network w) ! 1) consumed" "main_done w \<Longrightarrow> got (network w) ! 1 = consumed"
proof -
  let ?n = "network w"
  have inv: "main_shape ?n" "main_threads ?n (threads w)" "many_inv 0 ?n" "many_inv 1 ?n" "many_inv 2 ?n" "many_inv 3 ?n"
    using assms by (simp_all add: main_inv_def)
  have ok: "successor_ok 0 ?n (threads w ! 0)" "times_ok 1 5 4 ?n (threads w ! 1)" "times_ok 2 7 5 ?n (threads w ! 2)"
    "merge_ok 3 2 3 ?n (threads w ! 3)" "consumer_ok 4 1 ?n (threads w ! 4)" using inv(2) by (simp_all add: main_threads_def)
  note cells = main_cells [OF inv(1)]
  have "4 \<in> cells_of 0 (mem ?n)" "5 \<in> cells_of 0 (mem ?n)" "2 \<in> cells_of 1 (mem ?n)" "3 \<in> cells_of 2 (mem ?n)"
    "1 \<in> cells_of 3 (mem ?n)" unfolding cells by simp_all
  note pre = many.fifo [OF inv(3) this(1)] many.fifo [OF inv(3) this(2)] many.fifo [OF inv(4) this(3)]
    many.fifo [OF inv(5) this(4)] many.fifo [OF inv(6) this(5)]
  obtain m where m: "sent ?n ! 0 = [1..m]" using successor_sent [OF ok(1)] by blast
  have long: "prefix [1..m] [1..max m 6]" by (rule upto_prefix) simp
  have "prefix (map (\<lambda>x. x * k) xs) (map (\<lambda>x. x * k) [1..max m 6])" if "prefix xs (sent ?n ! 0)" for k xs
    using that long unfolding m by (metis map_mono_prefix prefix_order.trans)
  note this [OF pre(1)] this [OF pre(2)]
  then have "prefix (got ?n ! 2) (map (\<lambda>x. x * 5) [1..max m 6])" "prefix (got ?n ! 3) (map (\<lambda>x. x * 7) [1..max m 6])"
    using pre(3,4) times_sent [OF ok(2)] times_sent [OF ok(3)] prefix_order.trans by blast+
  then have all: "prefix (got ?n ! 1) (merge_out (map (\<lambda>x. x * 5) [1..max m 6]) (map (\<lambda>x. x * 7) [1..max m 6]))"
    using pre(5) merge_sent [OF ok(4)] merge_out_prefix by (meson prefix_order.trans)
  have "length (got ?n ! 1) \<le> length consumed" using consumer_length(1) [OF ok(5)] by (simp add: consumed_def)
  then show pre: "prefix (got ?n ! 1) consumed" by (rule prefix_length_prefix [OF all consumed_merge])
  assume "main_done w"
  then have "length (got ?n ! 1) = length consumed" using consumer_length(2) [OF ok(5)] by (simp add: main_done_def consumed_def)
  with pre show "got ?n ! 1 = consumed" by (metis append_Nil2 append_eq_append_conv prefixE)
qed


text \<open>C30: What \<open>main.c\<close> prints. In every run in which neither \<open>times\<close> thread gets five tokens ahead of the other, whatever
  the order of the turns, the consumer has received the first tokens of 5, 7, 10, 14, 15, 20, 21, 25, 28, 30, and
  when \<open>main\<close> stops waiting for it, exactly these ten.\<close>

theorem main_prints:
  assumes "main_start raw = Inr w0" "length raw = 5" "\<And>r. r \<in> set raw \<Longrightarrow> length (s_buffer r) = 5" "steady_reach w0 w"
  shows "got (network w) ! 1 = take (length (got (network w) ! 1)) [5, 7, 10, 14, 15, 20, 21, 25, 28, 30] \<and>
     (main_done w \<longrightarrow> got (network w) ! 1 = [5, 7, 10, 14, 15, 20, 21, 25, 28, 30])"
  using main_inv_prints [OF main_inv_reach [OF assms(4) main_start_inv [OF assms(1-3)]]]
  by (auto simp: consumed_def elim!: prefixE dest: arg_cong)

section \<open>Two schedules\<close>

text \<open>A schedule as the lengths of its runs: the thread and its number of turns in a row.\<close>

definition expand :: "(nat \<times> nat) list \<Rightarrow> nat list" where
  "expand runs = concat (map (\<lambda>(t, k). replicate k t) runs)"

text \<open>The last thread that need not wait moves first.\<close>

definition fair_schedule :: "(nat \<times> nat) list" where
  "fair_schedule = [(4, 4), (3, 4), (2, 4), (1, 4), (0, 6), (2, 14), (1, 10), (3, 7), (1, 4), (0, 6), (2, 10), (3,
     11), (4, 8), (3, 4), (2, 4), (1, 10), (3, 10), (4, 8), (3, 3), (1, 4), (0, 6), (2, 10), (3,
     11), (4, 8), (3, 4), (2, 4), (1, 10), (3, 10), (4, 8), (3, 3), (1, 4), (0, 6), (2, 10), (3,
     11), (4, 8), (3, 4), (2, 4), (1, 10), (3, 10), (4, 8), (3, 4), (1, 4), (0, 6), (2, 14), (1,
     10), (3, 10), (4, 8), (3, 12), (4, 8), (3, 4), (1, 4), (0, 6), (2, 14), (1, 10), (3, 10), (4,
     8), (3, 12), (4, 4)]"

text \<open>\<open>times\<close> 7 does not run before \<open>times\<close> 5 has put its sixth token.\<close>

definition late_schedule :: "(nat \<times> nat) list" where
  "late_schedule = [(3, 4), (1, 4), (0, 6), (1, 10), (3, 8), (1, 4), (0, 6), (1, 14), (0, 6), (1, 14), (0, 6), (1,
     14), (0, 6), (1, 21), (2, 4), (4, 4), (1, 8), (0, 6), (2, 10), (3, 10), (4, 8), (3, 12), (4,
     8), (3, 12), (4, 8), (3, 12), (4, 8), (3, 12), (4, 8), (3, 3), (2, 4), (1, 5), (3, 11), (4, 3)]"

definition main_world :: world where
  "main_world = (case main_start (replicate 5 raw_stream) of Inr w \<Rightarrow> w)"

text \<open>The runs of \<open>run_threads\<close> in which cells 4 and 5 stay close.\<close>

fun run_steady :: "nat list \<Rightarrow> world \<Rightarrow> world option" where
  "run_steady [] w = Some w"
| "run_steady (t # ts) w = (let a = length (got (network w) ! 4); b = length (got (network w) ! 5) in
     if a < b + 5 \<and> b < a + 5 then case run_threads [t] w of None \<Rightarrow> None | Some w1 \<Rightarrow> run_steady ts w1 else None)"

lemma fair_run: "case run_steady (expand fair_schedule) main_world of None \<Rightarrow> False | Some w \<Rightarrow>
    main_done w \<and> got (network w) ! 1 = [5, 7, 10, 14, 15, 20, 21, 25, 28, 30]"
  by code_simp

lemma run_steady_reach:
  "run_steady ts w = Some w' \<Longrightarrow> main_inv w \<Longrightarrow> steady_reach w0 w \<Longrightarrow> steady_reach w0 w'"
proof (induction ts arbitrary: w)
  case (Cons t ts)
  let ?a = "length (got (network w) ! 4)" and ?b = "length (got (network w) ! 5)"
  obtain w1 where w1: "?a < ?b + 5" "?b < ?a + 5" "t < length (threads w)" "thread_turn t w = Inr (Some w1)"
    "run_steady ts w1 = Some w'"
    using Cons.prems(1) by (auto simp: Let_def split: if_splits option.splits sum.splits)
  have "main_shape (network w)" using Cons.prems(2) by (simp add: main_inv_def)
  then have calm: "calm 0 (network w)" using w1(1,2) by (simp add: calm_def close_def main_cells)
  show ?case
    by (rule Cons.IH [OF w1(5) main_inv_turn [OF w1(4,3) calm Cons.prems(2)] steady_turn [OF Cons.prems(3) calm w1(3,4)]])
qed simp

lemma main_world_start: "main_start (replicate 5 raw_stream) = Inr main_world"
proof -
  have "case main_start (replicate 5 raw_stream) of Inl e \<Rightarrow> False | Inr w \<Rightarrow> True" by code_simp
  then show ?thesis by (auto simp: main_world_def split: sum.splits)
qed

lemma steady_world_reach: "steady_reach w0 w \<Longrightarrow> world_reach w0 w"
  by (induction rule: steady_reach.induct) (auto intro: world_reach.intros)

lemma raw_lengths: "r \<in> set (replicate 5 raw_stream) \<Longrightarrow> length (s_buffer r) = 5"
  by (simp add: raw_stream_def)

lemma fair_world:
  obtains w where "steady_reach main_world w" "main_done w" "got (network w) ! 1 = [5, 7, 10, 14, 15, 20, 21, 25, 28, 30]"
proof -
  from fair_run obtain w where w: "run_steady (expand fair_schedule) main_world = Some w" "main_done w"
    "got (network w) ! 1 = [5, 7, 10, 14, 15, 20, 21, 25, 28, 30]" by (auto split: option.splits)
  have "main_inv main_world" by (rule main_start_inv [OF main_world_start _ raw_lengths]) simp
  from that [OF run_steady_reach [OF w(1) this steady_start] w(2,3)] show thesis .
qed

theorem main_prints_witness:
  "\<exists>w. steady_reach main_world w \<and> main_done w \<and> got (network w) ! 1 = [5, 7, 10, 14, 15, 20, 21, 25, 28, 30]"
proof -
  obtain w where w: "steady_reach main_world w" "main_done w" by (rule fair_world)
  with main_prints [OF main_world_start _ raw_lengths w(1)] show ?thesis by auto
qed

text \<open>\<open>main\<close> can finish: its five threads have a schedule under which the consumer gets its ten tokens, the merged
  multiples of 5 and 7, and exits.\<close>

theorem main_finishes:
  "\<exists>w0 w. main_start (replicate 5 raw_stream) = Inr w0 \<and> world_reach w0 w \<and> main_done w \<and>
     got (network w) ! 1 = [5, 7, 10, 14, 15, 20, 21, 25, 28, 30]"
proof -
  obtain w where "steady_reach main_world w" "main_done w" "got (network w) ! 1 = [5, 7, 10, 14, 15, 20, 21, 25, 28, 30]"
    by (rule fair_world)
  with main_world_start steady_world_reach show ?thesis by blast
qed

text \<open>C36: The output is not guaranteed: when \<open>times\<close> 7 is late, \<open>times\<close> 5 reads the first slots of the successor a second
  time, which counts as the read of the other consumer. It receives 1 and 2 twice, \<open>times\<close> 7 starts with the
  token 6, and the consumer gets 5, 10, 15, 20, 25, 5.\<close>

theorem main_duplicates:
  "\<exists>w0 w. main_start (replicate 5 raw_stream) = Inr w0 \<and> world_reach w0 w \<and>
     got (network w) ! 4 = [1, 2, 3, 4, 5, 1, 2] \<and> got (network w) ! 5 = [6] \<and> got (network w) ! 1 = [5, 10, 15, 20, 25, 5]"
proof -
  have "case run_threads (expand late_schedule) main_world of None \<Rightarrow> False | Some w \<Rightarrow>
      got (network w) ! 4 = [1, 2, 3, 4, 5, 1, 2] \<and> got (network w) ! 5 = [6] \<and> got (network w) ! 1 = [5, 10, 15, 20, 25, 5]"
    by code_simp
  then obtain w where w: "run_threads (expand late_schedule) main_world = Some w"
    "got (network w) ! 4 = [1, 2, 3, 4, 5, 1, 2]" "got (network w) ! 5 = [6]" "got (network w) ! 1 = [5, 10, 15, 20, 25, 5]" by (auto split: option.splits)
  with main_world_start run_threads_reach [OF w(1) world_start] show ?thesis by blast
qed

end
