(* ===== verification/Streams_Moves.thy ===== *)
theory Streams_Moves
  imports Streams_Main
begin

text \<open>
  When a thread of a program on streams can move, and the interface of such a program: its threads, the streams they
  use, an invariant, and the condition on a run that keeps the readers of a stream close together. In a program with this
  interface the thread that holds a lock can always move, and a thread that cannot waits for a full buffer or for
  an empty one.
\<close>

section \<open>Who holds a lock\<close>

text \<open>The lock of a stream is held by one of its readers or by the thread that puts into it.\<close>

definition owned :: "nat \<Rightarrow> 'v net \<Rightarrow> bool" where
  "owned s n \<longleftrightarrow> (\<forall>p. s_lock (streams (mem n) ! s) = Some (Getter p) \<longrightarrow> p \<in> cells_of s (mem n)) \<and>
     (\<forall>j. s_lock (streams (mem n) ! s) = Some (Putter j) \<longrightarrow> j = s)"

lemma get_turn_owner:
  "get_turn p st i g = Some (st', i', g', out) \<Longrightarrow>
     s_lock st' = s_lock st \<or> s_lock st' = None \<or> s_lock st' = Some (Getter p)"
  by (cases g) (auto simp: get_turn_def get_body_def Let_def split: if_splits)

lemma put_turn_owner:
  "put_turn j v st pp = Some (st', pp', ins) \<Longrightarrow>
     s_lock st' = s_lock st \<or> s_lock st' = None \<or> s_lock st' = Some (Putter j)"
  by (cases pp) (auto simp: put_turn_def put_body_def split: if_splits)

lemma owned_get:
  assumes "get_next p n = Inr (Some n')" "p < length (gpcs n)" "length (gpcs n) = length (prods (mem n))" "owned s n"
  shows "owned s n'"
proof (rule get_next_cases [OF assms(1,2,3)])
  fix y st i pc out
  assume y: "p \<noteq> NULL" "prods (mem n) ! p = Some y"
    "get_turn p (streams (mem n) ! p_stream y) (p_idx y) (gpcs n ! p) = Some (st, i, pc, out)"
    and n': "n' = n\<lparr>mem := (mem n)\<lparr>streams := (streams (mem n))[p_stream y := st],
                      prods := (prods (mem n))[p := Some (y\<lparr>p_idx := i\<rparr>)]\<rparr>,
       gpcs := (gpcs n)[p := pc], got := (got n)[p := got n ! p @ out]\<rparr>"
  have cells: "cells_of s (mem n') = cells_of s (mem n)" using y(2) by (simp add: n' cells_of_update)
  have "p \<in> cells_of (p_stream y) (mem n)" using y(1,2) assms(2,3) by (simp add: cells_of_def)
  then show ?thesis
    using get_turn_owner [OF y(3)] assms(4) unfolding owned_def cells
    by (cases "p_stream y < length (streams (mem n))") (auto simp: n' nth_list_update list_update_beyond)
qed

lemma owned_put:
  assumes "put_next j v n = Some n'" "owned s n"
  shows "owned s n'"
proof -
  obtain st pc ins where t: "put_turn j v (streams (mem n) ! j) (ppcs n ! j) = Some (st, pc, ins)"
    and n': "n' = n\<lparr>mem := (mem n)\<lparr>streams := (streams (mem n))[j := st]\<rparr>,
         ppcs := (ppcs n)[j := pc], sent := (sent n)[j := sent n ! j @ ins]\<rparr>"
    using assms(1) by (auto simp: put_next_def split: option.splits)
  have cells: "cells_of s (mem n') = cells_of s (mem n)" by (simp add: n' cells_of_def)
  show ?thesis
    using put_turn_owner [OF t] assms(2) unfolding owned_def cells
    by (cases "j < length (streams (mem n))") (auto simp: n' nth_list_update list_update_beyond)
qed

lemma owned_free: "s_lock (streams m ! s) = None \<Longrightarrow> owned s (idle_net m)"
  by (simp add: owned_def idle_net_def)

section \<open>Moves\<close>

text \<open>A thread that waits for a condition tests it again in vain when it would only start to wait once more.\<close>

definition in_vain :: "int net \<Rightarrow> thread \<Rightarrow> bool" where
  "in_vain n th = (case next_call th of
     CGet p \<Rightarrow> (case prods (mem n) ! p of None \<Rightarrow> False | Some x \<Rightarrow>
       (case gpcs n ! p of GWait1 \<Rightarrow> get_waits1 (streams (mem n) ! p_stream x) (p_idx x)
        | GWait2 \<Rightarrow> get_waits2 (streams (mem n) ! p_stream x) (p_idx x) | _ \<Rightarrow> False))
   | CPut s v \<Rightarrow> (case ppcs n ! s of PWait x \<Rightarrow> put_waits (streams (mem n) ! s) | _ \<Rightarrow> False)
   | CExit \<Rightarrow> False)"

definition can_move :: "nat \<Rightarrow> world \<Rightarrow> bool" where
  "can_move t w \<longleftrightarrow> \<not> in_vain (network w) (threads w ! t) \<and>
     (case thread_turn t w of Inr (Some w') \<Rightarrow> True | _ \<Rightarrow> False)"

lemma after_get: "next_call th = CGet p \<Longrightarrow> prod_at m p = Inr y \<Longrightarrow> \<exists>th1. after_call m th v = Inr th1"
  by (cases th) auto

lemma after_put: "next_call th = CPut s x \<Longrightarrow> \<exists>th1. after_call m th v = Inr th1"
  by (cases th) auto

lemma getter_next:
  assumes "prod_at (mem n) p = Inr x" "get_turn p (streams (mem n) ! p_stream x) (p_idx x) (gpcs n ! p) = Some r"
  obtains n1 y where "get_next p n = Inr (Some n1)" "prod_at (mem n1) p = Inr y"
proof -
  obtain st i pc out where r: "r = (st, i, pc, out)" by (cases r) auto
  let ?n1 = "n\<lparr>mem := (mem n)\<lparr>streams := (streams (mem n))[p_stream x := st],
                        prods := (prods (mem n))[p := Some (x\<lparr>p_idx := i\<rparr>)]\<rparr>,
         gpcs := (gpcs n)[p := pc], got := (got n)[p := got n ! p @ out]\<rparr>"
  have "get_next p n = Inr (Some ?n1)" using assms by (simp add: get_next_def r)
  moreover have "prod_at (mem ?n1) p = Inr (x\<lparr>p_idx := i\<rparr>)"
    using assms(1) by (auto simp: prod_at_def split: if_splits option.splits)
  ultimately show thesis by (rule that)
qed

lemma getter_turn:
  assumes call: "next_call (threads w ! t) = CGet p" and turn: "prod_at (mem (network w)) p = Inr x"
    "get_turn p (streams (mem (network w)) ! p_stream x) (p_idx x) (gpcs (network w) ! p) = Some r"
  shows "\<exists>w'. thread_turn t w = Inr (Some w')"
proof (rule getter_next [OF turn])
  fix n1 y
  assume n1: "get_next p (network w) = Inr (Some n1)" "prod_at (mem n1) p = Inr y"
  obtain th1 where "after_call (mem n1) (threads w ! t) (last (got n1 ! p)) = Inr th1"
    using after_get [OF call n1(2)] by blast
  then show ?thesis using call n1(1)
    by (cases "gpcs (network w) ! p = GUnlock") (simp_all add: thread_turn_def Let_def)
qed

lemma putter_turn:
  assumes call: "next_call (threads w ! t) = CPut s v"
    and "put_turn s v (streams (mem (network w)) ! s) (ppcs (network w) ! s) = Some r"
  shows "\<exists>w'. thread_turn t w = Inr (Some w')"
proof -
  obtain n1 where n1: "put_next s v (network w) = Some n1" using assms(2) by (cases r) (auto simp: put_next_def)
  obtain th1 where "after_call (mem n1) (threads w ! t) v = Inr th1" using after_put [OF call] by blast
  then show ?thesis using call n1
    by (cases "ppcs (network w) ! s = PUnlock") (simp_all add: thread_turn_def Let_def)
qed

text \<open>A getter under the lock moves, and so does one that starts its call when the lock is free.\<close>

lemma getter_moves:
  assumes "next_call (threads w ! t) = CGet p" "prod_at (mem (network w)) p = Inr x"
    and "get_inside (gpcs (network w) ! p) \<or> s_lock (streams (mem (network w)) ! p_stream x) = None \<and>
      (gpcs (network w) ! p = GWait1 \<longrightarrow> \<not> get_waits1 (streams (mem (network w)) ! p_stream x) (p_idx x)) \<and>
      (gpcs (network w) ! p = GWait2 \<longrightarrow> \<not> get_waits2 (streams (mem (network w)) ! p_stream x) (p_idx x))"
  shows "can_move t w"
proof -
  let ?n = "network w"
  have "\<exists>r. get_turn p (streams (mem ?n) ! p_stream x) (p_idx x) (gpcs ?n ! p) = Some r"
    using assms(3) by (cases "gpcs ?n ! p") (auto simp: get_turn_def split: prod.split)
  then obtain w' where w': "thread_turn t w = Inr (Some w')" using getter_turn [OF assms(1,2)] by blast
  have "prods (mem ?n) ! p = Some x" using assms(2) by (auto simp: prod_at_def split: if_splits option.splits)
  then have "\<not> in_vain ?n (threads w ! t)" using assms(1,3) by (auto simp: in_vain_def split: get_pc.splits)
  with w' show ?thesis by (simp add: can_move_def)
qed

lemma putter_moves:
  assumes "next_call (threads w ! t) = CPut s v"
    and "put_inside (ppcs (network w) ! s) \<or> s_lock (streams (mem (network w)) ! s) = None \<and>
      \<not> (holds_slot (ppcs (network w) ! s) = 1 \<and> put_waits (streams (mem (network w)) ! s)) \<and>
      (holds_slot (ppcs (network w) ! s) = 0 \<longrightarrow> 0 < s_empty (streams (mem (network w)) ! s))"
  shows "can_move t w"
proof -
  let ?n = "network w"
  have "\<exists>r. put_turn s v (streams (mem ?n) ! s) (ppcs ?n ! s) = Some r"
    using assms(2) by (cases "ppcs ?n ! s") (auto simp: put_turn_def)
  then obtain w' where w': "thread_turn t w = Inr (Some w')" using putter_turn [OF assms(1)] by blast
  have "\<not> in_vain ?n (threads w ! t)" using assms by (auto simp: in_vain_def split: put_pc.splits)
  with w' show ?thesis by (simp add: can_move_def)
qed

lemma cells_ofD: "p \<in> cells_of s m \<Longrightarrow> \<exists>x. prod_at m p = Inr x \<and> p_stream x = s"
  by (auto simp: cells_of_def prod_at_def)

section \<open>Waiting\<close>

lemma many_waits:
  assumes ok: "many_ok j C st i g pp snt gt" and p: "p \<in> C"
  shows "get_waits1 st (i p) \<Longrightarrow> length snt = length (gt p) + 1" "get_waits2 st (i p) \<Longrightarrow> length snt \<le> length (gt p)"
proof -
  obtain lo where "slowest C gt lo" "s_empty st + (length snt - lo) + holds_slot pp = 5" using ok by (auto simp: many_ok_def)
  then have le: "length snt \<le> length (gt p) + 5" using slowest_bound p by blast
  have r: "length (gt p) \<le> length snt" "i p = length (gt p) mod 5" "ring_ok st snt (readers_of C gt)" "finite C"
    "s_consumers st = int (card C)" using ok p by (auto simp: many_ok_def reader_ok_def)
  have idx: "s_put_idx st = length snt mod 5" using r(3) by (simp add: ring_ok_def)
  assume "get_waits1 st (i p)"
  then show "length snt = length (gt p) + 1"
    using waits1_iff [OF r(1) le] by (simp only: get_waits1_def BUFFER_SIZE_def r(2) idx)
next
  obtain lo where "slowest C gt lo" "s_empty st + (length snt - lo) + holds_slot pp = 5" using ok by (auto simp: many_ok_def)
  then have le: "length snt \<le> length (gt p) + 5" using slowest_bound p by blast
  have r: "i p = length (gt p) mod 5" "ring_ok st snt (readers_of C gt)" "finite C" "s_consumers st = int (card C)"
    using ok p by (auto simp: many_ok_def reader_ok_def)
  assume w: "get_waits2 st (i p)"
  show "length snt \<le> length (gt p)"
  proof (rule ccontr)
    assume "\<not> length snt \<le> length (gt p)"
    then have "s_read_count st ! (length (gt p) mod 5) = int (readers_of C gt (length (gt p)))"
      using r(2) le by (simp add: ring_ok_def)
    moreover have "readers_of C gt (length (gt p)) \<noteq> card C" using readers_of_all [OF r(3)] p by blast
    moreover have "readers_of C gt (length (gt p)) \<le> card C" by (rule readers_of_le [OF r(3)])
    ultimately show False using w r(1,4) by (simp add: get_waits2_def)
  qed
qed

lemma many_full:
  assumes "many_ok j C st i g pp snt gt" "s_empty st = 0" "holds_slot pp = 0"
  shows "\<exists>q \<in> C. length snt = length (gt q) + 5"
proof -
  obtain lo where lo: "slowest C gt lo" "s_empty st + (length snt - lo) + holds_slot pp = 5"
    using assms(1) by (auto simp: many_ok_def)
  then obtain q where "q \<in> C" "length (gt q) = lo" by (auto simp: slowest_def)
  moreover have "length snt = lo + 5" using lo(2) assms(2,3) by simp
  ultimately show ?thesis by blast
qed

text \<open>A getter that cannot move although the lock is free has at most one token to read; a putter in this position faces a full
  buffer.\<close>

lemma getter_waits:
  assumes inv: "many_inv s (network w)" and s: "s_lock (streams (mem (network w)) ! s) = None" "p \<in> cells_of s (mem (network w))"
    and t: "next_call (threads w ! t) = CGet p" "\<not> can_move t w"
  shows "length (sent (network w) ! s) \<le> length (got (network w) ! p) + 1 \<and> gpcs (network w) ! p \<noteq> GUnlock"
proof -
  let ?n = "network w"
  have many: "many_ok s (cells_of s (mem ?n)) (streams (mem ?n) ! s) (\<lambda>p. p_idx (the (prods (mem ?n) ! p))) (\<lambda>p. gpcs ?n ! p)
      (ppcs ?n ! s) (sent ?n ! s) (\<lambda>p. got ?n ! p)" using inv by (simp add: many_inv_def)
  obtain x where x: "prod_at (mem ?n) p = Inr x" "p_stream x = s" using cells_ofD [OF s(2)] by blast
  then have idx: "p_idx (the (prods (mem ?n) ! p)) = p_idx x" by (auto simp: prod_at_def split: if_splits option.splits)
  show ?thesis
    using getter_moves [OF t(1) x(1)] t(2) s(1) many_waits [OF many s(2)] unfolding x(2) idx by fastforce
qed

lemma putter_waits:
  assumes inv: "many_inv s (network w)" and s: "s_lock (streams (mem (network w)) ! s) = None"
    and t: "next_call (threads w ! t) = CPut s v" "\<not> can_move t w"
  shows "\<exists>q \<in> cells_of s (mem (network w)). length (sent (network w) ! s) = length (got (network w) ! q) + 5"
    "ppcs (network w) ! s \<noteq> PUnlock"
proof -
  let ?n = "network w"
  have many: "many_ok s (cells_of s (mem ?n)) (streams (mem ?n) ! s) (\<lambda>p. p_idx (the (prods (mem ?n) ! p))) (\<lambda>p. gpcs ?n ! p)
      (ppcs ?n ! s) (sent ?n ! s) (\<lambda>p. got ?n ! p)" using inv by (simp add: many_inv_def)
  have w: "\<not> put_inside (ppcs ?n ! s)" using putter_moves [OF t(1)] t(2) by blast
  have "holds_slot (ppcs ?n ! s) = 0 \<and> s_empty (streams (mem ?n) ! s) = 0"
    using putter_moves [OF t(1)] t(2) s many_put_free [OF many] by (cases "ppcs ?n ! s"; auto)
  with many_full [OF many] show "\<exists>q \<in> cells_of s (mem ?n). length (sent ?n ! s) = length (got ?n ! q) + 5" by simp
  show "ppcs ?n ! s \<noteq> PUnlock" using w by auto
qed

section \<open>The interface of a program\<close>

text \<open>\<open>N\<close> threads call \<open>get\<close> and \<open>put\<close> on the streams \<open>T\<close>. \<open>good\<close> is an invariant of the runs whose states are all
  \<open>steady\<close>. A reader inside \<open>get\<close>, and a stream inside \<open>put\<close>, have a thread that made the call.\<close>

locale thread_program =
  fixes N :: nat and T :: "nat set" and good :: "world \<Rightarrow> bool" and steady :: "world \<Rightarrow> bool"
  assumes keeps: "good w \<Longrightarrow> steady w \<Longrightarrow> t < N \<Longrightarrow> thread_turn t w = Inr (Some w') \<Longrightarrow> good w'"
    and number: "good w \<Longrightarrow> length (threads w) = N"
    and lengths: "good w \<Longrightarrow> length (gpcs (network w)) = length (prods (mem (network w)))"
    and queues: "good w \<Longrightarrow> s \<in> T \<Longrightarrow> many_inv s (network w)"
    and owners: "good w \<Longrightarrow> s \<in> T \<Longrightarrow> owned s (network w)"
    and near: "good w \<Longrightarrow> steady w \<Longrightarrow> s \<in> T \<Longrightarrow> calm s (network w)"
    and gets: "good w \<Longrightarrow> t < N \<Longrightarrow> next_call (threads w ! t) = CGet p \<Longrightarrow> \<exists>s \<in> T. p \<in> cells_of s (mem (network w))"
    and puts: "good w \<Longrightarrow> t < N \<Longrightarrow> next_call (threads w ! t) = CPut s v \<Longrightarrow> s \<in> T"
    and reader: "good w \<Longrightarrow> s \<in> T \<Longrightarrow> p \<in> cells_of s (mem (network w)) \<Longrightarrow> gpcs (network w) ! p \<noteq> GIdle \<Longrightarrow>
      \<exists>t < N. next_call (threads w ! t) = CGet p"
    and writer: "good w \<Longrightarrow> s \<in> T \<Longrightarrow> ppcs (network w) ! s \<noteq> PIdle \<Longrightarrow> \<exists>t < N. \<exists>v. next_call (threads w ! t) = CPut s v"
begin

text \<open>The thread that holds a lock is inside its call, and moves.\<close>

lemma holder:
  assumes "good w" "s \<in> T" "s_lock (streams (mem (network w)) ! s) \<noteq> None"
  shows "\<exists>t < N. can_move t w \<and> (case next_call (threads w ! t) of
     CGet p \<Rightarrow> get_inside (gpcs (network w) ! p) | CPut j v \<Rightarrow> put_inside (ppcs (network w) ! j) | CExit \<Rightarrow> False)"
proof -
  let ?n = "network w"
  have many: "many_ok s (cells_of s (mem ?n)) (streams (mem ?n) ! s) (\<lambda>p. p_idx (the (prods (mem ?n) ! p))) (\<lambda>p. gpcs ?n ! p)
      (ppcs ?n ! s) (sent ?n ! s) (\<lambda>p. got ?n ! p)" using queues [OF assms(1,2)] by (simp add: many_inv_def)
  obtain a where a: "s_lock (streams (mem ?n) ! s) = Some a" using assms(3) by blast
  show ?thesis
  proof (cases a)
    case (Getter p)
    then have p: "p \<in> cells_of s (mem ?n)" using owners [OF assms(1,2)] a by (simp add: owned_def)
    then have inside: "get_inside (gpcs ?n ! p)" using many a Getter by (simp add: many_ok_def reader_ok_def)
    then have "gpcs ?n ! p \<noteq> GIdle" by auto
    then obtain t where t: "t < N" "next_call (threads w ! t) = CGet p" using reader [OF assms(1,2) p] by blast
    obtain x where "prod_at (mem ?n) p = Inr x" using cells_ofD [OF p] by blast
    from getter_moves [OF t(2) this] inside t show ?thesis by auto
  next
    case (Putter j)
    then have inside: "put_inside (ppcs ?n ! s)" using many owners [OF assms(1,2)] a by (simp add: many_ok_def owned_def)
    then have "ppcs ?n ! s \<noteq> PIdle" by auto
    then obtain t v where t: "t < N" "next_call (threads w ! t) = CPut s v" using writer [OF assms(1,2)] by blast
    from putter_moves [OF t(2)] inside t show ?thesis by auto
  qed
qed

lemma holder_moves: "good w \<Longrightarrow> s \<in> T \<Longrightarrow> s_lock (streams (mem (network w)) ! s) \<noteq> None \<Longrightarrow> \<exists>t < N. can_move t w"
  using holder by blast

end

end
