(* ===== verification/Streams_Signals.thy ===== *)
theory Streams_Signals
  imports Streams_Moves
begin

text \<open>
  The condition variables of \<open>hw3_pthreads/streams.c\<close> without spurious wake-ups. A thread that waits is asleep until a
  \<open>pthread_cond_signal\<close> on the notifier of its stream wakes it; a signal wakes one sleeper, whichever the system chooses, and is
  lost when there is none. \<open>get\<close> and \<open>put\<close> signal under the lock, after their body. The runs of this semantics
  are runs of theory Streams, where a waiting thread may wake up at any time, so what holds there holds here; what is to be
  shown is that no thread sleeps for ever, and that runs end.
\<close>

section \<open>Wait sets\<close>

text \<open>The stream whose notifier a thread waits on and signals: the stream it reads, or its own.\<close>

fun notifier :: "'v mem \<Rightarrow> agent \<Rightarrow> nat option" where
  "notifier m (Getter p) = map_option p_stream (prods m ! p)"
| "notifier m (Putter j) = Some j"

text \<open>\<open>pthread_cond_signal\<close> by the thread \<open>a\<close>; \<open>c\<close> is the sleeper the system chooses.\<close>

definition cond_signal :: "'v mem \<Rightarrow> agent \<Rightarrow> agent option \<Rightarrow> agent list \<Rightarrow> agent list option" where
  "cond_signal m a c zs = (let sleepers = filter (\<lambda>b. notifier m b = notifier m a) zs in
     case c of None \<Rightarrow> if sleepers = [] then Some zs else None
     | Some b \<Rightarrow> if b \<in> set sleepers then Some (removeAll b zs) else None)"

text \<open>Is the thread's turn the body under the lock; does it wait for a signal.\<close>

fun in_body :: "agent \<Rightarrow> 'v net \<Rightarrow> bool" where
  "in_body (Getter p) n = (gpcs n ! p = GBody)"
| "in_body (Putter j) n = (case ppcs n ! j of PBody v \<Rightarrow> True | _ \<Rightarrow> False)"

fun waiting :: "agent \<Rightarrow> 'v net \<Rightarrow> bool" where
  "waiting (Getter p) n = (gpcs n ! p = GWait1 \<or> gpcs n ! p = GWait2)"
| "waiting (Putter j) n = (case ppcs n ! j of PWait v \<Rightarrow> True | _ \<Rightarrow> False)"

text \<open>The wait sets after a turn of \<open>a\<close> from \<open>n\<close> to \<open>n'\<close>.\<close>

definition wait_sets :: "agent \<Rightarrow> agent option \<Rightarrow> 'v net \<Rightarrow> 'v net \<Rightarrow> agent list \<Rightarrow> agent list option" where
  "wait_sets a c n n' zs = (if in_body a n then cond_signal (mem n) a c zs
     else if c \<noteq> None then None else Some (if waiting a n' then a # zs else zs))"

section \<open>Programs with wait sets\<close>

record signalled =
  program :: world
  asleep :: "agent list"

definition caller :: "thread \<Rightarrow> agent option" where
  "caller th = (case next_call th of CGet p \<Rightarrow> Some (Getter p) | CPut s v \<Rightarrow> Some (Putter s) | CExit \<Rightarrow> None)"

text \<open>A turn of thread \<open>t\<close>; a sleeping thread has none.\<close>

definition signal_turn :: "nat \<Rightarrow> agent option \<Rightarrow> signalled \<Rightarrow> fault + signalled option" where
  "signal_turn t c z = (let w = program z in case caller (threads w ! t) of
     None \<Rightarrow> Inr None
   | Some a \<Rightarrow> if a \<in> set (asleep z) then Inr None
       else bindE (thread_turn t w) (\<lambda>r. Inr (case r of
         None \<Rightarrow> None
       | Some w' \<Rightarrow> map_option (\<lambda>zs. \<lparr>program = w', asleep = zs\<rparr>)
           (wait_sets a c (network w) (network w') (asleep z)))))"

text \<open>\<open>signal_run P k z0 z\<close>: \<open>k\<close> turns lead from \<open>z0\<close> to \<open>z\<close>, all of them from states with \<open>P\<close>.\<close>

inductive signal_run :: "(world \<Rightarrow> bool) \<Rightarrow> nat \<Rightarrow> signalled \<Rightarrow> signalled \<Rightarrow> bool" for P where
  signal_start: "signal_run P 0 z z"
| signal_step: "signal_run P k z0 z \<Longrightarrow> P (program z) \<Longrightarrow> t < length (threads (program z)) \<Longrightarrow>
    signal_turn t c z = Inr (Some z') \<Longrightarrow> signal_run P (Suc k) z0 z'"

lemma signal_turnE:
  assumes "signal_turn t c z = Inr (Some z')"
  obtains a where "caller (threads (program z) ! t) = Some a" "a \<notin> set (asleep z)"
    "thread_turn t (program z) = Inr (Some (program z'))"
    "wait_sets a c (network (program z)) (network (program z')) (asleep z) = Some (asleep z')"
  using assms by (auto simp: signal_turn_def Let_def bindE_Inr_iff split: option.splits if_splits)

text \<open>A run with signals is a run.\<close>

lemma signal_run_reach: "signal_run P k z0 z \<Longrightarrow> world_reach (program z0) (program z)"
  by (induction rule: signal_run.induct) (auto intro: world_start world_turn elim!: signal_turnE)

text \<open>An awake thread whose turn is possible has a turn here, with some choice of the sleeper.\<close>

lemma wait_sets_total: "\<exists>c zs'. wait_sets a c n n' zs = Some zs'"
proof (cases "in_body a n")
  case True
  show ?thesis
  proof (cases "filter (\<lambda>b. notifier (mem n) b = notifier (mem n) a) zs")
    case Nil
    then show ?thesis using True by (intro exI [of _ None]) (simp add: wait_sets_def cond_signal_def)
  next
    case (Cons b bs)
    then have "b \<in> set (filter (\<lambda>b. notifier (mem n) b = notifier (mem n) a) zs)" by simp
    then show ?thesis using True by (intro exI [of _ "Some b"]) (simp add: wait_sets_def cond_signal_def)
  qed
next
  case False
  then show ?thesis by (intro exI [of _ None]) (simp add: wait_sets_def)
qed

lemma awake_turn:
  assumes "can_move t (program z)" "caller (threads (program z) ! t) = Some a" "a \<notin> set (asleep z)"
  shows "\<exists>c z'. signal_turn t c z = Inr (Some z')"
proof -
  obtain w' where w': "thread_turn t (program z) = Inr (Some w')"
    using assms(1) by (auto simp: can_move_def split: sum.splits option.splits)
  obtain c zs' where "wait_sets a c (network (program z)) (network w') (asleep z) = Some zs'" using wait_sets_total by blast
  then have "signal_turn t c z = Inr (Some \<lparr>program = w', asleep = zs'\<rparr>)"
    using assms(2,3) w' by (simp add: signal_turn_def Let_def)
  then show ?thesis by blast
qed

text \<open>What a signal does to the set of sleepers.\<close>

lemma cond_signal_set:
  assumes "cond_signal m a c zs = Some zs'"
  shows "(set zs' = set zs \<and> (\<forall>b \<in> set zs. notifier m b \<noteq> notifier m a)) \<or>
    (\<exists>b \<in> set zs. notifier m b = notifier m a \<and> set zs' = set zs - {b})"
  using assms by (auto simp: cond_signal_def Let_def filter_empty_conv split: option.splits if_splits)

text \<open>The wait sets after a body and after any other turn.\<close>

lemma wait_sets_body: "in_body a n \<Longrightarrow> wait_sets a c n n' zs = cond_signal (mem n) a c zs"
  by (simp add: wait_sets_def)

lemma wait_sets_other:
  assumes "wait_sets a c n n' zs = Some zs'" "\<not> in_body a n"
  shows "zs' = (if waiting a n' then a # zs else zs)"
proof (cases "c = None")
  case True
  with assms show ?thesis unfolding wait_sets_def by (simp only: if_False simp_thms option.inject)
qed (use assms in \<open>simp only: wait_sets_def if_False if_True simp_thms option.distinct\<close>)

lemma signal_subset: "cond_signal m a c zs = Some zs' \<Longrightarrow> set zs' \<subseteq> set zs"
  using cond_signal_set by blast

lemma wait_sets_subset:
  assumes "wait_sets a c n n' zs = Some zs'"
  shows "set zs' \<subseteq> insert a (set zs)"
proof (cases "in_body a n")
  case True
  then show ?thesis using assms signal_subset wait_sets_body by fastforce
next
  case False
  show ?thesis unfolding wait_sets_other [OF assms False] by auto
qed

section \<open>Schedules\<close>

text \<open>Whose turn it is, with the sleeper a signal in it wakes; all states satisfy \<open>ok\<close>.\<close>

fun signal_play :: "(world \<Rightarrow> bool) \<Rightarrow> (nat \<times> agent option) list \<Rightarrow> signalled \<Rightarrow> signalled option" where
  "signal_play ok [] z = Some z"
| "signal_play ok ((t, c) # ts) z = (if ok (program z) \<and> t < length (threads (program z)) then
     (case signal_turn t c z of Inr (Some z1) \<Rightarrow> signal_play ok ts z1 | _ \<Rightarrow> None) else None)"

lemma signal_play_run:
  "signal_play ok ts z = Some z' \<Longrightarrow> signal_run ok k z0 z \<Longrightarrow> signal_run ok (k + length ts) z0 z'"
proof (induction ts arbitrary: z k)
  case (Cons a ts)
  then obtain t c z1 where a: "a = (t, c)" "ok (program z)" "t < length (threads (program z))" "signal_turn t c z = Inr (Some z1)"
    "signal_play ok ts z1 = Some z'" by (cases a) (auto split: if_splits sum.splits option.splits)
  from Cons.IH [OF a(5) signal_step [OF Cons.prems(2) a(2-4)]] show ?case by simp
qed simp

text \<open>The schedule in which the first of the threads \<open>ts\<close> that can take a turn does.\<close>

fun first_option :: "(nat \<times> agent option) list \<Rightarrow> signalled \<Rightarrow> signalled option" where
  "first_option [] z = None"
| "first_option ((t, c) # os) z = (if t < length (threads (program z)) then
     (case signal_turn t c z of Inr (Some z1) \<Rightarrow> Some z1 | _ \<Rightarrow> first_option os z) else first_option os z)"

definition options_of :: "signalled \<Rightarrow> nat \<Rightarrow> (nat \<times> agent option) list" where
  "options_of z t = (case caller (threads (program z) ! t) of None \<Rightarrow> []
     | Some a \<Rightarrow> if a \<in> set (asleep z) then [] else if in_body a (network (program z))
         then (t, None) # map (\<lambda>b. (t, Some b)) (asleep z) else [(t, None)])"

fun signal_first :: "(world \<Rightarrow> bool) \<Rightarrow> nat list \<Rightarrow> nat \<Rightarrow> signalled \<Rightarrow> signalled" where
  "signal_first ok ts 0 z = z"
| "signal_first ok ts (Suc k) z = (if ok (program z) then
     (case first_option (concat (map (options_of z) ts)) z of None \<Rightarrow> z | Some z1 \<Rightarrow> signal_first ok ts k z1) else z)"

lemma first_option_turn:
  "first_option os z = Some z1 \<Longrightarrow> \<exists>t c. t < length (threads (program z)) \<and> signal_turn t c z = Inr (Some z1)"
  by (induction os z rule: first_option.induct) (auto split: if_splits sum.splits option.splits)

lemma signal_first_run: "signal_run ok k z0 z \<Longrightarrow> \<exists>k'. signal_run ok k' z0 (signal_first ok ts n z)"
proof (induction n arbitrary: k z)
  case (Suc n)
  show ?case
  proof (cases "ok (program z) \<and> (\<exists>z1. first_option (concat (map (options_of z) ts)) z = Some z1)")
    case True
    then obtain z1 where z1: "first_option (concat (map (options_of z) ts)) z = Some z1" by blast
    then obtain t c where "t < length (threads (program z))" "signal_turn t c z = Inr (Some z1)" using first_option_turn by blast
    then have "signal_run ok (Suc k) z0 z1" using signal_step [OF Suc.prems] True by blast
    from Suc.IH [OF this] show ?thesis using True z1 by simp
  next
    case False
    then show ?thesis using Suc.prems by (auto split: option.splits)
  qed
qed auto

text \<open>Runs under a stronger condition are runs under a weaker one in the states they visit.\<close>

lemma signal_run_weaken:
  "signal_run ok k z0 z \<Longrightarrow> I (program z0) \<Longrightarrow> (\<And>w. I w \<Longrightarrow> ok w \<Longrightarrow> P w) \<Longrightarrow>
   (\<And>w t w'. I w \<Longrightarrow> P w \<Longrightarrow> t < length (threads w) \<Longrightarrow> thread_turn t w = Inr (Some w') \<Longrightarrow> I w') \<Longrightarrow> signal_run P k z0 z \<and> I (program z)"
proof (induction rule: signal_run.induct)
  case (signal_step k z0 z t c z')
  then have run: "signal_run P k z0 z" "I (program z)" "P (program z)" by blast+
  obtain a where "thread_turn t (program z) = Inr (Some (program z'))" using signal_step.hyps(4) by (rule signal_turnE)
  then have "I (program z')" using signal_step.prems(3) [OF run(2,3) signal_step.hyps(3)] by blast
  then show ?case using signal_run.signal_step [OF run(1,3) signal_step.hyps(3,4)] by blast
qed (auto intro: signal_run.signal_start)

end
