(* ===== verification/Streams_Wakeups.thy ===== *)
theory Streams_Wakeups
  imports Streams_Signals
begin

text \<open>
  No signal is lost on a stream with at most two readers: whenever a reader sleeps although there is a token for it, the
  other one is awake on its way to a token, and will signal. So in a program whose streams have at most two readers some
  thread that is awake can move whenever some thread could move if all of them were awake.
\<close>

section \<open>A stream\<close>

text \<open>The tests a reader with \<open>d\<close> unread tokens still has to pass will let it pass.\<close>

fun passes :: "get_pc \<Rightarrow> nat \<Rightarrow> bool" where
  "passes GTest1 d = (2 \<le> d)"
| "passes GWait1 d = (2 \<le> d)"
| "passes GTest2 d = (1 \<le> d)"
| "passes GWait2 d = (1 \<le> d)"
| "passes GBody d = (1 \<le> d)"
| "passes _ d = False"

text \<open>For readers \<open>C\<close>, of which \<open>z\<close> sleep, at \<open>g\<close> with \<open>d\<close> unread tokens.\<close>

definition heard :: "ptr set \<Rightarrow> (ptr \<Rightarrow> bool) \<Rightarrow> (ptr \<Rightarrow> get_pc) \<Rightarrow> (ptr \<Rightarrow> nat) \<Rightarrow> bool" where
  "heard C z g d \<longleftrightarrow> (\<forall>p \<in> C. z p \<longrightarrow> g p = GWait1 \<and> 1 \<le> d p \<or> g p = GWait2) \<and>
     (\<forall>p \<in> C. z p \<and> passes (g p) (d p) \<longrightarrow> (\<exists>q \<in> C. \<not> z q \<and> passes (g q) (d q)))"

definition pair :: "ptr set \<Rightarrow> bool" where
  "pair C \<longleftrightarrow> (\<forall>p \<in> C. \<forall>q \<in> C. \<forall>r \<in> C. p = q \<or> q = r \<or> p = r)"

text \<open>A signal wakes a sleeping reader, or there is none.\<close>

definition woken :: "ptr set \<Rightarrow> (ptr \<Rightarrow> bool) \<Rightarrow> (ptr \<Rightarrow> bool) \<Rightarrow> bool" where
  "woken C z z' \<longleftrightarrow> (\<forall>q \<in> C. \<not> z q \<and> \<not> z' q) \<or> (\<exists>a \<in> C. z a \<and> \<not> z' a \<and> (\<forall>q \<in> C. q \<noteq> a \<longrightarrow> z' q = z q))"

lemma heard_cong:
  assumes "heard C z g d" "\<And>p. p \<in> C \<Longrightarrow> z' p = z p \<and> g' p = g p \<and> d' p = d p"
  shows "heard C z' g' d'"
  using assms(1) unfolding heard_def by (simp add: assms(2) cong: ball_cong bex_cong)

text \<open>The reader a \<open>put\<close> wakes goes on: it slept because it had one token or none.\<close>

lemma heard_put:
  assumes "heard C z g d" "woken C z z'"
  shows "heard C z' g (\<lambda>p. d p + 1)"
proof (cases "\<forall>q \<in> C. \<not> z' q")
  case True
  then show ?thesis by (simp add: heard_def)
next
  case False
  then obtain a where a: "a \<in> C" "z a" "\<not> z' a" "\<forall>q \<in> C. q \<noteq> a \<longrightarrow> z' q = z q" using assms(2) by (auto simp: woken_def)
  then have "g a = GWait1 \<and> 1 \<le> d a \<or> g a = GWait2" using assms(1) by (simp add: heard_def)
  then have "passes (g a) (d a + 1)" by auto
  moreover have "z p" if "p \<in> C" "z' p" for p using a that by metis
  ultimately show ?thesis using assms(1) a(1,3) by (fastforce simp: heard_def)
qed

text \<open>A reader that has taken its token wakes the other one.\<close>

lemma heard_body:
  assumes "heard C z g d" "woken C z z'" "pair C" "p \<in> C" "\<not> z p"
  shows "heard C z' g' d'"
proof -
  have "\<not> z' q" if q: "q \<in> C" for q
  proof (cases "\<forall>q \<in> C. \<not> z q \<and> \<not> z' q")
    case False
    then obtain a where a: "a \<in> C" "z a" "\<not> z' a" "\<forall>q \<in> C. q \<noteq> a \<longrightarrow> z' q = z q" using assms(2) by (auto simp: woken_def)
    have "a = q \<or> q = p \<or> a = p" using assms(3) a(1) q assms(4) unfolding pair_def by blast
    then show ?thesis using a assms(4,5) by metis
  qed (use q in blast)
  then show ?thesis by (simp add: heard_def)
qed

lemma heard_get:
  assumes "heard C z g d" "\<not> z p" "passes (g p) (d p) \<Longrightarrow> passes g' (d p)"
    and "b \<Longrightarrow> g' = GWait1 \<and> d p = 1 \<or> g' = GWait2 \<and> d p = 0"
  shows "heard C (z(p := b)) (g(p := g')) d"
proof -
  have b: "b \<Longrightarrow> \<not> passes g' (d p)" using assms(4) by auto
  have "\<exists>r \<in> C. \<not> (z(p := b)) r \<and> passes ((g(p := g')) r) (d r)" if q: "q \<in> C" "(z(p := b)) q" "passes ((g(p := g')) q) (d q)" for q
  proof -
    have "q \<noteq> p" using q(2,3) b by (auto split: if_splits)
    then have "z q" "passes (g q) (d q)" using q(2,3) by simp_all
    then obtain r where r: "r \<in> C" "\<not> z r" "passes (g r) (d r)" using assms(1) q(1) by (auto simp: heard_def)
    then show ?thesis using assms(3) b by (intro bexI [of _ r]) auto
  qed
  then show ?thesis using assms(1,4) by (auto simp: heard_def)
qed

text \<open>The two tests of \<open>get\<close>, by the number of unread tokens.\<close>

lemma many_tests:
  assumes ok: "many_ok j C st i g pp snt gt" and "close C gt" and p: "p \<in> C"
  shows "get_waits1 st (i p) \<longleftrightarrow> length snt - length (gt p) = 1" "get_waits2 st (i p) \<longleftrightarrow> length snt - length (gt p) = 0"
proof -
  obtain lo where "slowest C gt lo" "s_empty st + (length snt - lo) + holds_slot pp = 5" using ok by (auto simp: many_ok_def)
  then have le: "length snt \<le> length (gt p) + 5" using slowest_bound p by blast
  have r: "length (gt p) \<le> length snt" "i p = length (gt p) mod 5" "s_put_idx st = length snt mod 5"
    using ok p by (auto simp: many_ok_def reader_ok_def ring_ok_def)
  have "get_waits1 st (i p) \<longleftrightarrow> length snt = length (gt p) + 1"
    using waits1_iff [OF r(1) le] by (simp only: get_waits1_def BUFFER_SIZE_def r(2,3))
  then show "get_waits1 st (i p) \<longleftrightarrow> length snt - length (gt p) = 1" using r(1) by auto
  show "get_waits2 st (i p) \<longleftrightarrow> length snt - length (gt p) = 0"
    using many_waits(2) [OF ok p] many_second_wait [OF ok assms(2) p] by (metis diff_is_0_eq not_le)
qed

lemma many_get_passes:
  assumes ok: "many_ok j C st i g pp snt gt" "close C gt" "p \<in> C"
    and turn: "get_turn p st (i p) (g p) = Some (st', i', g', out)" "g p \<noteq> GBody"
  shows "passes (g p) (length snt - length (gt p)) \<Longrightarrow> passes g' (length snt - length (gt p))"
    "g' = GWait1 \<or> g' = GWait2 \<Longrightarrow>
      g' = GWait1 \<and> length snt - length (gt p) = 1 \<or> g' = GWait2 \<and> length snt - length (gt p) = 0" "out = []"
proof -
  note tests = many_tests [OF ok]
  show "passes (g p) (length snt - length (gt p)) \<Longrightarrow> passes g' (length snt - length (gt p))"
    using turn tests by (cases "g p") (auto simp: get_turn_def split: if_splits)
  show "g' = GWait1 \<or> g' = GWait2 \<Longrightarrow>
      g' = GWait1 \<and> length snt - length (gt p) = 1 \<or> g' = GWait2 \<and> length snt - length (gt p) = 0"
    using turn tests by (cases "g p") (auto simp: get_turn_def split: if_splits)
  show "out = []" using turn by (cases "g p") (auto simp: get_turn_def split: if_splits)
qed

section \<open>In a running program\<close>

definition unread :: "nat \<Rightarrow> 'v net \<Rightarrow> ptr \<Rightarrow> nat" where
  "unread s n p = length (sent n ! s) - length (got n ! p)"

definition heard_on :: "nat \<Rightarrow> 'v net \<Rightarrow> agent list \<Rightarrow> bool" where
  "heard_on s n zs \<longleftrightarrow> Putter s \<notin> set zs \<and>
     heard (cells_of s (mem n)) (\<lambda>p. Getter p \<in> set zs) (\<lambda>p. gpcs n ! p) (unread s n)"

text \<open>Only readers that exist sleep.\<close>

definition sleepers_ok :: "'v net \<Rightarrow> agent list \<Rightarrow> bool" where
  "sleepers_ok n zs \<longleftrightarrow> (\<forall>q. Getter q \<in> set zs \<longrightarrow> q \<noteq> NULL \<and> q < length (prods (mem n)))"

lemma notifier_cell: "p \<noteq> NULL \<Longrightarrow> p < length (prods m) \<Longrightarrow> notifier m (Getter p) = Some s \<longleftrightarrow> p \<in> cells_of s m"
  by (auto simp: cells_of_def)

text \<open>The signal of a thread of stream \<open>s\<close> wakes one of the readers of \<open>s\<close>; the one of another stream does not.\<close>

lemma signal_woken:
  assumes "cond_signal (mem n) a c zs = Some zs'" "notifier (mem n) a = Some s" "sleepers_ok n zs" "Putter s \<notin> set zs"
  shows "woken (cells_of s (mem n)) (\<lambda>p. Getter p \<in> set zs) (\<lambda>p. Getter p \<in> set zs')"
proof -
  have cell: "notifier (mem n) (Getter q) = Some s \<longleftrightarrow> q \<in> cells_of s (mem n)" if "Getter q \<in> set zs" for q
    using assms(3) that notifier_cell unfolding sleepers_ok_def by blast
  from cond_signal_set [OF assms(1)] show ?thesis
  proof (elim disjE conjE bexE)
    assume "set zs' = set zs" "\<forall>b \<in> set zs. notifier (mem n) b \<noteq> notifier (mem n) a"
    then show ?thesis using cell assms(2) unfolding woken_def by metis
  next
    fix b assume b: "b \<in> set zs" "notifier (mem n) b = notifier (mem n) a" "set zs' = set zs - {b}"
    then obtain q where q: "b = Getter q" using assms(2,4) by (metis agent.exhaust notifier.simps(2) option.inject)
    then have "q \<in> cells_of s (mem n)" using b(1,2) cell assms(2) by metis
    then show ?thesis unfolding woken_def using b(1,3) q by blast
  qed
qed

lemma signal_other:
  assumes "cond_signal (mem n) a c zs = Some zs'" "notifier (mem n) a \<noteq> Some s" "p \<in> cells_of s (mem n)"
  shows "Getter p \<in> set zs' \<longleftrightarrow> Getter p \<in> set zs"
proof -
  have "notifier (mem n) (Getter p) = Some s" using assms(3) by (simp add: cells_of_def)
  then have "notifier (mem n) (Getter p) \<noteq> notifier (mem n) a" using assms(2) by metis
  then show ?thesis using cond_signal_set [OF assms(1)] by blast
qed

lemma wait_sets_frame:
  assumes "wait_sets a c n n' zs = Some zs'" "notifier (mem n) a \<noteq> Some s" "p \<in> cells_of s (mem n)" "a \<noteq> Getter p"
  shows "Getter p \<in> set zs' \<longleftrightarrow> Getter p \<in> set zs"
proof (cases "in_body a n")
  case True
  then show ?thesis using assms(1) signal_other [OF _ assms(2,3)] wait_sets_body by metis
next
  case False
  show ?thesis unfolding wait_sets_other [OF assms(1) False] using assms(4) by auto
qed

lemma heard_on_get:
  assumes get: "get_next p n = Inr (Some n')" "p < length (gpcs n)" and inv: "many_inv s n" "calm s n"
    and z: "heard_on s n zs" "Getter p \<notin> set zs" "sleepers_ok n zs" "wait_sets (Getter p) c n n' zs = Some zs'"
    and two: "pair (cells_of s (mem n))"
  shows "heard_on s n' zs'"
proof -
  have len: "length (gpcs n) = length (prods (mem n))" "length (got n) = length (prods (mem n))" using inv(1) by (simp_all add: many_inv_def)
  let ?C = "cells_of s (mem n)" and ?z = "\<lambda>p. Getter p \<in> set zs" and ?z' = "\<lambda>p. Getter p \<in> set zs'"
  have heard: "Putter s \<notin> set zs" "heard ?C ?z (\<lambda>p. gpcs n ! p) (unread s n)" using z(1) by (simp_all add: heard_on_def)
  have no_put: "Putter s \<notin> set zs'"
    using wait_sets_subset [OF z(4)] heard(1) by blast
  show ?thesis
  proof (rule get_next_cases [OF get len(1)])
    fix y st i pc out
    assume y: "p \<noteq> NULL" "prods (mem n) ! p = Some y"
      "get_turn p (streams (mem n) ! p_stream y) (p_idx y) (gpcs n ! p) = Some (st, i, pc, out)"
      and n': "n' = n\<lparr>mem := (mem n)\<lparr>streams := (streams (mem n))[p_stream y := st],
                        prods := (prods (mem n))[p := Some (y\<lparr>p_idx := i\<rparr>)]\<rparr>,
         gpcs := (gpcs n)[p := pc], got := (got n)[p := got n ! p @ out]\<rparr>"
    have cells: "cells_of s (mem n') = ?C" using y(2) by (simp add: n' cells_of_update)
    have pl: "p < length (prods (mem n))" "p < length (got n)" using get(2) len by simp_all
    have "heard ?C ?z' (\<lambda>p. gpcs n' ! p) (unread s n')"
    proof (cases "p \<in> ?C")
      case True
      then have src: "p_stream y = s" "notifier (mem n) (Getter p) = Some s" using y(2) by (simp_all add: cells_of_def)
      show ?thesis
      proof (cases "gpcs n ! p = GBody")
        case body: True
        then have "cond_signal (mem n) (Getter p) c zs = Some zs'" using z(4) by (simp add: wait_sets_def)
        from heard_body [OF heard(2) signal_woken [OF this src(2) z(3) heard(1)] two True] z(2) show ?thesis by simp
      next
        case False
        then have zs': "zs' = (if waiting (Getter p) n' then Getter p # zs else zs)" using wait_sets_other [OF z(4)] by simp
        have ok: "many_ok s ?C (streams (mem n) ! s) (\<lambda>p. p_idx (the (prods (mem n) ! p))) (\<lambda>p. gpcs n ! p)
            (ppcs n ! s) (sent n ! s) (\<lambda>p. got n ! p)" "close ?C (\<lambda>p. got n ! p)"
          using inv by (simp_all add: many_inv_def calm_def)
        have turn: "get_turn p (streams (mem n) ! s) (p_idx (the (prods (mem n) ! p))) (gpcs n ! p) = Some (st, i, pc, out)"
          using y(2,3) src(1) by simp
        note step = many_get_passes [OF ok True turn False]
        have pc: "gpcs n' ! p = pc" using get(2) by (simp add: n')
        have "heard ?C (?z(p := waiting (Getter p) n')) ((\<lambda>p. gpcs n ! p)(p := pc)) (unread s n)"
          by (rule heard_get [OF heard(2) z(2)]) (use step(1,2) pc in \<open>auto simp: unread_def\<close>)
        then show ?thesis
          by (rule heard_cong) (use z(2) get(2) pl(2) step(3) in \<open>auto simp: zs' n' unread_def nth_list_update\<close>)
      qed
    next
      case False
      then have other: "notifier (mem n) (Getter p) \<noteq> Some s" using notifier_cell [OF y(1) pl(1)] by simp
      show ?thesis
      proof (rule heard_cong [OF heard(2)])
        fix q assume q: "q \<in> ?C"
        then have "q \<noteq> p" using False by blast
        moreover from this have "?z' q = ?z q" using wait_sets_frame [OF z(4) other q] by simp
        ultimately show "?z' q = ?z q \<and> gpcs n' ! q = gpcs n ! q \<and> unread s n' q = unread s n q" by (simp add: n' unread_def)
      qed
    qed
    then show ?thesis using no_put by (simp add: heard_on_def cells)
  qed
qed

lemma heard_on_put:
  assumes put: "put_next j v n = Some n'" "j < length (ppcs n)" and inv: "many_inv s n"
    and z: "heard_on s n zs" "sleepers_ok n zs" "wait_sets (Putter j) c n n' zs = Some zs'"
  shows "heard_on s n' zs'"
proof -
  let ?C = "cells_of s (mem n)" and ?z = "\<lambda>p. Getter p \<in> set zs" and ?z' = "\<lambda>p. Getter p \<in> set zs'"
  have heard: "Putter s \<notin> set zs" "heard ?C ?z (\<lambda>p. gpcs n ! p) (unread s n)" using z(1) by (simp_all add: heard_on_def)
  obtain st pc ins where t: "put_turn j v (streams (mem n) ! j) (ppcs n ! j) = Some (st, pc, ins)"
    and n': "n' = n\<lparr>mem := (mem n)\<lparr>streams := (streams (mem n))[j := st]\<rparr>,
         ppcs := (ppcs n)[j := pc], sent := (sent n)[j := sent n ! j @ ins]\<rparr>"
    using put(1) by (auto simp: put_next_def split: option.splits)
  have cells: "cells_of s (mem n') = ?C" by (simp add: n' cells_of_def)
  have pc: "ppcs n' ! j = pc" "gpcs n' = gpcs n" "got n' = got n" using put(2) by (simp_all add: n')
  show ?thesis
  proof (cases "j = s")
    case True
    have len: "s < length (sent n)" using inv by (simp add: many_inv_def)
    show ?thesis
    proof (cases "\<exists>x. ppcs n ! s = PBody x")
      case body: True
      then have sig: "cond_signal (mem n) (Putter s) c zs = Some zs'" using z(3) True by (auto simp: wait_sets_def)
      have "\<exists>x. ins = [x]" using t body True by (auto simp: put_turn_def)
      then have "length (sent n' ! s) = length (sent n ! s) + 1" using True len by (auto simp: n')
      moreover have "length (got n ! p) \<le> length (sent n ! s)" if "p \<in> ?C" for p using many.taken_le [OF inv that] .
      ultimately have "unread s n' p = unread s n p + 1" if "p \<in> ?C" for p using that pc(3) by (simp add: unread_def Suc_diff_le)
      then have "heard ?C ?z' (\<lambda>p. gpcs n' ! p) (unread s n')"
        by (intro heard_cong [OF heard_put [OF heard(2) signal_woken [OF sig _ z(2) heard(1)]]]) (simp_all add: pc(2))
      then show ?thesis using heard(1) signal_subset [OF sig] by (auto simp: heard_on_def cells)
    next
      case False
      have ok: "many_ok s ?C (streams (mem n) ! s) (\<lambda>p. p_idx (the (prods (mem n) ! p))) (\<lambda>p. gpcs n ! p)
          (ppcs n ! s) (sent n ! s) (\<lambda>p. got n ! p)" using inv by (simp add: many_inv_def)
      have "\<And>x. pc \<noteq> PWait x"
        using t True False many_put_free [OF ok] by (cases "ppcs n ! s") (auto simp: put_turn_def split: if_splits)
      then have "\<not> waiting (Putter s) n'" using pc(1) True by (auto split: put_pc.splits)
      moreover have "\<not> in_body (Putter s) n" using False by (auto split: put_pc.splits)
      ultimately have "zs' = zs" using wait_sets_other [OF z(3)] True by presburger
      moreover have "ins = []" using t True False by (cases "ppcs n ! s") (auto simp: put_turn_def split: if_splits)
      ultimately show ?thesis using heard True len unfolding heard_on_def cells by (simp add: n' unread_def [abs_def])
    qed
  next
    case False
    have "?z' q = ?z q" if "q \<in> ?C" for q using wait_sets_frame [OF z(3) _ that] False by simp
    moreover have "Putter s \<notin> set zs'" using wait_sets_subset [OF z(3)] heard(1) False by blast
    moreover have "unread s n' = unread s n" using False by (simp add: n' unread_def fun_eq_iff)
    ultimately show ?thesis
      using heard_cong [OF heard(2), of ?z'] unfolding heard_on_def cells by (simp add: pc(2))
  qed
qed

lemma sleepers_ok_step:
  assumes "sleepers_ok n zs" "wait_sets a c n n' zs = Some zs'" "length (prods (mem n')) = length (prods (mem n))"
    and "\<And>p. a = Getter p \<Longrightarrow> p \<noteq> NULL \<and> p < length (prods (mem n))"
  shows "sleepers_ok n' zs'"
  unfolding sleepers_ok_def
proof (intro allI impI)
  fix q assume "Getter q \<in> set zs'"
  then have "Getter q = a \<or> Getter q \<in> set zs" using wait_sets_subset [OF assms(2)] by blast
  then show "q \<noteq> NULL \<and> q < length (prods (mem n'))"
    using assms(1,3) assms(4) [of q] by (auto simp: sleepers_ok_def)
qed

end
