(* ===== verification/Streams_Total.thy ===== *)
theory Streams_Total
  imports Streams_Wakeups
begin

text \<open>
  Programs on streams under the semantics with signals. Every turn raises a measure of the work done, in which a token moved
  counts for the turns of a call and of the wait its signal ends, so a run has at most so many turns as tokens allow; and where
  no signal is lost, a thread that could move is awake or another one can.
\<close>

section \<open>The work done\<close>

text \<open>How far a call is since the last body; going to sleep is a step, and being woken costs two.\<close>

fun get_rank :: "bool \<Rightarrow> get_pc \<Rightarrow> nat" where
  "get_rank z GUnlock = 0"
| "get_rank z GIdle = 1"
| "get_rank z GLock = 2"
| "get_rank z GTest1 = 3"
| "get_rank z GWait1 = (if z then 4 else 2)"
| "get_rank z GTest2 = 4"
| "get_rank z GWait2 = (if z then 5 else 3)"
| "get_rank z GBody = 5"

fun put_rank :: "bool \<Rightarrow> 'v put_pc \<Rightarrow> nat" where
  "put_rank z PUnlock = 0"
| "put_rank z PIdle = 1"
| "put_rank z (PSem v) = 2"
| "put_rank z (PLock v) = 3"
| "put_rank z (PTest v) = 4"
| "put_rank z (PWait v) = (if z then 5 else 3)"
| "put_rank z (PBody v) = 5"

text \<open>The tokens moved through the cells \<open>G\<close> and the streams \<open>T\<close>.\<close>

definition moved :: "ptr set \<Rightarrow> nat set \<Rightarrow> 'v net \<Rightarrow> nat" where
  "moved G T n = (\<Sum>p \<in> G. length (got n ! p)) + (\<Sum>s \<in> T. length (sent n ! s))"

definition effort :: "ptr set \<Rightarrow> nat set \<Rightarrow> 'v net \<Rightarrow> agent list \<Rightarrow> nat" where
  "effort G T n zs = 8 * moved G T n + (\<Sum>p \<in> G. get_rank (Getter p \<in> set zs) (gpcs n ! p)) +
     (\<Sum>s \<in> T. put_rank (Putter s \<in> set zs) (ppcs n ! s))"

lemma get_rank_bounds: "get_rank z g \<le> 5" "get_rank z g \<le> get_rank z' g + 2"
  by (cases g; simp)+

lemma put_rank_bounds: "put_rank z pp \<le> 5" "put_rank z pp \<le> put_rank z' pp + 2"
  by (cases pp; simp)+

lemma sum_at: "finite A \<Longrightarrow> a \<in> A \<Longrightarrow> (\<And>i. i \<in> A \<Longrightarrow> i \<noteq> a \<Longrightarrow> f i = g i) \<Longrightarrow> sum f A + g a = sum g A + (f a :: nat)"
proof -
  assume A: "finite A" "a \<in> A" and fg: "\<And>i. i \<in> A \<Longrightarrow> i \<noteq> a \<Longrightarrow> f i = g i"
  then have "sum f (A - {a}) = sum g (A - {a})" by (intro sum.cong) auto
  then show ?thesis using sum.remove [OF A, of f] sum.remove [OF A, of g] by simp
qed

lemma effort_bound:
  assumes "finite G" "finite T"
  shows "effort G T n zs \<le> 8 * moved G T n + 5 * (card G + card T)"
proof -
  have "(\<Sum>p \<in> G. get_rank (Getter p \<in> set zs) (gpcs n ! p)) \<le> (\<Sum>p \<in> G. 5)" by (intro sum_mono get_rank_bounds)
  moreover have "(\<Sum>s \<in> T. put_rank (Putter s \<in> set zs) (ppcs n ! s)) \<le> (\<Sum>s \<in> T. 5)" by (intro sum_mono put_rank_bounds)
  ultimately show ?thesis using assms by (simp add: effort_def)
qed

text \<open>Being woken.\<close>

lemma sum_but_one:
  assumes "finite A" "\<And>i. i \<in> A \<Longrightarrow> i \<noteq> a \<Longrightarrow> f i = g i" "\<And>i. f i \<le> g i + 2"
  shows "sum f A \<le> sum g A + (2 :: nat)"
proof (cases "a \<in> A")
  case True
  then show ?thesis using sum_at [OF assms(1) True, of f g] assms(2) assms(3) [of a] by simp
next
  case False
  then have "sum f A = sum g A" using assms(2) by (intro sum.cong) auto
  then show ?thesis by simp
qed

lemma effort_wake:
  assumes "finite G" "finite T" "cond_signal m a c zs = Some zs'"
  shows "effort G T n zs \<le> effort G T n zs' + 2"
proof -
  obtain b where b: "\<And>d. d \<noteq> b \<Longrightarrow> d \<in> set zs' \<longleftrightarrow> d \<in> set zs"
    using cond_signal_set [OF assms(3)] by (metis Diff_iff singletonD)
  let ?get = "\<lambda>zs. \<Sum>p \<in> G. get_rank (Getter p \<in> set zs) (gpcs n ! p)" and
    ?put = "\<lambda>zs. \<Sum>s \<in> T. put_rank (Putter s \<in> set zs) (ppcs n ! s)"
  show ?thesis
  proof (cases b)
    case (Getter q)
    have "?get zs \<le> ?get zs' + 2"
    proof (rule sum_but_one [OF assms(1), of q])
      show "get_rank z g \<le> get_rank z' g + 2" for z z' g by (rule get_rank_bounds(2))
    qed (use b Getter in simp)
    moreover have "?put zs = ?put zs'" using b Getter by simp
    ultimately show ?thesis by (simp add: effort_def)
  next
    case (Putter j)
    have "?put zs \<le> ?put zs' + 2"
    proof (rule sum_but_one [OF assms(2), of j])
      show "put_rank z pp \<le> put_rank z' pp + 2" for z z' pp by (rule put_rank_bounds(2))
    qed (use b Putter in simp)
    moreover have "?get zs = ?get zs'" using b Putter by simp
    ultimately show ?thesis by (simp add: effort_def)
  qed
qed

text \<open>A turn of a reader and a turn of a thread that puts.\<close>

lemma get_turn_rank:
  assumes "get_turn p st i g = Some (st', i', g', out)"
  shows "g \<noteq> GBody \<Longrightarrow> out = [] \<and> get_rank (g' = GWait1 \<or> g' = GWait2) g' = get_rank False g + 1"
    "g = GBody \<Longrightarrow> length out = 1 \<and> g' = GUnlock"
  using assms by (cases g; auto simp: get_turn_def split: if_splits prod.splits)+

lemma put_turn_rank:
  assumes "put_turn j v st pp = Some (st', pp', ins)"
  shows "(\<And>x. pp \<noteq> PBody x) \<Longrightarrow> ins = [] \<and> put_rank (\<exists>x. pp' = PWait x) pp' = put_rank False pp + 1"
    "pp = PBody x \<Longrightarrow> length ins = 1 \<and> pp' = PUnlock"
  using assms by (cases pp; auto simp: put_turn_def split: if_splits)+

lemma effort_get:
  assumes get: "get_next p n = Inr (Some n')" "p < length (gpcs n)" "length (gpcs n) = length (prods (mem n))"
      "length (got n) = length (prods (mem n))"
    and z: "wait_sets (Getter p) c n n' zs = Some zs'" "Getter p \<notin> set zs" and G: "finite G" "finite T" "p \<in> G"
  shows "effort G T n zs < effort G T n' zs'"
proof (rule get_next_cases [OF get(1-3)])
  fix y st i pc out
  assume turn: "get_turn p (streams (mem n) ! p_stream y) (p_idx y) (gpcs n ! p) = Some (st, i, pc, out)"
    and n': "n' = n\<lparr>mem := (mem n)\<lparr>streams := (streams (mem n))[p_stream y := st],
                      prods := (prods (mem n))[p := Some (y\<lparr>p_idx := i\<rparr>)]\<rparr>,
       gpcs := (gpcs n)[p := pc], got := (got n)[p := got n ! p @ out]\<rparr>"
  have at: "gpcs n' ! p = pc" "got n' ! p = got n ! p @ out" "sent n' = sent n" "ppcs n' = ppcs n"
    "\<And>q. q \<noteq> p \<Longrightarrow> gpcs n' ! q = gpcs n ! q \<and> got n' ! q = got n ! q" using get(2-4) by (simp_all add: n')
  have "(\<Sum>q \<in> G. length (got n' ! q)) + length (got n ! p) = (\<Sum>q \<in> G. length (got n ! q)) + length (got n' ! p)"
    by (rule sum_at [OF G(1,3)]) (simp add: at(5))
  then have moved: "moved G T n' = moved G T n + length out" by (simp add: moved_def at(2,3))
  have ranks: "(\<Sum>q \<in> G. get_rank (Getter q \<in> set ws) (gpcs n' ! q)) + get_rank False (gpcs n ! p) =
      (\<Sum>q \<in> G. get_rank (Getter q \<in> set zs) (gpcs n ! q)) + get_rank (Getter p \<in> set ws) pc"
    if "\<And>d. d \<noteq> Getter p \<Longrightarrow> d \<in> set ws \<longleftrightarrow> d \<in> set zs" for ws
    using sum_at [OF G(1,3), of "\<lambda>q. get_rank (Getter q \<in> set ws) (gpcs n' ! q)" "\<lambda>q. get_rank (Getter q \<in> set zs) (gpcs n ! q)"]
      that z(2) by (simp add: at(1,5))
  show ?thesis
  proof (cases "gpcs n ! p = GBody")
    case True
    then have sig: "cond_signal (mem n) (Getter p) c zs = Some zs'" using z(1) wait_sets_body [of "Getter p" n] by simp
    have "effort G T n zs + 3 \<le> effort G T n' zs"
      using ranks [of zs] moved get_turn_rank(2) [OF turn True] True by (simp add: effort_def at(4) z(2))
    then show ?thesis using effort_wake [OF G(1,2) sig, of n'] by linarith
  next
    case False
    then have zs': "zs' = (if pc = GWait1 \<or> pc = GWait2 then Getter p # zs else zs)"
      using wait_sets_other [OF z(1)] at(1) by simp
    then have "Getter p \<in> set zs' \<longleftrightarrow> pc = GWait1 \<or> pc = GWait2" "\<And>d. d \<noteq> Getter p \<Longrightarrow> d \<in> set zs' \<longleftrightarrow> d \<in> set zs"
      using z(2) by auto
    then show ?thesis
      using ranks [of zs'] moved get_turn_rank(1) [OF turn False] by (simp add: effort_def at(4))
  qed
qed

lemma effort_put:
  assumes put: "put_next j v n = Some n'" "j < length (ppcs n)" "j < length (sent n)"
    and z: "wait_sets (Putter j) c n n' zs = Some zs'" "Putter j \<notin> set zs" and G: "finite G" "finite T" "j \<in> T"
  shows "effort G T n zs < effort G T n' zs'"
proof -
  obtain st pc ins where turn: "put_turn j v (streams (mem n) ! j) (ppcs n ! j) = Some (st, pc, ins)"
    and n': "n' = n\<lparr>mem := (mem n)\<lparr>streams := (streams (mem n))[j := st]\<rparr>,
         ppcs := (ppcs n)[j := pc], sent := (sent n)[j := sent n ! j @ ins]\<rparr>"
    using put(1) by (auto simp: put_next_def split: option.splits)
  have at: "ppcs n' ! j = pc" "sent n' ! j = sent n ! j @ ins" "got n' = got n" "gpcs n' = gpcs n"
    "\<And>s. s \<noteq> j \<Longrightarrow> ppcs n' ! s = ppcs n ! s \<and> sent n' ! s = sent n ! s" using put(2,3) by (simp_all add: n')
  have "(\<Sum>s \<in> T. length (sent n' ! s)) + length (sent n ! j) = (\<Sum>s \<in> T. length (sent n ! s)) + length (sent n' ! j)"
    by (rule sum_at [OF G(2,3)]) (simp add: at(5))
  then have moved: "moved G T n' = moved G T n + length ins" by (simp add: moved_def at(2,3))
  have ranks: "(\<Sum>s \<in> T. put_rank (Putter s \<in> set ws) (ppcs n' ! s)) + put_rank False (ppcs n ! j) =
      (\<Sum>s \<in> T. put_rank (Putter s \<in> set zs) (ppcs n ! s)) + put_rank (Putter j \<in> set ws) pc"
    if "\<And>d. d \<noteq> Putter j \<Longrightarrow> d \<in> set ws \<longleftrightarrow> d \<in> set zs" for ws
    using sum_at [OF G(2,3), of "\<lambda>s. put_rank (Putter s \<in> set ws) (ppcs n' ! s)" "\<lambda>s. put_rank (Putter s \<in> set zs) (ppcs n ! s)"]
      that z(2) by (simp add: at(1,5))
  show ?thesis
  proof (cases "\<exists>x. ppcs n ! j = PBody x")
    case True
    then obtain x where x: "ppcs n ! j = PBody x" by blast
    then have sig: "cond_signal (mem n) (Putter j) c zs = Some zs'" using z(1) wait_sets_body [of "Putter j" n] by simp
    have "effort G T n zs + 3 \<le> effort G T n' zs"
      using ranks [of zs] moved put_turn_rank(2) [OF turn x] x by (simp add: effort_def at(4) z(2))
    then show ?thesis using effort_wake [OF G(1,2) sig, of n'] by linarith
  next
    case False
    then have body: "\<not> in_body (Putter j) n" by (auto split: put_pc.splits)
    have "waiting (Putter j) n' \<longleftrightarrow> (\<exists>x. pc = PWait x)" using at(1) by (auto split: put_pc.splits)
    then have "zs' = (if \<exists>x. pc = PWait x then Putter j # zs else zs)" using wait_sets_other [OF z(1) body] by presburger
    then have "Putter j \<in> set zs' \<longleftrightarrow> (\<exists>x. pc = PWait x)" "\<And>d. d \<noteq> Putter j \<Longrightarrow> d \<in> set zs' \<longleftrightarrow> d \<in> set zs"
      using z(2) by auto
    then show ?thesis
      using ranks [of zs'] moved put_turn_rank(1) [OF turn] False by (simp add: effort_def at(4))
  qed
qed

section \<open>Programs\<close>

text \<open>No signal was lost on the streams \<open>T\<close>.\<close>

definition attentive :: "nat set \<Rightarrow> signalled \<Rightarrow> bool" where
  "attentive T z \<longleftrightarrow> sleepers_ok (network (program z)) (asleep z) \<and> (\<forall>s \<in> T. heard_on s (network (program z)) (asleep z))"

lemma attentive_start: "asleep z = [] \<Longrightarrow> attentive T z"
  by (simp add: attentive_def sleepers_ok_def heard_on_def heard_def)

lemma get_next_prods: "get_next p n = Inr (Some n') \<Longrightarrow> length (prods (mem n')) = length (prods (mem n))"
  by (auto simp: get_next_def bindE_Inr_iff split: option.splits)

lemma put_next_prods: "put_next j v n = Some n' \<Longrightarrow> length (prods (mem n')) = length (prods (mem n))"
  by (auto simp: put_next_def split: option.splits)

context thread_program begin

text \<open>The two kinds of a turn.\<close>

lemma signal_turn_cases:
  assumes "good (program z)" "t < N" "signal_turn t c z = Inr (Some z')"
  obtains (get) p s where "s \<in> T" "p \<in> cells_of s (mem (network (program z)))"
      "get_next p (network (program z)) = Inr (Some (network (program z')))" "Getter p \<notin> set (asleep z)"
      "wait_sets (Getter p) c (network (program z)) (network (program z')) (asleep z) = Some (asleep z')"
  | (put) s v where "s \<in> T" "put_next s v (network (program z)) = Some (network (program z'))" "Putter s \<notin> set (asleep z)"
      "wait_sets (Putter s) c (network (program z)) (network (program z')) (asleep z) = Some (asleep z')"
  using assms(3)
proof (rule signal_turnE)
  fix a assume a: "caller (threads (program z) ! t) = Some a" "a \<notin> set (asleep z)"
    "thread_turn t (program z) = Inr (Some (program z'))"
    "wait_sets a c (network (program z)) (network (program z')) (asleep z) = Some (asleep z')"
  from a(3) show thesis
  proof (cases rule: thread_turn_cases)
    case (get p n1)
    then show ?thesis using that(1) gets [OF assms(1,2) get(1)] a(1,2,4) by (auto simp: caller_def)
  next
    case (put s v n1)
    then show ?thesis using that(2) puts [OF assms(1,2) put(1)] a(1,2,4) by (auto simp: caller_def)
  qed
qed

lemma run_good:
  assumes "signal_run steady k z0 z" "good (program z0)"
  shows "good (program z)"
  using assms
proof (induction rule: signal_run.induct)
  case (signal_step k z0 z t c z')
  then have "good (program z)" "t < N" using number by auto
  then show ?case using keeps signal_step.hyps(2,4) by (blast elim: signal_turnE)
qed

text \<open>A run has no more turns than the work it does.\<close>

lemma run_effort:
  assumes "signal_run steady k z0 z" "good (program z0)" "finite G" "finite T"
    and "\<And>w s. good w \<Longrightarrow> s \<in> T \<Longrightarrow> cells_of s (mem (network w)) \<subseteq> G"
  shows "effort G T (network (program z0)) (asleep z0) + k \<le> effort G T (network (program z)) (asleep z)"
  using assms(1,2)
proof (induction rule: signal_run.induct)
  case (signal_step k z0 z t c z')
  let ?n = "network (program z)"
  have good: "good (program z)" by (rule run_good [OF signal_step.hyps(1) signal_step.prems])
  then have t: "t < N" using signal_step.hyps(3) number by simp
  from good t signal_step.hyps(4) have "effort G T ?n (asleep z) < effort G T (network (program z')) (asleep z')"
  proof (cases rule: signal_turn_cases)
    case (get p s)
    have len: "p < length (gpcs ?n)" "length (gpcs ?n) = length (prods (mem ?n))" "length (got ?n) = length (prods (mem ?n))"
      using get(2) queues [OF good get(1)] by (simp_all add: many_inv_def cells_of_def)
    have "p \<in> G" using get(2) assms(5) [OF good get(1)] by blast
    then show ?thesis using effort_get [OF get(3) len get(5,4) assms(3,4)] by simp
  next
    case (put s v)
    have "s < length (ppcs ?n)" "s < length (sent ?n)" using queues [OF good put(1)] by (simp_all add: many_inv_def)
    then show ?thesis using effort_put [OF put(2) _ _ put(4,3) assms(3,4) put(1)] by simp
  qed
  then show ?case using signal_step by linarith
qed simp

end

section \<open>At most two readers\<close>

locale pair_program = thread_program +
  assumes pairs: "good w \<Longrightarrow> s \<in> T \<Longrightarrow> pair (cells_of s (mem (network w)))"
begin

lemma attentive_turn:
  assumes "good (program z)" "steady (program z)" "attentive T z" "t < N" "signal_turn t c z = Inr (Some z')"
  shows "attentive T z'"
proof -
  let ?n = "network (program z)" and ?n' = "network (program z')"
  have ok: "sleepers_ok ?n (asleep z)" "\<And>s. s \<in> T \<Longrightarrow> heard_on s ?n (asleep z)" using assms(3) by (simp_all add: attentive_def)
  from assms(1,4,5) show ?thesis
  proof (cases rule: signal_turn_cases)
    case (get p s)
    have p: "p < length (gpcs ?n)" "p \<noteq> NULL" "p < length (prods (mem ?n))"
      using get(2) queues [OF assms(1) get(1)] by (simp_all add: many_inv_def cells_of_def)
    have "heard_on r ?n' (asleep z')" if "r \<in> T" for r
      using heard_on_get [OF get(3) p(1) queues [OF assms(1) that] near [OF assms(1,2) that] ok(2) [OF that] get(4) ok(1) get(5)
          pairs [OF assms(1) that]] .
    moreover have "sleepers_ok ?n' (asleep z')" using sleepers_ok_step [OF ok(1) get(5) get_next_prods [OF get(3)]] p(2,3) by simp
    ultimately show ?thesis by (simp add: attentive_def)
  next
    case (put s v)
    have s: "s < length (ppcs ?n)" using queues [OF assms(1) put(1)] by (simp add: many_inv_def)
    have "heard_on r ?n' (asleep z')" if "r \<in> T" for r
      using heard_on_put [OF put(2) s queues [OF assms(1) that] ok(2) [OF that] ok(1) put(4)] .
    moreover have "sleepers_ok ?n' (asleep z')" using sleepers_ok_step [OF ok(1) put(4) put_next_prods [OF put(2)]] by simp
    ultimately show ?thesis by (simp add: attentive_def)
  qed
qed

lemma run_attentive:
  assumes "signal_run steady k z0 z" "good (program z0)" "attentive T z0"
  shows "attentive T z"
  using assms
proof (induction rule: signal_run.induct)
  case (signal_step k z0 z t c z')
  have good: "good (program z)" by (rule run_good [OF signal_step.hyps(1) signal_step.prems(1)])
  then have "t < N" using signal_step.hyps(3) number by simp
  then show ?case using attentive_turn [OF good signal_step.hyps(2) _ _ signal_step.hyps(4)] signal_step by blast
qed

text \<open>If some thread could move, some thread that is awake can.\<close>

lemma awake_moves:
  assumes good: "good (program z)" and steady: "steady (program z)" and att: "attentive T z" and t: "t < N" "can_move t (program z)"
  shows "\<exists>t < N. \<exists>c z'. signal_turn t c z = Inr (Some z')"
proof -
  let ?w = "program z" and ?n = "network (program z)" and ?zs = "asleep z"
  have heard: "\<And>s. s \<in> T \<Longrightarrow> heard_on s ?n ?zs" using att by (simp add: attentive_def)
  have awake: ?thesis if "u < N" "can_move u ?w" "caller (threads ?w ! u) = Some a" "a \<notin> set ?zs" for u a
    using awake_turn [OF that(2-4)] that(1) by blast
  have sleeper: "gpcs ?n ! r = GWait1 \<and> 1 \<le> unread s ?n r \<or> gpcs ?n ! r = GWait2"
    if "s \<in> T" "r \<in> cells_of s (mem ?n)" "Getter r \<in> set ?zs" for r s
    using heard [OF that(1)] that(2,3) by (simp add: heard_on_def heard_def)
  show ?thesis
  proof (cases "next_call (threads ?w ! t)")
    case (CPut s v)
    then show ?thesis using awake [OF t] heard [OF puts [OF good t(1) CPut]] by (simp add: caller_def heard_on_def)
  next
    case CExit
    then have False using t(2) by (simp add: can_move_def thread_turn_def Let_def)
    then show ?thesis ..
  next
    case (CGet p)
    obtain s where s: "s \<in> T" "p \<in> cells_of s (mem ?n)" using gets [OF good t(1) CGet] by blast
    show ?thesis
    proof (cases "Getter p \<in> set ?zs")
      case False
      then show ?thesis using awake [OF t] CGet by (simp add: caller_def)
    next
      case True
      have ok: "many_ok s (cells_of s (mem ?n)) (streams (mem ?n) ! s) (\<lambda>p. p_idx (the (prods (mem ?n) ! p))) (\<lambda>p. gpcs ?n ! p)
          (ppcs ?n ! s) (sent ?n ! s) (\<lambda>p. got ?n ! p)" "close (cells_of s (mem ?n)) (\<lambda>p. got ?n ! p)"
        using queues [OF good s(1)] near [OF good steady s(1)] by (simp_all add: many_inv_def calm_def)
      note tests = many_tests [OF ok, folded unread_def]
      obtain x where x: "prods (mem ?n) ! p = Some x" "p_stream x = s" using s(2) by (auto simp: cells_of_def)
      have "\<not> in_vain ?n (threads ?w ! t)" using t(2) by (simp add: can_move_def)
      then have "passes (gpcs ?n ! p) (unread s ?n p)"
        using sleeper [OF s True] CGet x tests [OF s(2)] by (auto simp: in_vain_def)
      then obtain q where q: "q \<in> cells_of s (mem ?n)" "Getter q \<notin> set ?zs" "passes (gpcs ?n ! q) (unread s ?n q)"
        using heard [OF s(1)] s(2) True unfolding heard_on_def heard_def by blast
      have "gpcs ?n ! q \<noteq> GIdle" using q(3) by auto
      then obtain u where u: "u < N" "next_call (threads ?w ! u) = CGet q" using reader [OF good s(1) q(1)] by blast
      show ?thesis
      proof (cases "s_lock (streams (mem ?n) ! s) = None")
        case free: True
        obtain y where y: "prod_at (mem ?n) q = Inr y" "p_stream y = s" using cells_ofD [OF q(1)] by blast
        then have "p_idx (the (prods (mem ?n) ! q)) = p_idx y" by (auto simp: prod_at_def split: if_splits option.splits)
        then have "can_move u ?w"
          using getter_moves [OF u(2) y(1)] free q(3) tests [OF q(1)] y(2) by (cases "gpcs ?n ! q") auto
        then show ?thesis using awake [OF u(1)] u(2) q(2) by (simp add: caller_def)
      next
        case False
        then obtain h where h: "h < N" "can_move h ?w" "case next_call (threads ?w ! h) of
            CGet p \<Rightarrow> get_inside (gpcs ?n ! p) | CPut j v \<Rightarrow> put_inside (ppcs ?n ! j) | CExit \<Rightarrow> False"
          using holder [OF good s(1)] by blast
        show ?thesis
        proof (cases "next_call (threads ?w ! h)")
          case (CGet r)
          obtain s' where "s' \<in> T" "r \<in> cells_of s' (mem ?n)" using gets [OF good h(1) CGet] by blast
          then have "Getter r \<notin> set ?zs" using sleeper [of s' r] h(3) CGet by auto
          then show ?thesis using awake [OF h(1,2)] CGet by (simp add: caller_def)
        next
          case (CPut j v)
          then show ?thesis using awake [OF h(1,2)] heard [OF puts [OF good h(1) CPut]] by (simp add: caller_def heard_on_def)
        qed (use h(3) in simp)
      qed
    qed
  qed
qed

end

end
