(* ===== verification/Streams_Deadlock.thy ===== *)
theory Streams_Deadlock
  imports Streams_Total
begin

text \<open>
  The threads of \<open>hw3_pthreads/main.c\<close> never block each other: as long as the \<open>times\<close> threads stay within five tokens
  of each other, some thread can move until the consumer has its ten tokens. \<open>main.c\<close> is shown to have the interface
  of a program on streams; what is left is to count tokens.
\<close>

section \<open>The five threads as a program on streams\<close>

lemma in_get_call:
  "times_ok s k p n th \<Longrightarrow> gpcs n ! p \<noteq> GIdle \<Longrightarrow> next_call th = CGet p"
  "merge_ok s p q n th \<Longrightarrow> gpcs n ! p \<noteq> GIdle \<Longrightarrow> p \<noteq> q \<Longrightarrow> next_call th = CGet p"
  "merge_ok s p q n th \<Longrightarrow> gpcs n ! q \<noteq> GIdle \<Longrightarrow> p \<noteq> q \<Longrightarrow> next_call th = CGet q"
  "consumer_ok s p n th \<Longrightarrow> gpcs n ! p \<noteq> GIdle \<Longrightarrow> next_call th = CGet p"
  by (cases th; auto)+

lemma in_put_call:
  "successor_ok s n th \<Longrightarrow> \<exists>v. next_call th = CPut s v"
  "times_ok s k p n th \<Longrightarrow> ppcs n ! s \<noteq> PIdle \<Longrightarrow> \<exists>v. next_call th = CPut s v"
  "merge_ok s p q n th \<Longrightarrow> ppcs n ! s \<noteq> PIdle \<Longrightarrow> \<exists>v. next_call th = CPut s v"
  by (cases th; auto)+

lemma main_in_get:
  assumes "main_threads n ths" "gpcs n ! p \<noteq> GIdle" "p \<in> cells_of s (mem n)" "s < 4" "main_shape n"
  shows "\<exists>t < 5. next_call (ths ! t) = CGet p"
proof -
  have ok: "times_ok 1 5 4 n (ths ! 1)" "times_ok 2 7 5 n (ths ! 2)" "merge_ok 3 2 3 n (ths ! 3)" "consumer_ok 4 1 n (ths ! 4)"
    using assms(1) by (simp_all add: main_threads_def)
  have "s = 0 \<or> s = 1 \<or> s = 2 \<or> s = 3" using assms(4) by auto
  then have "p = 4 \<or> p = 5 \<or> p = 2 \<or> p = 3 \<or> p = 1" using assms(3) main_cells [OF assms(5)] by auto
  then show ?thesis
  proof (elim disjE)
    assume "p = 4" then show ?thesis using in_get_call(1) [OF ok(1)] assms(2) by (intro exI [of _ 1]) simp
  next
    assume "p = 5" then show ?thesis using in_get_call(1) [OF ok(2)] assms(2) by (intro exI [of _ 2]) simp
  next
    assume "p = 2" then show ?thesis using in_get_call(2) [OF ok(3)] assms(2) by (intro exI [of _ 3]) simp
  next
    assume "p = 3" then show ?thesis using in_get_call(3) [OF ok(3)] assms(2) by (intro exI [of _ 3]) simp
  next
    assume "p = 1" then show ?thesis using in_get_call(4) [OF ok(4)] assms(2) by (intro exI [of _ 4]) simp
  qed
qed

lemma main_in_put:
  assumes "main_threads n ths" "ppcs n ! s \<noteq> PIdle" "s < 4"
  shows "\<exists>v. next_call (ths ! s) = CPut s v"
proof -
  have ok: "successor_ok 0 n (ths ! 0)" "times_ok 1 5 4 n (ths ! 1)" "times_ok 2 7 5 n (ths ! 2)" "merge_ok 3 2 3 n (ths ! 3)"
    using assms(1) by (simp_all add: main_threads_def)
  have "s = 0 \<or> s = 1 \<or> s = 2 \<or> s = 3" using assms(3) by auto
  then show ?thesis
    using in_put_call(1) [OF ok(1)] in_put_call(2) [OF ok(2)] in_put_call(2) [OF ok(3)] in_put_call(3) [OF ok(4)] assms(2)
    by (elim disjE) simp_all
qed

lemma main_many: "main_inv w \<Longrightarrow> s < 4 \<Longrightarrow> many_inv s (network w)"
proof -
  assume "main_inv w" "s < 4"
  moreover from this(2) have "s = 0 \<or> s = 1 \<or> s = 2 \<or> s = 3" by auto
  ultimately show ?thesis by (auto simp: main_inv_def)
qed

definition main_good :: "world \<Rightarrow> bool" where
  "main_good w \<longleftrightarrow> main_inv w \<and> (\<forall>s < 4. owned s (network w))"

lemma main_goodD:
  assumes "main_good w"
  shows "main_inv w" "main_shape (network w)" "main_threads (network w) (threads w)" "s < 4 \<Longrightarrow> owned s (network w)"
  using assms by (simp_all add: main_good_def main_inv_def)

lemma main_good_turn:
  assumes "main_good w" "calm 0 (network w)" "t < 5" "thread_turn t w = Inr (Some w')"
  shows "main_good w'"
proof -
  note inv = main_goodD [OF assms(1)]
  have t: "t < length (threads w)" using inv(3) assms(3) by (simp add: main_threads_def)
  have "owned s (network w')" if "s < 4" for s
    using assms(4)
  proof (cases rule: thread_turn_cases)
    case (get p n1)
    have "p < length (gpcs (network w))" using main_get [OF inv(2,3) assms(3) get(1,2,4)] by blast
    then show ?thesis using owned_get [OF get(2) _ _ inv(4) [OF that]] get(3) inv(2) by (simp add: main_shape_def)
  next
    case (put s v n1)
    show ?thesis using owned_put [OF put(2) inv(4) [OF that]] put(3) by simp
  qed
  then show ?thesis using main_inv_turn [OF assms(4) t assms(2) inv(1)] by (simp add: main_good_def)
qed

lemma main_good_reach: "steady_reach w0 w \<Longrightarrow> main_good w0 \<Longrightarrow> main_good w"
proof (induction rule: steady_reach.induct)
  case (steady_turn w0 w t w')
  then have good: "main_good w" by blast
  then have "length (threads w) = 5" using main_goodD(3) by (simp add: main_threads_def)
  with main_good_turn [OF good steady_turn.hyps(2) _ steady_turn.hyps(4)] steady_turn.hyps(3) show ?case by simp
qed

lemma main_gets:
  assumes "main_good w" "t < 5" "next_call (threads w ! t) = CGet p"
  shows "\<exists>s \<in> {..<4}. p \<in> cells_of s (mem (network w))"
proof -
  note inv = main_goodD [OF assms(1)]
  note cells = main_cells [OF inv(2)]
  have ok: "successor_ok 0 (network w) (threads w ! 0)" "times_ok 1 5 4 (network w) (threads w ! 1)"
    "times_ok 2 7 5 (network w) (threads w ! 2)" "merge_ok 3 2 3 (network w) (threads w ! 3)" "consumer_ok 4 1 (network w) (threads w ! 4)"
    using inv(3) by (simp_all add: main_threads_def)
  have "t = 0 \<or> t = 1 \<or> t = 2 \<or> t = 3 \<or> t = 4" using assms(2) by auto
  then have "p \<in> {1, 2, 3, 4, 5}"
    using assms(3) by (elim disjE; use ok in \<open>cases "threads w ! t"; auto\<close>)
  then show ?thesis
  proof (elim insertE emptyE)
    assume "p = 1" then show ?thesis by (intro bexI [of _ 3]) (simp_all add: cells)
  next
    assume "p = 2" then show ?thesis by (intro bexI [of _ 1]) (simp_all add: cells del: One_nat_def)
  next
    assume "p = 3" then show ?thesis by (intro bexI [of _ 2]) (simp_all add: cells)
  next
    assume "p = 4" then show ?thesis by (intro bexI [of _ 0]) (simp_all add: cells)
  next
    assume "p = 5" then show ?thesis by (intro bexI [of _ 0]) (simp_all add: cells)
  qed
qed

lemma main_puts:
  assumes "main_good w" "t < 5" "next_call (threads w ! t) = CPut s v"
  shows "s < 4"
proof -
  have ok: "successor_ok 0 (network w) (threads w ! 0)" "times_ok 1 5 4 (network w) (threads w ! 1)"
    "times_ok 2 7 5 (network w) (threads w ! 2)" "merge_ok 3 2 3 (network w) (threads w ! 3)" "consumer_ok 4 1 (network w) (threads w ! 4)"
    using main_goodD(3) [OF assms(1)] by (simp_all add: main_threads_def)
  have "t = 0 \<or> t = 1 \<or> t = 2 \<or> t = 3 \<or> t = 4" using assms(2) by auto
  then show ?thesis using assms(3) by (elim disjE; use ok in \<open>cases "threads w ! t"; auto\<close>)
qed

interpretation mp: pair_program 5 "{..<4}" main_good "\<lambda>w. calm 0 (network w)"
proof
  fix w assume good: "main_good w"
  note inv = main_goodD [OF this]
  show "length (threads w) = 5" using inv(3) by (simp add: main_threads_def)
  show "length (gpcs (network w)) = length (prods (mem (network w)))" using inv(2) by (simp add: main_shape_def)
  show "pair (cells_of s (mem (network w)))" if "s \<in> {..<4}" for s
  proof -
    have "s = 0 \<or> s = 1 \<or> s = 2 \<or> s = 3" using that by auto
    then show ?thesis using main_cells [OF inv(2)] by (auto simp: pair_def)
  qed
  show "calm s (network w)" if "calm 0 (network w)" "s \<in> {..<4}" for s
  proof -
    have "s = 0 \<or> s = 1 \<or> s = 2 \<or> s = 3" using that(2) by auto
    then show ?thesis using that(1) main_cells(2-4) [OF inv(2)] calm_single by blast
  qed
  show "\<exists>t < 5. next_call (threads w ! t) = CGet p"
    if "s \<in> {..<4}" "p \<in> cells_of s (mem (network w))" "gpcs (network w) ! p \<noteq> GIdle" for s p
    using main_in_get [OF inv(3) that(3,2) _ inv(2)] that(1) by simp
  show "\<exists>t < 5. \<exists>v. next_call (threads w ! t) = CPut s v" if "s \<in> {..<4}" "ppcs (network w) ! s \<noteq> PIdle" for s
  proof -
    have "s < 4" using that(1) by simp
    from main_in_put [OF inv(3) that(2) this] this show ?thesis by (intro exI [of _ s]) simp
  qed
qed (use main_good_turn main_many main_goodD main_gets main_puts in simp_all)

section \<open>Counting what \<open>merge\<close> has put\<close>

lemma merge_out_tail_second: "\<forall>b \<in> set ys. b < B \<Longrightarrow> length (merge_out [B] (ys @ [B])) = length ys + 1"
  by (induction ys) auto

lemma merge_out_tail_first: "\<forall>a \<in> set xs. a < B \<Longrightarrow> length (merge_out (xs @ [B]) [B]) = length xs + 1"
  by (induction xs) auto

lemma merge_out_all:
  "\<forall>x \<in> set xs \<union> set ys. x < B \<Longrightarrow> length (merge_out (xs @ [B]) (ys @ [B])) = length xs + length ys + 1"
  by (induction xs ys rule: merge_out.induct) (auto simp: merge_out_tail_second merge_out_tail_first)

lemma above_all: "\<exists>B. \<forall>x \<in> set xs. x < (B :: int)"
proof (induction xs)
  case (Cons y ys)
  then obtain B where "\<forall>x \<in> set ys. x < B" by blast
  then have "\<forall>x \<in> set (y # ys). x < max B (y + 1)" by auto
  then show ?case ..
qed simp

text \<open>Every token that came in was put or is held.\<close>

lemma flow_count:
  assumes "flow R1 R2 ha hb out"
  shows "length R1 + length R2 = length out + length ha + length hb"
proof -
  obtain B where B: "\<forall>x \<in> set (R1 @ R2 @ ha @ hb). x < B" using above_all by blast
  have "merge_out (R1 @ [B]) (R2 @ [B]) = out @ merge_out (ha @ [B]) (hb @ [B])" using assms by (simp add: flow_def)
  then have "length (merge_out (R1 @ [B]) (R2 @ [B])) = length out + length (merge_out (ha @ [B]) (hb @ [B]))" by simp
  moreover have "length (merge_out (R1 @ [B]) (R2 @ [B])) = length R1 + length R2 + 1"
    "length (merge_out (ha @ [B]) (hb @ [B])) = length ha + length hb + 1" using merge_out_all [of R1 R2 B] merge_out_all [of ha hb B] B by (simp_all add: ball_Un)
  ultimately show ?thesis by linarith
qed

lemma flow_waiting: "flow R1 R2 ha hb out \<Longrightarrow> ha = [] \<or> hb = [] \<Longrightarrow> merge_out R1 R2 = out"
proof -
  assume "flow R1 R2 ha hb out" and empty: "ha = [] \<or> hb = []"
  then have "merge_out (R1 @ []) (R2 @ []) = out @ merge_out (ha @ []) (hb @ [])" unfolding flow_def by blast
  with empty show ?thesis by auto
qed

definition multiples :: "int \<Rightarrow> nat \<Rightarrow> int list" where
  "multiples k n = map (\<lambda>x. x * k) [1..int n]"

text \<open>\<open>merge\<close> cannot have read nine tokens more from one side than from the other without holding two of them.\<close>

lemma lopsided:
  assumes "a + b \<le> 13" "b + 9 \<le> a \<or> a + 9 \<le> b"
  shows "length (merge_out (multiples 5 a) (multiples 7 b)) + 1 < a + b"
proof -
  have "list_all (\<lambda>a. list_all (\<lambda>b. a + b \<le> 13 \<longrightarrow> b + 9 \<le> a \<or> a + 9 \<le> b \<longrightarrow>
      length (merge_out (multiples 5 a) (multiples 7 b)) + 1 < a + b) [0..<14]) [0..<14]" by code_simp
  moreover have "a \<in> set [0..<14]" "b \<in> set [0..<14]" using assms(1) by simp_all
  ultimately show ?thesis using assms unfolding list_all_iff by blast
qed

lemma prefix_multiples:
  assumes "prefix xs (map (\<lambda>x. x * k) ys)" "prefix ys [1..m]"
  shows "xs = multiples k (length xs)"
proof -
  have xs: "prefix xs (map (\<lambda>x. x * k) [1..m])"
    using assms by (meson map_mono_prefix prefix_order.trans)
  then have len: "length xs \<le> nat m" using prefix_length_le by fastforce
  have "xs = take (length xs) (map (\<lambda>x. x * k) [1..m])" using xs by (metis append_eq_conv_conj prefixE)
  also have "\<dots> = map (\<lambda>x. x * k) (take (length xs) [1..m])" by (simp add: take_map)
  also have "take (length xs) [1..m] = [1..int (length xs)]"
  proof (cases "length xs = 0")
    case False
    then have "int (length xs) \<le> m" using len by (cases "0 \<le> m") auto
    then obtain zs where "[1..m] = [1..int (length xs)] @ zs" using upto_prefix prefixE by metis
    then show ?thesis by simp
  qed simp
  finally show ?thesis by (simp add: multiples_def)
qed

section \<open>No deadlock\<close>

lemma main_got_multiples:
  assumes "main_inv w"
  shows "got (network w) ! 2 = multiples 5 (length (got (network w) ! 2))"
    "got (network w) ! 3 = multiples 7 (length (got (network w) ! 3))"
proof -
  let ?n = "network w"
  have inv: "main_shape ?n" "main_threads ?n (threads w)" "many_inv 0 ?n" "many_inv 1 ?n" "many_inv 2 ?n"
    using assms by (simp_all add: main_inv_def)
  have ok: "successor_ok 0 ?n (threads w ! 0)" "times_ok 1 5 4 ?n (threads w ! 1)" "times_ok 2 7 5 ?n (threads w ! 2)"
    using inv(2) by (simp_all add: main_threads_def)
  note cells = main_cells [OF inv(1)]
  have "4 \<in> cells_of 0 (mem ?n)" "5 \<in> cells_of 0 (mem ?n)" "2 \<in> cells_of 1 (mem ?n)" "3 \<in> cells_of 2 (mem ?n)"
    unfolding cells by simp_all
  note pre = many.fifo [OF inv(3) this(1)] many.fifo [OF inv(3) this(2)] many.fifo [OF inv(4) this(3)]
    many.fifo [OF inv(5) this(4)]
  obtain m where m: "sent ?n ! 0 = [1..m]" using successor_sent [OF ok(1)] by blast
  show "got ?n ! 2 = multiples 5 (length (got ?n ! 2))"
    by (rule prefix_multiples [OF prefix_order.trans [OF pre(3) times_sent [OF ok(2)]] pre(1) [unfolded m]])
  show "got ?n ! 3 = multiples 7 (length (got ?n ! 3))"
    by (rule prefix_multiples [OF prefix_order.trans [OF pre(4) times_sent [OF ok(3)]] pre(2) [unfolded m]])
qed

text \<open>A \<open>times\<close> thread that cannot move has either read everything or filled its own stream.\<close>

lemma times_waits:
  assumes inv: "main_inv w" and ok: "times_ok s k p (network w) (threads w ! t)" "\<not> can_move t w"
    and s: "s < 4" "s_lock (streams (mem (network w)) ! s) = None" "cells_of s (mem (network w)) = {q}"
    and p: "p \<in> cells_of 0 (mem (network w))" "s_lock (streams (mem (network w)) ! 0) = None"
  shows "length (sent (network w) ! 0) \<le> length (got (network w) ! p) + 1 \<and>
       length (sent (network w) ! s) = length (got (network w) ! p) \<or>
     length (sent (network w) ! s) = length (got (network w) ! q) + 5 \<and>
       length (got (network w) ! p) = length (sent (network w) ! s) + 1"
proof (cases "threads w ! t")
  case (TimesGet s' k' p')
  then have call: "next_call (threads w ! t) = CGet p" using ok(1) by simp
  have "length (sent (network w) ! 0) \<le> length (got (network w) ! p) + 1 \<and> gpcs (network w) ! p \<noteq> GUnlock"
    by (rule getter_waits [OF main_many [OF inv] p(2,1) call ok(2)]) simp
  then show ?thesis using TimesGet ok(1) by auto
next
  case (TimesPut s' k' p' x)
  then have call: "next_call (threads w ! t) = CPut s (x * k)" using ok(1) by simp
  note full = putter_waits [OF main_many [OF inv s(1)] s(2) call ok(2)]
  have "length (entered (ppcs (network w) ! s) (sent (network w) ! s) @ [x * k]) = length (got (network w) ! p)"
    using TimesPut ok(1) by (metis length_map times_ok.simps(2))
  moreover have "entered (ppcs (network w) ! s) (sent (network w) ! s) = sent (network w) ! s"
    using full(2) by (cases "ppcs (network w) ! s") simp_all
  ultimately show ?thesis using full(1) s(3) by simp
qed (use ok(1) in simp_all)

text \<open>A \<open>merge\<close> that cannot move while its stream has room waits for one of its sides, and holds at most one token.\<close>

lemma merge_waits:
  assumes inv: "main_inv w" and ok: "merge_ok 3 2 3 (network w) (threads w ! 3)" "\<not> can_move 3 w"
    and free: "\<And>s. s < 4 \<Longrightarrow> s_lock (streams (mem (network w)) ! s) = None"
    and room: "length (sent (network w) ! 3) < length (got (network w) ! 1) + 5"
  shows "(length (sent (network w) ! 1) \<le> length (got (network w) ! 2) + 1 \<or>
      length (sent (network w) ! 2) \<le> length (got (network w) ! 3) + 1) \<and>
    merge_out (got (network w) ! 2) (got (network w) ! 3) = sent (network w) ! 3 \<and>
    length (got (network w) ! 2) + length (got (network w) ! 3) \<le> length (sent (network w) ! 3) + 1"
proof -
  let ?n = "network w"
  have shape: "main_shape ?n" using inv by (simp add: main_inv_def)
  note cells = main_cells [OF shape]
  have first: "length (sent ?n ! 1) \<le> length (got ?n ! 2) + 1 \<and> gpcs ?n ! 2 \<noteq> GUnlock" if "next_call (threads w ! 3) = CGet 2"
    by (rule getter_waits [OF main_many [OF inv] free _ that ok(2)]) (simp_all add: cells del: One_nat_def)
  have second: "length (sent ?n ! 2) \<le> length (got ?n ! 3) + 1 \<and> gpcs ?n ! 3 \<noteq> GUnlock" if "next_call (threads w ! 3) = CGet 3"
    by (rule getter_waits [OF main_many [OF inv] free _ that ok(2)]) (simp_all add: cells del: One_nat_def)
  have fl: "merge_out R1 R2 = out \<and> length R1 + length R2 \<le> length out + 1"
    if "flow R1 R2 ha hb out" "length ha + length hb \<le> 1" for R1 R2 ha hb out
    using flow_waiting [OF that(1)] flow_count [OF that(1)] that(2) by (cases ha; cases hb) auto
  show ?thesis
  proof (cases "threads w ! 3")
    case (MergeA s' p' q')
    then show ?thesis using first ok(1) fl [of "got ?n ! 2" "got ?n ! 3" "[]" "[]"] by auto
  next
    case (MergeB s' p' q' a)
    then show ?thesis using second ok(1) fl [of "got ?n ! 2" "got ?n ! 3" "[a]" "[]"] by auto
  next
    case (MergePut s' p' q' a b)
    then have call: "next_call (threads w ! 3) = CPut 3 (if a < b then a else b)" using ok(1) by simp
    from putter_waits(1) [OF main_many [OF inv] free call ok(2)] room show ?thesis by (simp add: cells)
  next
    case (MergeGetA s' p' q' b)
    then show ?thesis using first ok(1) fl [of "got ?n ! 2" "got ?n ! 3" "[]" "[b]"] by auto
  next
    case (MergeGetB s' p' q' a)
    then show ?thesis using second ok(1) fl [of "got ?n ! 2" "got ?n ! 3" "[a]" "[]"] by auto
  qed (use ok(1) in simp_all)
qed

lemma some_moves:
  assumes good: "main_good w" and calm: "calm 0 (network w)" and busy: "\<not> main_done w"
  shows "\<exists>t < 5. can_move t w"
proof (rule ccontr)
  let ?n = "network w"
  let ?sent = "\<lambda>s. length (sent ?n ! s)" and ?got = "\<lambda>p. length (got ?n ! p)"
  assume no: "\<not> (\<exists>t < 5. can_move t w)"
  have inv: "main_inv w" by (rule main_goodD(1) [OF good])
  then have shape: "main_shape ?n" and ok: "successor_ok 0 ?n (threads w ! 0)" "times_ok 1 5 4 ?n (threads w ! 1)"
    "times_ok 2 7 5 ?n (threads w ! 2)" "merge_ok 3 2 3 ?n (threads w ! 3)" "consumer_ok 4 1 ?n (threads w ! 4)"
    by (simp_all add: main_inv_def main_threads_def)
  note cells = main_cells [OF shape]
  have free: "s_lock (streams (mem ?n) ! s) = None" if "s < 4" for s
    using mp.holder_moves [OF good] that no by blast
  have stuck: "\<not> can_move 0 w" "\<not> can_move 1 w" "\<not> can_move 2 w" "\<not> can_move 3 w" "\<not> can_move 4 w" using no by simp_all
  have consumer: "next_call (threads w ! 4) = CGet 1" "?got 1 \<le> 10"
    using ok(5) busy consumer_length [OF ok(5)] by (cases "threads w ! 4"; auto simp: main_done_def)+
  have out: "?sent 3 \<le> ?got 1 + 1"
    using getter_waits [OF main_many [OF inv] free _ consumer(1) stuck(5), of 3] by (simp add: cells del: One_nat_def)
  note merge = merge_waits [OF inv ok(4) stuck(4) free]
  obtain v where put: "next_call (threads w ! 0) = CPut 0 v" using in_put_call(1) [OF ok(1)] by blast
  have suc: "?sent 0 = ?got 4 + 5 \<or> ?sent 0 = ?got 5 + 5"
    using putter_waits(1) [OF main_many [OF inv] free put stuck(1)] by (simp add: cells)
  have near: "?got 4 < ?got 5 + 5" "?got 5 < ?got 4 + 5" using calm by (simp_all add: calm_def close_def cells)
  have t5: "?sent 0 \<le> ?got 4 + 1 \<and> ?sent 1 = ?got 4 \<or> ?sent 1 = ?got 2 + 5 \<and> ?got 4 = ?sent 1 + 1"
    by (rule times_waits [OF inv ok(2) stuck(2) _ free _ _ free]) (simp_all add: cells del: One_nat_def)
  have t7: "?sent 0 \<le> ?got 5 + 1 \<and> ?sent 2 = ?got 5 \<or> ?sent 2 = ?got 3 + 5 \<and> ?got 5 = ?sent 2 + 1"
    by (rule times_waits [OF inv ok(3) stuck(3) _ free _ _ free]) (simp_all add: cells)
  have held: "?sent 1 \<le> ?got 2 + 1 \<or> ?sent 2 \<le> ?got 3 + 1"
    "merge_out (got ?n ! 2) (got ?n ! 3) = sent ?n ! 3" "?got 2 + ?got 3 \<le> ?sent 3 + 1" using merge out by simp_all
  have "?got 3 + 9 \<le> ?got 2 \<or> ?got 2 + 9 \<le> ?got 3" using held(1) t5 t7 suc near by linarith
  moreover have "?got 2 + ?got 3 \<le> 13" using held(3) out consumer(2) by linarith
  ultimately have "length (merge_out (got ?n ! 2) (got ?n ! 3)) + 1 < ?got 2 + ?got 3"
    using lopsided main_got_multiples [OF inv] by metis
  with held(2,3) show False by simp
qed

lemma main_start_good:
  assumes "main_start raw = Inr w0" "length raw = 5" "\<And>r. r \<in> set raw \<Longrightarrow> length (s_buffer r) = 5"
  shows "main_good w0"
proof -
  have "network w0 = idle_net (main_built raw)"
    using assms(1) main_mem_built [OF assms(2)] by (auto simp: main_start_def bindE_Inr_iff Let_def)
  moreover have "s_lock (streams (main_built raw) ! s) = None" if "s < 4" for s
  proof -
    have "s = 0 \<or> s = 1 \<or> s = 2 \<or> s = 3" using that by auto
    then show ?thesis by (auto simp: main_built_def init_stream_def)
  qed
  ultimately show ?thesis using main_start_inv [OF assms] by (simp add: main_good_def owned_free)
qed

text \<open>The threads of \<open>main\<close> do not deadlock: in every state of every run in which neither \<open>times\<close> thread gets five tokens
  ahead of the other, until the consumer has its ten tokens, one of the five threads can take a
  turn that is not the vain repetition of a test it waits for.\<close>

theorem main_never_stuck:
  assumes "main_start raw = Inr w0" "length raw = 5" "\<And>r. r \<in> set raw \<Longrightarrow> length (s_buffer r) = 5" "steady_reach w0 w"
    and "calm 0 (network w)" "\<not> main_done w"
  shows "\<exists>t < 5. can_move t w"
  by (rule some_moves [OF main_good_reach [OF assms(4) main_start_good [OF assms(1-3)]] assms(5,6)])

theorem main_never_stuck_witness:
  "\<exists>w. steady_reach main_world w \<and> sent (network w) ! 0 = [1] \<and> \<not> main_done w \<and> (\<exists>t < 5. can_move t w)"
proof -
  have "case run_steady (replicate 6 0) main_world of None \<Rightarrow> False | Some w \<Rightarrow>
      sent (network w) ! 0 = [1] \<and> got (network w) ! 4 = [] \<and> got (network w) ! 5 = [] \<and> \<not> main_done w" by code_simp
  then obtain w where w: "run_steady (replicate 6 0) main_world = Some w" "sent (network w) ! 0 = [1]"
    "got (network w) ! 4 = []" "got (network w) ! 5 = []" "\<not> main_done w" by (auto split: option.splits)
  have inv: "main_inv main_world" by (rule main_start_inv [OF main_world_start _ raw_lengths]) simp
  have reach: "steady_reach main_world w" by (rule run_steady_reach [OF w(1) inv steady_start])
  have "main_shape (network w)" using main_inv_reach [OF reach inv] by (simp add: main_inv_def)
  then have "calm 0 (network w)" using w(3,4) by (simp add: calm_def close_def main_cells)
  from main_never_stuck [OF main_world_start _ raw_lengths reach this w(5)] reach w(2,5) show ?thesis by auto
qed

end
