(* ===== verification/Streams_Endings.thy ===== *)
theory Streams_Endings
  imports Streams_Deadlock
begin

text \<open>
  How \<open>hw3_pthreads/main.c\<close> ends when threads only wake up by signals: its consumer always gets its ten tokens, in a bounded
  number of turns and under every schedule that keeps the readers of a stream close together.
\<close>

section \<open>The program main.c\<close>

lemma effort_idle:
  assumes "G \<subseteq> {..<length (prods m)}" "T \<subseteq> {..<length (streams m)}"
  shows "effort G T (idle_net m) [] = card G + card T"
proof -
  have "p < length (prods m)" if "p \<in> G" for p using assms(1) that by blast
  moreover have "s < length (streams m)" if "s \<in> T" for s using assms(2) that by blast
  ultimately show ?thesis by (simp add: effort_def moved_def idle_net_def)
qed

lemma merge_held:
  assumes "merge_ok s p q n th"
  shows "length (got n ! p) + length (got n ! q) \<le> length (sent n ! s) + 3"
proof -
  have r: "length gt \<le> length (received g gt) + 1" for g and gt :: "int list" by (cases gt) (simp_all add: received_def)
  have e: "length (entered pp snt) \<le> length snt" for pp and snt :: "int list" by (cases pp) simp_all
  show ?thesis
    using assms r [of "got n ! p" "gpcs n ! p"] r [of "got n ! q" "gpcs n ! q"] e [of "ppcs n ! s" "sent n ! s"]
    by (cases th) (auto dest!: flow_count)
qed

lemma times_held:
  assumes "times_ok s k p n th"
  shows "length (got n ! p) \<le> length (sent n ! s) + 1"
proof (cases th)
  case (TimesGet s' k' p')
  then have "length (sent n ! s) = length (received (gpcs n ! p) (got n ! p))" using assms by simp
  then show ?thesis by (simp add: received_def split: if_splits)
next
  case (TimesPut s' k' p' x)
  then have "length (entered (ppcs n ! s) (sent n ! s) @ [x * k]) = length (got n ! p)" using assms by (metis length_map times_ok.simps(2))
  then show ?thesis using prefix_length_le [OF entered_prefix, of "ppcs n ! s" "sent n ! s"] by simp
qed (use assms in simp_all)

text \<open>The consumer takes ten tokens, and the buffers and hands of the other threads bound what they move.\<close>

lemma main_moved:
  assumes "main_good w"
  shows "moved {1, 2, 3, 4, 5} {..<4} (network w) \<le> 136"
proof -
  let ?n = "network w"
  note inv = main_goodD [OF assms]
  note cells = main_cells [OF inv(2)]
  have ok: "times_ok 1 5 4 ?n (threads w ! 1)" "times_ok 2 7 5 ?n (threads w ! 2)" "merge_ok 3 2 3 ?n (threads w ! 3)"
    "consumer_ok 4 1 ?n (threads w ! 4)" using inv(3) by (simp_all add: main_threads_def)
  have "many_inv 0 ?n" "many_inv 1 ?n" "many_inv 2 ?n" "many_inv 3 ?n" using inv(1) by (simp_all add: main_inv_def)
  note many = this
  have "length (sent ?n ! 3) \<le> length (got ?n ! 1) + 5" "length (sent ?n ! 1) \<le> length (got ?n ! 2) + 5"
    "length (sent ?n ! 2) \<le> length (got ?n ! 3) + 5" "length (sent ?n ! 0) \<le> length (got ?n ! 4) + 5"
    by (rule many.bounded [OF many(4)], simp add: cells) (rule many.bounded [OF many(2)], simp add: cells del: One_nat_def,
      rule many.bounded [OF many(3)], simp add: cells, rule many.bounded [OF many(1)], simp add: cells)
  moreover note merge_held [OF ok(3)] times_held [OF ok(1)] times_held [OF ok(2)] consumer_length(1) [OF ok(4)]
  moreover have "moved {1, 2, 3, 4, 5} {..<4} ?n = length (got ?n ! 1) + length (got ?n ! 2) + length (got ?n ! 3) +
      length (got ?n ! 4) + length (got ?n ! 5) + (length (sent ?n ! 0) + length (sent ?n ! 1) + length (sent ?n ! 2) + length (sent ?n ! 3))"
    by (simp add: moved_def lessThan_Suc eval_nat_numeral)
  ultimately show ?thesis by linarith
qed

text \<open>C31: \<open>main.c\<close> ends, and rightly, under every schedule of its threads and every choice of the threads that signals wake, as
  long as neither \<open>times\<close> thread gets five tokens ahead of the other: no run has more than 1124 turns; until the consumer
  has its ten tokens some thread has a turn; and then the consumer has got 5, 7, 10, 14, 15, 20, 21, 25, 28 and 30.\<close>

theorem main_ends:
  assumes "main_start raw = Inr w0" "length raw = 5" "\<And>r. r \<in> set raw \<Longrightarrow> length (s_buffer r) = 5"
    and "signal_run (\<lambda>w. calm 0 (network w)) k \<lparr>program = w0, asleep = []\<rparr> z"
  shows "k \<le> 1124 \<and>
    (calm 0 (network (program z)) \<and> \<not> main_done (program z) \<longrightarrow> (\<exists>t < 5. \<exists>c z'. signal_turn t c z = Inr (Some z'))) \<and>
    (main_done (program z) \<longrightarrow> got (network (program z)) ! 1 = [5, 7, 10, 14, 15, 20, 21, 25, 28, 30])"
proof -
  let ?z0 = "\<lparr>program = w0, asleep = []\<rparr>" and ?G = "{1, 2, 3, 4, 5} :: nat set" and ?T = "{..<4 :: nat}"
  have good0: "main_good (program ?z0)" using main_start_good [OF assms(1-3)] by simp
  have good: "main_good (program z)" by (rule mp.run_good [OF assms(4) good0])
  have "cells_of s (mem (network w)) \<subseteq> ?G" if "main_good w" "s \<in> ?T" for w s
  proof -
    have "s = 0 \<or> s = 1 \<or> s = 2 \<or> s = 3" using that(2) by auto
    then show ?thesis using main_cells [OF main_goodD(2) [OF that(1)]] by auto
  qed
  from mp.run_effort [OF assms(4) good0 _ _ this]
  have "effort ?G ?T (network w0) [] + k \<le> effort ?G ?T (network (program z)) (asleep z)" by simp
  moreover have net: "network w0 = idle_net (main_built raw)"
    using assms(1) main_mem_built [OF assms(2)] by (auto simp: main_start_def bindE_Inr_iff Let_def)
  then have "effort ?G ?T (network w0) [] = 9"
    using main_goodD(2) [OF good0] by (subst net, subst effort_idle) (auto simp: main_shape_def idle_net_def)
  moreover have "effort ?G ?T (network (program z)) (asleep z) \<le> 8 * moved ?G ?T (network (program z)) + 5 * (card ?G + card ?T)"
    by (rule effort_bound) simp_all
  ultimately have k: "k \<le> 1124" using main_moved [OF good] by simp
  have att: "attentive ?T z" by (rule mp.run_attentive [OF assms(4) good0 attentive_start]) simp
  have "\<exists>t < 5. \<exists>c z'. signal_turn t c z = Inr (Some z')" if calm: "calm 0 (network (program z))" "\<not> main_done (program z)"
    using some_moves [OF good calm] mp.awake_moves [OF good calm(1) att] by blast
  moreover have "got (network (program z)) ! 1 = [5, 7, 10, 14, 15, 20, 21, 25, 28, 30]" if "main_done (program z)"
    using main_inv_prints [OF main_goodD(1) [OF good]] that by (auto simp: consumed_def elim!: prefixE dest: arg_cong)
  ultimately show ?thesis using k by blast
qed

text \<open>The schedule that prefers the consumer, then \<open>merge\<close>, and so on, while two readers of a stream are close together.\<close>

definition close_pair :: "ptr \<Rightarrow> ptr \<Rightarrow> world \<Rightarrow> bool" where
  "close_pair p q w \<longleftrightarrow> length (got (network w) ! p) < length (got (network w) ! q) + 5 \<and>
     length (got (network w) ! q) < length (got (network w) ! p) + 5"

lemma close_pair_calm: "close_pair p q w \<Longrightarrow> cells_of s (mem (network w)) = {p, q} \<Longrightarrow> calm s (network w)"
  by (auto simp: close_pair_def calm_def close_def)

theorem main_ends_witness:
  "\<exists>k z. signal_run (\<lambda>w. calm 0 (network w)) k \<lparr>program = main_world, asleep = []\<rparr> z \<and> k \<le> 1124 \<and> main_done (program z) \<and>
     got (network (program z)) ! 1 = [5, 7, 10, 14, 15, 20, 21, 25, 28, 30]"
proof -
  let ?init = "\<lparr>program = main_world, asleep = []\<rparr>"
  let ?z = "signal_first (close_pair 4 5) [4, 3, 2, 1, 0] 450 ?init"
  have fin: "main_done (program ?z)" by code_simp
  obtain k where k: "signal_run (close_pair 4 5) k ?init ?z" using signal_first_run [OF signal_start [of "close_pair 4 5" ?init]] by blast
  have good: "main_good (program ?init)" using main_start_good [OF main_world_start _ raw_lengths] by simp
  have calm: "calm 0 (network w)" if "main_good w" "close_pair 4 5 w" for w
    by (rule close_pair_calm [OF that(2) main_cells(1) [OF main_goodD(2) [OF that(1)]]])
  have keep: "main_good w'" if "main_good w" "calm 0 (network w)" "t < length (threads w)" "thread_turn t w = Inr (Some w')" for w t w'
    using main_good_turn [OF that(1,2) _ that(4)] that(3) main_goodD(3) [OF that(1)] by (simp add: main_threads_def)
  have "signal_run (\<lambda>w. calm 0 (network w)) k ?init ?z"
    by (rule conjunct1 [OF signal_run_weaken [where I = main_good, OF k good]]) (use calm keep in blast)+
  from main_ends [OF main_world_start _ raw_lengths this] fin this show ?thesis by auto
qed

end
