(* ===== verification/Streams_Tests.thy ===== *)
theory Streams_Tests
  imports Streams_Threads
begin

text \<open>
  The seven programs of \<open>hw3_pthreads/tests\<close>. Five of them connect \<open>consumer\<close> threads to \<open>successor\<close> threads and
  wait for the consumers. In the other two, \<open>consume_non_threaded.c\<close> and \<open>disconnect_reconnect.c\<close>, the main thread
  itself calls \<open>consume_single\<close>, \<open>stream_disconnect\<close> and \<open>stream_connect\<close> while one \<open>successor\<close> runs; it is a list of
  these calls. In every program the successors are the first streams and the consumers the last ones.
\<close>

section \<open>Starting the threads\<close>

text \<open>The calls \<open>stream_connect(cons, suc)\<close> of a program, in order.\<close>

fun connect_all :: "(nat \<times> nat) list \<Rightarrow> int mem \<Rightarrow> fault + int mem" where
  "connect_all [] m = Inr m"
| "connect_all ((k, j) # cs) m = bindE (stream_connect k j m) (connect_all cs)"

definition initialised :: "int stream list \<Rightarrow> int mem" where
  "initialised raw = \<lparr>streams = map init_stream raw, prods = [None]\<rparr>"

text \<open>\<open>S\<close> successors and \<open>K\<close> consumers, connected by \<open>cs\<close>. \<open>raw\<close> is what the stack holds.\<close>

definition start_test :: "nat \<Rightarrow> nat \<Rightarrow> (nat \<times> nat) list \<Rightarrow> int stream list \<Rightarrow> fault + world" where
  "start_test S K cs raw = bindE (connect_all cs (initialised raw)) (\<lambda>m.
     Inr \<lparr>network = idle_net m, threads = map start_successor [0..<S] @ map (start_consumer m) [S..<S + K]\<rparr>)"

text \<open>The programs; what they differ in is the number of streams of each kind and the connections.\<close>

definition no_connections :: "int stream list \<Rightarrow> fault + world" where
  "no_connections = start_test 1 3 []"

definition one_to_many :: "int stream list \<Rightarrow> fault + world" where
  "one_to_many = start_test 1 3 [(1, 0), (2, 0), (3, 0)]"

definition many_to_one :: "int stream list \<Rightarrow> fault + world" where
  "many_to_one = start_test 3 1 [(3, 0), (3, 1), (3, 2)]"

definition many_to_many :: "int stream list \<Rightarrow> fault + world" where
  "many_to_many = start_test 3 3 [(3, 0), (4, 0), (5, 0), (3, 1), (4, 1), (5, 1), (3, 2), (4, 2), (5, 2)]"

definition consumers_at_different_rates :: "int stream list \<Rightarrow> fault + world" where
  "consumers_at_different_rates = start_test 1 2 [(1, 0), (2, 0)]"

text \<open>\<open>pthread_join\<close> of every consumer returns.\<close>

definition joined :: "nat \<Rightarrow> world \<Rightarrow> bool" where
  "joined S w \<longleftrightarrow> (\<forall>th \<in> set (drop S (threads w)). th = Exited)"

section \<open>A main thread that consumes\<close>

text \<open>\<open>Consume k\<close> prints the token \<open>consume_single\<close> returned for stream \<open>k\<close>.\<close>

datatype main_op = is_Consume: Consume nat | Disconnect nat nat | Connect nat nat

text \<open>
  Where the main thread is in its current call. \<open>stream_disconnect\<close> and \<open>stream_connect\<close> take no lock, so the successor can
  take turns between any two of their accesses to the stream it puts into. \<open>Count_test q j i\<close>, \<open>Count_load q j i\<close> and
  \<open>Count_store q j i c\<close>: in the loop of \<open>stream_disconnect\<close> over the read counts of stream \<open>j\<close>, with the cell \<open>q\<close> that will be
  freed, before the test of slot \<open>i\<close>, before the load of the decrement and before its store. \<open>Count_up j\<close>: in
  \<open>stream_connect\<close> before \<open>num_consumers++\<close>. The lists of cells and \<open>num_consumers\<close> are written by the main thread only.
\<close>

datatype main_pc =
    At_call
  | Count_test ptr nat nat
  | Count_load ptr nat nat
  | Count_store ptr nat nat int
  | Count_up nat

record session =
  running :: world
  script :: "main_op list"
  main_at :: main_pc
  shown :: "(nat \<times> int) list"

text \<open>The new cell of a connection has no reader inside \<open>get\<close> yet.\<close>

definition with_cells :: "int mem \<Rightarrow> int net \<Rightarrow> int net" where
  "with_cells m n = (let new = length (prods m) - length (prods (mem n)) in
     n\<lparr>mem := m, gpcs := gpcs n @ replicate new GIdle, got := got n @ replicate new []\<rparr>)"

definition at_mem :: "session \<Rightarrow> int mem" where
  "at_mem s = mem (network (running s))"

definition with_mem :: "session \<Rightarrow> int mem \<Rightarrow> session" where
  "with_mem s m = s\<lparr>running := (running s)\<lparr>network := with_cells m (network (running s))\<rparr>\<rparr>"

text \<open>The first turn of \<open>stream_disconnect\<close>: the search, the unlinking, and \<open>num_consumers--\<close>.\<close>

fun find_prod :: "nat \<Rightarrow> nat \<Rightarrow> ptr \<Rightarrow> 'v mem \<Rightarrow> fault + ptr" where
  "find_prod 0 j p m = Inl StackOverflow"
| "find_prod (Suc n) j p m = (if p = NULL then Inr NULL
     else bindE (prod_at m p) (\<lambda>x. if p_stream x = j then Inr p else find_prod n j (p_next x) m))"

definition leave_stream :: "nat \<Rightarrow> 'v mem \<Rightarrow> 'v mem" where
  "leave_stream j m = m\<lparr>streams := (streams m)[j := (streams m ! j)\<lparr>s_consumers := s_consumers (streams m ! j) - 1\<rparr>]\<rparr>"

definition disconnect_turn :: "nat \<Rightarrow> nat \<Rightarrow> session \<Rightarrow> fault + session" where
  "disconnect_turn k j s = (let m = at_mem s in
     bindE (find_prod (Suc (length (prods m))) j (s_prod_head (streams m ! k)) m) (\<lambda>q.
     if q = NULL then Inr (s\<lparr>script := tl (script s)\<rparr>)
     else bindE (unlink_prod q m) (\<lambda>m. Inr (with_mem s (leave_stream j m)\<lparr>main_at := Count_test q j 0\<rparr>))))"

text \<open>The loop over the read counts; after the last slot the cell is freed and the call returns.\<close>

definition after_slot :: "ptr \<Rightarrow> nat \<Rightarrow> nat \<Rightarrow> session \<Rightarrow> session" where
  "after_slot q j i s = (if i + 1 < BUFFER_SIZE then s\<lparr>main_at := Count_test q j (i + 1)\<rparr>
     else with_mem s ((at_mem s)\<lparr>prods := (prods (at_mem s))[q := None]\<rparr>)\<lparr>main_at := At_call, script := tl (script s)\<rparr>)"

definition set_count :: "nat \<Rightarrow> nat \<Rightarrow> int \<Rightarrow> 'v mem \<Rightarrow> 'v mem" where
  "set_count j i c m = m\<lparr>streams := (streams m)[j := (streams m ! j)\<lparr>s_read_count := (s_read_count (streams m ! j))[i := c]\<rparr>]\<rparr>"

definition count_turn :: "session \<Rightarrow> session" where
  "count_turn s = (case main_at s of
       Count_test q j i \<Rightarrow> if s_read_count (streams (at_mem s) ! j) ! i > 0 then s\<lparr>main_at := Count_load q j i\<rparr> else after_slot q j i s
     | Count_load q j i \<Rightarrow> s\<lparr>main_at := Count_store q j i (s_read_count (streams (at_mem s) ! j) ! i)\<rparr>
     | Count_store q j i c \<Rightarrow> after_slot q j i (with_mem s (set_count j i (c - 1) (at_mem s)))
     | _ \<Rightarrow> s)"

text \<open>\<open>stream_connect\<close>: the new cell and its links, and then \<open>num_consumers++\<close>.\<close>

definition connect_cell :: "nat \<Rightarrow> nat \<Rightarrow> 'v mem \<Rightarrow> fault + 'v mem" where
  "connect_cell k j m =
     (let p = length (prods m);
          m = m\<lparr>prods := prods m @ [Some \<lparr>p_idx = s_put_idx (streams m ! j), p_stream = j, p_next = NULL, p_prev = NULL\<rparr>]\<rparr>;
          st = streams m ! k in
      if s_prod_head st = NULL
      then Inr (m\<lparr>streams := (streams m)[k := st\<lparr>s_prod_head := p, s_prod_curr := p\<rparr>]\<rparr>)
      else bindE (prod_set m p (p_prev_update (\<lambda>_. s_prod_curr st))) (\<lambda>m.
           bindE (prod_set m (s_prod_curr st) (p_next_update (\<lambda>_. p))) (\<lambda>m.
           Inr (m\<lparr>streams := (streams m)[k := st\<lparr>s_prod_curr := p\<rparr>]\<rparr>))))"

definition join_stream :: "nat \<Rightarrow> 'v mem \<Rightarrow> 'v mem" where
  "join_stream j m = m\<lparr>streams := (streams m)[j := (streams m ! j)\<lparr>s_consumers := s_consumers (streams m ! j) + 1\<rparr>]\<rparr>"

lemma connect_parts: "stream_connect k j m = bindE (connect_cell k j m) (\<lambda>m. Inr (join_stream j m))"
  by (simp add: stream_connect_def connect_cell_def join_stream_def Let_def)

text \<open>One turn of the main thread.\<close>

definition consume_turn_main :: "nat \<Rightarrow> session \<Rightarrow> fault + session option" where
  "consume_turn_main k s = (let w = running s; n = network w in
     case consume_single (mem n) k of
       CGet p \<Rightarrow> bindE (get_next p n) (\<lambda>r. case r of
         None \<Rightarrow> Inr None
       | Some n1 \<Rightarrow>
           if gpcs n ! p = GUnlock
           then Inr (Some (s\<lparr>running := w\<lparr>network := n1\<rparr>, script := tl (script s), shown := shown s @ [(k, last (got n1 ! p))]\<rparr>))
           else Inr (Some (s\<lparr>running := w\<lparr>network := n1\<rparr>\<rparr>)))
     | _ \<Rightarrow> Inr None)"

definition main_turn :: "session \<Rightarrow> fault + session option" where
  "main_turn s = (case main_at s of
       At_call \<Rightarrow> (case script s of
           [] \<Rightarrow> Inr None
         | Consume k # ops \<Rightarrow> consume_turn_main k s
         | Disconnect k j # ops \<Rightarrow> bindE (disconnect_turn k j s) (\<lambda>s. Inr (Some s))
         | Connect k j # ops \<Rightarrow> bindE (connect_cell k j (at_mem s)) (\<lambda>m. Inr (Some (with_mem s m\<lparr>main_at := Count_up j\<rparr>))))
     | Count_up j \<Rightarrow> Inr (Some (with_mem s (join_stream j (at_mem s))\<lparr>main_at := At_call, script := tl (script s)\<rparr>))
     | _ \<Rightarrow> Inr (Some (count_turn s)))"

definition worker_turn :: "nat \<Rightarrow> session \<Rightarrow> fault + session option" where
  "worker_turn t s = bindE (thread_turn t (running s)) (\<lambda>r. Inr (map_option (\<lambda>w. s\<lparr>running := w\<rparr>) r))"

text \<open>\<open>suc\<close> of \<open>disconnect_reconnect.c\<close> is \<open>successor\<close> without the messages.\<close>

definition test_suc :: "nat \<Rightarrow> thread" where
  "test_suc self = Successor self 1"

definition start_session :: "(nat \<times> nat) list \<Rightarrow> thread \<Rightarrow> main_op list \<Rightarrow> int stream list \<Rightarrow> fault + session" where
  "start_session cs th ops raw = bindE (connect_all cs (initialised raw)) (\<lambda>m.
     Inr \<lparr>running = \<lparr>network = idle_net m, threads = [th]\<rparr>, script = ops, main_at = At_call, shown = []\<rparr>)"

definition non_threaded_script :: "main_op list" where
  "non_threaded_script = [Consume 1, Consume 1, Consume 1]"

definition consume_non_threaded :: "int stream list \<Rightarrow> fault + session" where
  "consume_non_threaded = start_session [(1, 0)] (start_successor 0) non_threaded_script"

definition before_reconnect :: "main_op list" where
  "before_reconnect = replicate 3 (Consume 1) @ replicate 3 (Consume 2) @ [Disconnect 2 0] @ replicate 8 (Consume 1)"

definition after_reconnect :: "main_op list" where
  "after_reconnect = [Connect 2 0] @ replicate 3 (Consume 2) @ replicate 5 (Consume 1) @ [Disconnect 1 0] @
     replicate 3 (Consume 2) @ [Connect 1 0] @ replicate 3 (Consume 1)"

definition disconnect_reconnect :: "int stream list \<Rightarrow> fault + session" where
  "disconnect_reconnect = start_session [(1, 0), (2, 0)] (test_suc 0) (before_reconnect @ after_reconnect)"

section \<open>Runs\<close>

text \<open>Runs in which the successor takes turns only in states with property \<open>P\<close>.\<close>

inductive session_reach :: "(session \<Rightarrow> bool) \<Rightarrow> session \<Rightarrow> session \<Rightarrow> bool" for P where
  session_start: "session_reach P s s"
| session_worker: "session_reach P s0 s \<Longrightarrow> P s \<Longrightarrow> t < length (threads (running s)) \<Longrightarrow> worker_turn t s = Inr (Some s') \<Longrightarrow>
    session_reach P s0 s'"
| session_main: "session_reach P s0 s \<Longrightarrow> main_turn s = Inr (Some s') \<Longrightarrow> session_reach P s0 s'"

text \<open>Every schedule, and the schedules in which the successor takes no turn while \<open>stream_disconnect\<close> or
  \<open>stream_connect\<close> is under way.\<close>

definition any_time :: "session \<Rightarrow> bool" where
  "any_time s = True"

definition between_calls :: "session \<Rightarrow> bool" where
  "between_calls s \<longleftrightarrow> main_at s = At_call"

lemma session_any: "session_reach P s0 s \<Longrightarrow> session_reach any_time s0 s"
  by (induction rule: session_reach.induct) (auto simp: any_time_def intro: session_reach.intros)

lemma session_trans: "session_reach P s1 s2 \<Longrightarrow> session_reach P s0 s1 \<Longrightarrow> session_reach P s0 s2"
  by (induction rule: session_reach.induct) (auto intro: session_reach.intros)

text \<open>One of the schedules: the successor takes a turn whenever it can and may.\<close>

definition successor_goes :: "(session \<Rightarrow> bool) \<Rightarrow> session \<Rightarrow> session option" where
  "successor_goes P s = (if threads (running s) = [] \<or> \<not> P s then None
     else case worker_turn 0 s of Inr r \<Rightarrow> r | Inl e \<Rightarrow> None)"

fun successor_first :: "(session \<Rightarrow> bool) \<Rightarrow> nat \<Rightarrow> session \<Rightarrow> session" where
  "successor_first P 0 s = s"
| "successor_first P (Suc n) s = (case successor_goes P s of
     Some s1 \<Rightarrow> successor_first P n s1
   | None \<Rightarrow> (case main_turn s of Inr (Some s1) \<Rightarrow> successor_first P n s1 | _ \<Rightarrow> s))"

lemma successor_goes_reach: "successor_goes P s = Some s1 \<Longrightarrow> session_reach P s0 s \<Longrightarrow> session_reach P s0 s1"
  by (auto simp: successor_goes_def intro: session_worker split: if_splits sum.splits)

lemma successor_first_reach: "session_reach P s0 s \<Longrightarrow> session_reach P s0 (successor_first P n s)"
proof (induction n arbitrary: s)
  case (Suc n)
  have main: "session_reach P s0 (successor_first P n s1)" if "main_turn s = Inr (Some s1)" for s1
    by (rule Suc.IH, rule session_main [OF Suc.prems that])
  show ?case using main Suc.IH [OF successor_goes_reach [OF _ Suc.prems]] Suc.prems by (auto split: sum.split option.split)
qed simp

end
