(* ===== verification/Streams_Wiring.thy ===== *)
theory Streams_Wiring
  imports Streams_Links Streams_Main Streams_Tests
begin

text \<open>
  The connections of a program of \<open>hw3_pthreads\<close>: what the turns of its threads never change, what a sequence of
  \<open>stream_connect\<close> calls builds, and a consumer that disconnects.
\<close>

section \<open>Turns keep the connections\<close>

definition wiring :: "'v mem \<Rightarrow> (nat \<times> ptr \<times> ptr) option list \<times> (ptr \<times> ptr) list" where
  "wiring m = (map (map_option (\<lambda>x. (p_stream x, p_next x, p_prev x))) (prods m),
     map (\<lambda>st. (s_prod_head st, s_prod_curr st)) (streams m))"

lemma get_turn_wires:
  "get_turn p st i g = Some (st', i', g', out) \<Longrightarrow> s_prod_head st' = s_prod_head st \<and> s_prod_curr st' = s_prod_curr st"
  by (cases g) (auto simp: get_turn_def get_body_def Let_def split: if_splits)

lemma put_turn_wires:
  "put_turn j v st pp = Some (st', pp', ins) \<Longrightarrow> s_prod_head st' = s_prod_head st \<and> s_prod_curr st' = s_prod_curr st"
  by (cases pp) (auto simp: put_turn_def put_body_def split: if_splits)

lemma map_update_same: "i < length xs \<Longrightarrow> f y = f (xs ! i) \<Longrightarrow> map f (xs[i := y]) = map f xs"
  by (metis list_update_id map_update nth_map)

lemma map_update_same': "(i < length xs \<Longrightarrow> f y = f (xs ! i)) \<Longrightarrow> map f (xs[i := y]) = map f xs"
  by (cases "i < length xs") (simp_all add: map_update_same list_update_beyond)

lemma wiring_get:
  assumes "get_next p n = Inr (Some n')"
  shows "wiring (mem n') = wiring (mem n)"
proof -
  obtain y st i pc out where y: "prod_at (mem n) p = Inr y"
    "get_turn p (streams (mem n) ! p_stream y) (p_idx y) (gpcs n ! p) = Some (st, i, pc, out)"
    and n': "n' = n\<lparr>mem := (mem n)\<lparr>streams := (streams (mem n))[p_stream y := st],
                        prods := (prods (mem n))[p := Some (y\<lparr>p_idx := i\<rparr>)]\<rparr>,
         gpcs := (gpcs n)[p := pc], got := (got n)[p := got n ! p @ out]\<rparr>"
    using assms by (auto simp: get_next_def bindE_Inr_iff split: option.splits)
  have "map (\<lambda>st. (s_prod_head st, s_prod_curr st)) ((streams (mem n))[p_stream y := st]) =
      map (\<lambda>st. (s_prod_head st, s_prod_curr st)) (streams (mem n))"
    using get_turn_wires [OF y(2)] by (intro map_update_same') simp
  moreover have "map (map_option (\<lambda>x. (p_stream x, p_next x, p_prev x))) ((prods (mem n))[p := Some (y\<lparr>p_idx := i\<rparr>)]) =
      map (map_option (\<lambda>x. (p_stream x, p_next x, p_prev x))) (prods (mem n))"
    using y(1) by (intro map_update_same') (simp add: prod_at_Inr)
  ultimately show ?thesis by (simp add: wiring_def n')
qed

lemma wiring_put: "put_next j v n = Some n' \<Longrightarrow> wiring (mem n') = wiring (mem n)"
proof -
  assume "put_next j v n = Some n'"
  then obtain st pc ins where t: "put_turn j v (streams (mem n) ! j) (ppcs n ! j) = Some (st, pc, ins)"
    and n': "mem n' = (mem n)\<lparr>streams := (streams (mem n))[j := st]\<rparr>"
    by (auto simp: put_next_def split: option.splits)
  have "map (\<lambda>st. (s_prod_head st, s_prod_curr st)) ((streams (mem n))[j := st]) =
      map (\<lambda>st. (s_prod_head st, s_prod_curr st)) (streams (mem n))"
    using put_turn_wires [OF t] by (intro map_update_same') simp
  then show ?thesis by (simp add: wiring_def n')
qed

text \<open>What the connections determine.\<close>

lemma wiring_cell:
  assumes "wiring m' = wiring m"
  shows "case prod_at m q of Inl e \<Rightarrow> prod_at m' q = Inl e
    | Inr x \<Rightarrow> \<exists>x'. prod_at m' q = Inr x' \<and> p_stream x' = p_stream x \<and> p_next x' = p_next x \<and> p_prev x' = p_prev x"
proof -
  let ?f = "\<lambda>x. (p_stream x, p_next x, p_prev x)"
  have e: "map (map_option ?f) (prods m') = map (map_option ?f) (prods m)" using assms by (simp add: wiring_def)
  have len: "length (prods m') = length (prods m)" by (rule map_eq_imp_length_eq [OF e])
  show ?thesis
  proof (cases "q < length (prods m)")
    case True
    have "map (map_option ?f) (prods m') ! q = map (map_option ?f) (prods m) ! q" by (rule arg_cong [OF e])
    then have "map_option ?f (prods m' ! q) = map_option ?f (prods m ! q)" using True by (simp add: len)
    then show ?thesis using len
      by (cases "prods m ! q"; cases "prods m' ! q") (simp_all add: prod_at_def)
  qed (simp add: prod_at_def len)
qed

lemma wiring_prod_at:
  assumes "wiring m' = wiring m"
  shows "prod_at m q = Inl e \<Longrightarrow> prod_at m' q = Inl e"
    "prod_at m q = Inr x \<Longrightarrow> \<exists>x'. prod_at m' q = Inr x' \<and> p_stream x' = p_stream x \<and> p_next x' = p_next x \<and> p_prev x' = p_prev x"
  using wiring_cell [OF assms, of q] by simp_all

lemma wiring_length:
  assumes "wiring m' = wiring m"
  shows "length (streams m') = length (streams m)" "length (prods m') = length (prods m)"
  using assms by (auto simp: wiring_def dest: map_eq_imp_length_eq)

lemma wiring_links:
  assumes "wiring m' = wiring m" "k < length (streams m)"
  shows "s_prod_head (streams m' ! k) = s_prod_head (streams m ! k)" "s_prod_curr (streams m' ! k) = s_prod_curr (streams m ! k)"
proof -
  let ?f = "\<lambda>st. (s_prod_head st, s_prod_curr st)"
  have "map ?f (streams m') ! k = map ?f (streams m) ! k" using assms(1) by (simp add: wiring_def)
  then show "s_prod_head (streams m' ! k) = s_prod_head (streams m ! k)" "s_prod_curr (streams m' ! k) = s_prod_curr (streams m ! k)"
    using assms(2) wiring_length [OF assms(1)] by simp_all
qed

lemma wiring_seg: "wiring m' = wiring m \<Longrightarrow> seg m pr p ps e \<Longrightarrow> seg m' pr p ps e"
proof (induction ps arbitrary: pr p)
  case (Cons q qs)
  then obtain x where x: "p = q" "prod_at m q = Inr x" "p_prev x = pr" "seg m q (p_next x) qs e" by (auto split: sum.splits)
  with wiring_prod_at(2) [OF Cons.prems(1) x(2)] Cons.IH [OF Cons.prems(1) x(4)] show ?case by auto
qed simp

lemma wiring_linked: "wiring m' = wiring m \<Longrightarrow> k < length (streams m) \<Longrightarrow> linked m k ps \<Longrightarrow> linked m' k ps"
  using wiring_seg [of m' m] wiring_links [of m' m k] by (auto simp: linked_def)

lemma cells_of_source: "p \<in> cells_of s m \<longleftrightarrow> source_of m p = Some s"
  by (auto simp: cells_of_def source_of_def prod_at_def split: sum.splits option.splits)

lemma wiring_source: "wiring m' = wiring m \<Longrightarrow> source_of m' p = source_of m p"
  using wiring_cell [of m' m p] by (auto simp: source_of_def split: sum.splits)

lemma wiring_cells: "wiring m' = wiring m \<Longrightarrow> cells_of s m' = cells_of s m"
  by (intro set_eqI) (simp add: cells_of_source wiring_source [of m' m])

section \<open>What a sequence of connections builds\<close>

text \<open>The cells of consumer \<open>k\<close> when the connections \<open>cs\<close> are made in this order: the call with number \<open>q\<close> allocates
  the cell \<open>q + 1\<close>.\<close>

definition cells_for :: "(nat \<times> nat) list \<Rightarrow> nat \<Rightarrow> ptr list" where
  "cells_for cs k = map Suc (filter (\<lambda>q. fst (cs ! q) = k) [0..<length cs])"

definition consumers_for :: "(nat \<times> nat) list \<Rightarrow> nat \<Rightarrow> nat" where
  "consumers_for cs j = length (filter (\<lambda>c. snd c = j) cs)"

definition fresh_stream :: "int stream \<Rightarrow> nat \<Rightarrow> int stream \<Rightarrow> bool" where
  "fresh_stream r c st \<longleftrightarrow> s_lock st = None \<and> s_empty st = 5 \<and> s_buffer st = s_buffer r \<and>
     s_read_count st = replicate 5 9999 \<and> s_put_idx st = 0 \<and> s_consumers st = int c"

definition built :: "(nat \<times> nat) list \<Rightarrow> int stream list \<Rightarrow> int mem \<Rightarrow> bool" where
  "built cs raw m \<longleftrightarrow> length (prods m) = Suc (length cs) \<and> length (streams m) = length raw \<and>
     (\<forall>q < length cs. \<exists>x. prod_at m (Suc q) = Inr x \<and> p_stream x = snd (cs ! q) \<and> p_idx x = 0) \<and>
     (\<forall>k < length raw. linked m k (cells_for cs k)) \<and>
     (\<forall>j < length raw. fresh_stream (raw ! j) (consumers_for cs j) (streams m ! j))"

lemma cells_for_snoc: "cells_for (cs @ [(k, j)]) i = cells_for cs i @ (if i = k then [Suc (length cs)] else [])"
proof -
  have "filter (\<lambda>q. fst ((cs @ [(k, j)]) ! q) = i) [0..<length cs] = filter (\<lambda>q. fst (cs ! q) = i) [0..<length cs]"
    by (rule filter_cong) (simp_all add: nth_append)
  then show ?thesis by (simp add: cells_for_def)
qed

lemma cells_for_set: "q \<in> set (cells_for cs k) \<longleftrightarrow> (\<exists>i < length cs. q = Suc i \<and> fst (cs ! i) = k)"
  by (auto simp: cells_for_def)

lemma cells_for_disjoint: "q \<in> set (cells_for cs k) \<Longrightarrow> q \<in> set (cells_for cs i) \<Longrightarrow> k = i"
  by (auto simp: cells_for_set)

lemma built_initialised: "built [] raw (initialised raw)"
  by (simp add: built_def initialised_def cells_for_def linked_def fresh_stream_def consumers_for_def init_stream_def BUFFER_SIZE_def)

lemma connected_streams:
  assumes "length ss = length raw" "k < length raw" "j < length raw" "i < length raw" "fresh_stream (raw ! i) c (ss ! i)"
  shows "fresh_stream (raw ! i) (if i = j then Suc c else c) (streams_connected k j p ss ! i)"
    "i \<noteq> k \<Longrightarrow> s_prod_head (streams_connected k j p ss ! i) = s_prod_head (ss ! i) \<and>
      s_prod_curr (streams_connected k j p ss ! i) = s_prod_curr (ss ! i)"
proof -
  show "fresh_stream (raw ! i) (if i = j then Suc c else c) (streams_connected k j p ss ! i)"
    using assms by (simp add: fresh_stream_def streams_connected_def Let_def nth_list_update)
  show "i \<noteq> k \<Longrightarrow> s_prod_head (streams_connected k j p ss ! i) = s_prod_head (ss ! i) \<and>
      s_prod_curr (streams_connected k j p ss ! i) = s_prod_curr (ss ! i)"
    using assms(1-4) by (simp add: streams_connected_def Let_def nth_list_update)
qed

lemma built_connect:
  assumes b: "built cs raw m" and k: "k < length raw" "j < length raw"
  shows "\<exists>m'. stream_connect k j m = Inr m' \<and> built (cs @ [(k, j)]) raw m'"
proof -
  let ?p = "Suc (length cs)"
  have len: "length (prods m) = ?p" "length (streams m) = length raw" "prods m \<noteq> []" using b by (auto simp: built_def)
  have lk: "linked m i (cells_for cs i)" if "i < length raw" for i using b that by (simp add: built_def)
  have fresh: "fresh_stream (raw ! i) (consumers_for cs i) (streams m ! i)" if "i < length raw" for i
    using b that by (simp add: built_def)
  obtain m' x where c: "stream_connect k j m = Inr m'" "linked m' k (cells_for cs k @ [?p])" "length (prods m') = Suc ?p"
    "streams m' = streams_connected k j ?p (streams m)" "prod_at m' ?p = Inr x" "p_stream x = j" "p_idx x = s_put_idx (streams m ! j)"
    and old: "\<forall>q \<in> set (cells_for cs k). \<exists>y y'. prod_at m q = Inr y \<and> prod_at m' q = Inr y' \<and>
       p_stream y' = p_stream y \<and> p_idx y' = p_idx y"
    and rest: "\<forall>q. q \<notin> set (cells_for cs k) \<longrightarrow> q \<noteq> ?p \<longrightarrow> prod_at m' q = prod_at m q"
    using stream_connect_effect [OF lk [OF k(1)], of j] k len by auto
  have "\<exists>x. prod_at m' (Suc q) = Inr x \<and> p_stream x = snd ((cs @ [(k, j)]) ! q) \<and> p_idx x = 0" if q: "q < Suc (length cs)" for q
  proof (cases "q = length cs")
    case True
    then show ?thesis using c(5-7) fresh [OF k(2)] by (simp add: fresh_stream_def)
  next
    case False
    with q have "q < length cs" by simp
    then obtain y where "prod_at m (Suc q) = Inr y" "p_stream y = snd (cs ! q)" "p_idx y = 0" using b by (auto simp: built_def)
    then show ?thesis using False q old rest by (cases "Suc q \<in> set (cells_for cs k)") (auto simp: nth_append)
  qed
  moreover have "linked m' i (cells_for (cs @ [(k, j)]) i)" if i: "i < length raw" for i
  proof (cases "i = k")
    case False
    have "prod_at m' q = prod_at m q" if "q \<in> set (cells_for cs i)" for q
    proof -
      have "q \<notin> set (cells_for cs k)" using that False cells_for_disjoint by metis
      moreover have "q \<noteq> ?p" using that by (auto simp: cells_for_set)
      ultimately show ?thesis using rest by blast
    qed
    moreover have "s_prod_head (streams m' ! i) = s_prod_head (streams m ! i)" "s_prod_curr (streams m' ! i) = s_prod_curr (streams m ! i)"
      using connected_streams(2) [OF len(2) k i fresh [OF i] False] by (simp_all add: c(4))
    ultimately show ?thesis using lk [OF i] False seg_cong [of "cells_for cs i" m' m] by (simp add: linked_def cells_for_snoc)
  qed (use c(2) in \<open>simp add: cells_for_snoc\<close>)
  moreover have "fresh_stream (raw ! i) (consumers_for (cs @ [(k, j)]) i) (streams m' ! i)" if i: "i < length raw" for i
    using connected_streams(1) [OF len(2) k i fresh [OF i], of ?p] by (auto simp: c(4) consumers_for_def)
  moreover have "length (streams m') = length raw" by (simp add: c(4) streams_connected_def Let_def len(2))
  ultimately show ?thesis using c(1,3) by (auto simp: built_def)
qed

lemma built_connect_all:
  assumes "built bs raw m" "set cs \<subseteq> {..<length raw} \<times> {..<length raw}"
  shows "\<exists>m'. connect_all cs m = Inr m' \<and> built (bs @ cs) raw m'"
  using assms
proof (induction cs arbitrary: bs m)
  case (Cons c cs)
  obtain k j where kj: "c = (k, j)" "k < length raw" "j < length raw" using Cons.prems(2) by (cases c) auto
  obtain m1 where m1: "stream_connect k j m = Inr m1" "built (bs @ [(k, j)]) raw m1" using built_connect [OF Cons.prems(1) kj(2,3)] by blast
  from Cons.IH [OF m1(2)] Cons.prems(2) m1(1) kj(1) show ?case by auto
qed simp

lemma connect_all_built:
  "set cs \<subseteq> {..<length raw} \<times> {..<length raw} \<Longrightarrow> \<exists>m. connect_all cs (initialised raw) = Inr m \<and> built cs raw m"
  using built_connect_all [OF built_initialised] by simp

text \<open>The cells that read from a stream, and how the runs start.\<close>

lemma built_cells:
  assumes "built cs raw m"
  shows "cells_of j m = Suc ` {q. q < length cs \<and> snd (cs ! q) = j}"
proof -
  have "source_of m p = Some j \<longleftrightarrow> (\<exists>q < length cs. p = Suc q \<and> snd (cs ! q) = j)" for p
  proof (cases p)
    case (Suc q)
    show ?thesis
    proof (cases "q < length cs")
      case True
      then obtain x where "prod_at m (Suc q) = Inr x" "p_stream x = snd (cs ! q)" using assms by (auto simp: built_def)
      then show ?thesis using Suc True by (simp add: source_of_def)
    next
      case False
      then show ?thesis using assms Suc by (simp add: built_def source_of_def prod_at_def)
    qed
  qed (simp add: source_of_def prod_at_def)
  then show ?thesis by (auto simp: cells_of_source)
qed

lemma built_connected:
  assumes b: "built cs raw m" and j: "j < length raw" "j \<in> snd ` set cs" and r: "length (s_buffer (raw ! j)) = 5" "length cs \<le> 9999"
  shows "connected_all j m"
proof -
  let ?Q = "{q. q < length cs \<and> snd (cs ! q) = j}"
  have cells: "cells_of j m = Suc ` ?Q" by (rule built_cells [OF b])
  have card: "card (cells_of j m) = consumers_for cs j"
    by (simp add: cells card_image consumers_for_def length_filter_conv_card)
  have "consumers_for cs j \<le> 9999" using r(2) by (simp add: consumers_for_def) (meson length_filter_le le_trans)
  moreover have "\<exists>q < length cs. snd (cs ! q) = j" using j(2) by (metis imageE in_set_conv_nth)
  then have "cells_of j m \<noteq> {}" by (auto simp: cells)
  moreover have "p_idx (the (prods m ! p)) = 0" if "p \<in> cells_of j m" for p
    using that b by (auto simp: cells built_def prod_at_Inr)
  ultimately show ?thesis using b j(1) r(1) card by (auto simp: connected_all_def built_def fresh_stream_def)
qed

section \<open>The tokens of a successor\<close>

lemma prefix_upto:
  assumes "prefix xs [1..m]"
  shows "xs = [1..int (length xs)]"
proof -
  have "xs = take (length xs) [1..m]" using assms by (metis append_eq_conv_conj prefixE)
  also have "\<dots> = [1..int (min (length xs) (nat m))]" by (rule nth_equalityI) auto
  finally have e: "xs = [1..int (min (length xs) (nat m))]" .
  from arg_cong [OF this, of length] have "min (length xs) (nat m) = length xs" by simp
  with e show ?thesis by argo
qed

lemma successor_cells:
  assumes "many_inv s n" "successor_ok s n th" "k \<in> cells_of s (mem n)"
  shows "got n ! k = [1..int (length (got n ! k))]"
proof -
  obtain m where "sent n ! s = [1..m]" using successor_sent [OF assms(2)] by blast
  then have "prefix (got n ! k) [1..m]" using many.fifo [OF assms(1,3)] by simp
  then show ?thesis by (rule prefix_upto)
qed

end
