(* ===== verification/Streams_Tests_Props.thy ===== *)
theory Streams_Tests_Props
  imports Streams_Wiring
begin

text \<open>
  The test programs with \<open>consumer\<close> threads: for any number of successors, consumers and connections, what the
  consumers receive, in which order they visit their producers, and what they have when they exit.
\<close>

section \<open>A consumer with any number of producers\<close>

text \<open>In round \<open>i\<close> at the cell with number \<open>c\<close> of its list: it has called \<open>get\<close> once more on the cells before it.\<close>

definition at_cell :: "ptr list \<Rightarrow> int net \<Rightarrow> nat \<Rightarrow> nat \<Rightarrow> bool" where
  "at_cell ps n i c \<longleftrightarrow> c < length ps \<and> in_get (gpcs n ! (ps ! c)) (got n ! (ps ! c)) \<and>
     (\<forall>d < length ps. d \<noteq> c \<longrightarrow> gpcs n ! (ps ! d) = GIdle) \<and>
     (\<forall>d < length ps. length (received (gpcs n ! (ps ! d)) (got n ! (ps ! d))) = (if d < c then i + 1 else i))"

fun consumer_at :: "nat \<Rightarrow> ptr list \<Rightarrow> int net \<Rightarrow> thread \<Rightarrow> bool" where
  "consumer_at self ps n (Consumer self' i p) = (self' = self \<and> i < 10 \<and> (\<exists>c. at_cell ps n i c \<and> p = ps ! c))"
| "consumer_at self ps n Exited = (\<forall>d < length ps. gpcs n ! (ps ! d) = GIdle \<and> length (got n ! (ps ! d)) = 10)"
| "consumer_at self ps n _ = False"

lemma consumer_at_frame:
  assumes "\<And>q. q \<in> set ps \<Longrightarrow> gpcs n' ! q = gpcs n ! q \<and> got n' ! q = got n ! q"
  shows "consumer_at k ps n' th = consumer_at k ps n th"
proof -
  have "gpcs n' ! (ps ! d) = gpcs n ! (ps ! d) \<and> got n' ! (ps ! d) = got n ! (ps ! d)" if "d < length ps" for d
    using assms that by simp
  then have "at_cell ps n' i c = at_cell ps n i c" for i c
    by (auto simp: at_cell_def)
  then show ?thesis using \<open>\<And>d. d < length ps \<Longrightarrow> _ d\<close> by (cases th) auto
qed

text \<open>The list of a consumer's cells as the links give it.\<close>

lemma seg_next:
  "seg m pr p ps e \<Longrightarrow> c < length ps \<Longrightarrow>
   \<exists>x. prod_at m (ps ! c) = Inr x \<and> p_next x = (if Suc c < length ps then ps ! Suc c else e)"
proof (induction ps arbitrary: pr p c)
  case (Cons q qs)
  then obtain x where x: "prod_at m q = Inr x" "seg m q (p_next x) qs e" by (auto split: sum.splits)
  show ?case
  proof (cases c)
    case 0
    then show ?thesis using x by (cases qs) auto
  next
    case (Suc d)
    then show ?thesis using Cons.IH [OF x(2), of d] Cons.prems(2) by auto
  qed
qed simp

lemma linked_next:
  assumes "linked m k ps" "c < length ps"
  obtains x where "prod_at m (ps ! c) = Inr x" "p_next x = (if Suc c < length ps then ps ! Suc c else NULL)"
  using seg_next [of m NULL "s_prod_head (streams m ! k)" ps NULL c] assms unfolding linked_def by blast

lemma linked_head: "linked m k ps \<Longrightarrow> s_prod_head (streams m ! k) = (case ps of [] \<Rightarrow> NULL | p # _ \<Rightarrow> p)"
  by (cases ps) (auto simp: linked_def)

lemma linked_cell: "linked m k ps \<Longrightarrow> p \<in> set ps \<Longrightarrow> p \<noteq> NULL"
  using seg_cells [of m NULL "s_prod_head (streams m ! k)" ps NULL p] by (auto simp: linked_def prod_at_Inr)

text \<open>A turn of a consumer inside \<open>get\<close>.\<close>

lemma at_cell_step:
  assumes "at_cell ps n i c" "get_step (ps ! c) n n'" "distinct ps"
  shows "if gpcs n ! (ps ! c) = GUnlock
    then (\<forall>d < length ps. gpcs n' ! (ps ! d) = GIdle \<and> length (got n' ! (ps ! d)) = (if d < Suc c then i + 1 else i))
    else at_cell ps n' i c"
proof -
  have c: "c < length ps" "d < length ps \<Longrightarrow> d \<noteq> c \<Longrightarrow> gpcs n ! (ps ! d) = GIdle"
    "d < length ps \<Longrightarrow> length (received (gpcs n ! (ps ! d)) (got n ! (ps ! d))) = (if d < c then i + 1 else i)" for d
    using assms(1) by (auto simp: at_cell_def)
  have other: "ps ! d \<noteq> ps ! c" if "d < length ps" "d \<noteq> c" for d using that c(1) assms(3) by (simp add: nth_eq_iff_index_eq)
  show ?thesis
  proof (cases "gpcs n ! (ps ! c) = GUnlock")
    case True
    note ret = get_step_return [OF assms(2) True]
    have "gpcs n' ! (ps ! d) = GIdle \<and> length (got n' ! (ps ! d)) = (if d < Suc c then i + 1 else i)" if d: "d < length ps" for d
    proof (cases "d = c")
      case True
      then show ?thesis using ret(1) arg_cong [OF ret(2), of length] c(3) [OF c(1)] by simp
    next
      case False
      then show ?thesis using ret(5,6) [OF other [OF d False]] c(2,3) [OF d] by simp
    qed
    then show ?thesis using True by simp
  next
    case False
    note inside = get_step_inside [OF assms(2) False]
    have "gpcs n' ! (ps ! d) = GIdle" if "d < length ps" "d \<noteq> c" for d using inside(5) [OF other [OF that]] c(2) that by simp
    moreover have "length (received (gpcs n' ! (ps ! d)) (got n' ! (ps ! d))) = (if d < c then i + 1 else i)" if d: "d < length ps" for d
      using inside(2,5,6) other [OF d] c(3) [OF d] by (cases "d = c") simp_all
    ultimately show ?thesis using False inside(1) c(1) by (simp add: at_cell_def)
  qed
qed

lemma at_cellI:
  assumes "c < length ps" "\<And>d. d < length ps \<Longrightarrow> gpcs n ! (ps ! d) = GIdle \<and> length (got n ! (ps ! d)) = (if d < c then i + 1 else i)"
  shows "at_cell ps n i c"
  using assms by (simp add: at_cell_def)

lemma consumer_at_get:
  assumes "consumer_at k ps n th" "next_call th = CGet q" "get_step q n n'" "linked m k ps"
  shows "if gpcs n ! q = GUnlock then \<exists>th1. after_call m th v = Inr th1 \<and> consumer_at k ps n' th1
    else consumer_at k ps n' th"
proof -
  obtain i c where th: "th = Consumer k i q" "i < 10" "at_cell ps n i c" "q = ps ! c"
    using assms(1,2) by (cases th) auto
  have "distinct ps" "c < length ps" using assms(4) th(3) by (simp_all add: linked_def at_cell_def)
  note step = at_cell_step [OF th(3) assms(3) [unfolded th(4)] this(1)]
  show ?thesis
  proof (cases "gpcs n ! q = GUnlock")
    case True
    with step th(4) have got: "\<And>d. d < length ps \<Longrightarrow> gpcs n' ! (ps ! d) = GIdle \<and> length (got n' ! (ps ! d)) = (if d < Suc c then i + 1 else i)"
      by simp
    obtain x where x: "prod_at m q = Inr x" "p_next x = (if Suc c < length ps then ps ! Suc c else NULL)"
      using linked_next [OF assms(4) \<open>c < length ps\<close>] th(4) by blast
    show ?thesis
    proof (cases "Suc c < length ps")
      case More: True
      then have "ps ! Suc c \<noteq> NULL" using linked_cell [OF assms(4)] by simp
      moreover have "at_cell ps n' i (Suc c)" by (rule at_cellI [OF More got])
      ultimately show ?thesis using True x More th(1,2) by auto
    next
      case False
      then have done_all: "\<And>d. d < length ps \<Longrightarrow> gpcs n' ! (ps ! d) = GIdle \<and> length (got n' ! (ps ! d)) = i + 1"
        using got by simp
      obtain p where p: "s_prod_head (streams m ! k) = ps ! 0" "ps ! 0 \<noteq> NULL"
        using linked_head [OF assms(4)] linked_cell [OF assms(4), of "ps ! 0"] \<open>c < length ps\<close> by (cases ps) auto
      have "at_cell ps n' (i + 1) 0" by (rule at_cellI) (use done_all \<open>c < length ps\<close> in auto)
      then show ?thesis using True x False th(1,2) p done_all by (auto simp: Let_def)
    qed
  next
    case False
    then show ?thesis using step th by auto
  qed
qed

section \<open>The program\<close>

text \<open>\<open>S\<close> successors and \<open>K\<close> consumers, connected by \<open>cs\<close>: the successors are the threads and the streams below \<open>S\<close>.\<close>

definition connects :: "nat \<Rightarrow> nat \<Rightarrow> (nat \<times> nat) list \<Rightarrow> bool" where
  "connects S K cs \<longleftrightarrow> set cs \<subseteq> {S..<S + K} \<times> {..<S} \<and> length cs \<le> 9999"

definition test_inv :: "nat \<Rightarrow> nat \<Rightarrow> (nat \<times> nat) list \<Rightarrow> world \<Rightarrow> bool" where
  "test_inv S K cs w \<longleftrightarrow> (let n = network w in
     length (threads w) = S + K \<and> length (streams (mem n)) = S + K \<and> length (ppcs n) = S + K \<and> length (sent n) = S + K \<and>
     length (prods (mem n)) = Suc (length cs) \<and> length (gpcs n) = Suc (length cs) \<and> length (got n) = Suc (length cs) \<and>
     (\<forall>j < S. successor_ok j n (threads w ! j)) \<and>
     (\<forall>k \<in> {S..<S + K}. linked (mem n) k (cells_for cs k) \<and> consumer_at k (cells_for cs k) n (threads w ! k)) \<and>
     (\<forall>j \<in> snd ` set cs. many_inv j n) \<and>
     (\<forall>j. cells_of j (mem n) = Suc ` {q. q < length cs \<and> snd (cs ! q) = j}))"

definition all_calm :: "(nat \<times> nat) list \<Rightarrow> world \<Rightarrow> bool" where
  "all_calm cs w \<longleftrightarrow> (\<forall>j \<in> snd ` set cs. calm j (network w))"

lemma after_call_successor: "successor_ok s n th \<Longrightarrow> next_call th = CGet p \<Longrightarrow> False"
  using calls_of(2) by blast

lemma consumer_calls:
  "consumer_at k ps n th \<Longrightarrow> next_call th \<noteq> CPut s v"
  "consumer_at k ps n th \<Longrightarrow> next_call th = CGet q \<Longrightarrow> q \<in> set ps \<and> in_get (gpcs n ! q) (got n ! q)"
  by (cases th; auto simp: at_cell_def)+

lemma test_inv_turn:
  assumes turn: "thread_turn t w = Inr (Some w')" "t < length (threads w)" and inv: "test_inv S K cs w" and calm: "all_calm cs w"
  shows "test_inv S K cs w'"
proof -
  let ?n = "network w" and ?n1 = "network w'"
  have len: "length (threads w) = S + K" "length (streams (mem ?n)) = S + K" "length (ppcs ?n) = S + K" "length (sent ?n) = S + K"
    "length (prods (mem ?n)) = Suc (length cs)" "length (gpcs ?n) = Suc (length cs)" "length (got ?n) = Suc (length cs)"
    and succ: "\<And>j. j < S \<Longrightarrow> successor_ok j ?n (threads w ! j)"
    and cons: "\<And>k. k \<in> {S..<S + K} \<Longrightarrow> linked (mem ?n) k (cells_for cs k) \<and> consumer_at k (cells_for cs k) ?n (threads w ! k)"
    and many: "\<And>j. j \<in> snd ` set cs \<Longrightarrow> many_inv j ?n"
    and cells: "\<And>j. cells_of j (mem ?n) = Suc ` {q. q < length cs \<and> snd (cs ! q) = j}"
    using inv unfolding test_inv_def Let_def by blast+
  from turn(1) show ?thesis
  proof (cases rule: thread_turn_cases)
    case (get q n1)
    have t: "t \<in> {S..<S + K}"
    proof (rule ccontr)
      assume "t \<notin> {S..<S + K}"
      then have "t < S" using turn(2) len(1) by auto
      from calls_of(2) [OF succ [OF this], of q] get(1) show False by simp
    qed
    have q: "q \<in> set (cells_for cs t)" "in_get (gpcs ?n ! q) (got ?n ! q)" using consumer_calls(2) cons [OF t] get(1) by blast+
    then have ql: "q < length (gpcs ?n)" using len(6) by (auto simp: cells_for_set)
    have step: "get_step q ?n n1"
      unfolding get_step_def by (rule get_next_call [OF get(2) ql _ _ q(2)]) (simp_all add: len)
    have same: "ppcs n1 = ppcs ?n" "sent n1 = sent ?n" "\<And>r. r \<noteq> q \<Longrightarrow> gpcs n1 ! r = gpcs ?n ! r \<and> got n1 ! r = got ?n ! r"
      using step by (simp_all add: get_step_def)
    have wires: "wiring (mem n1) = wiring (mem ?n)" by (rule wiring_get [OF get(2)])
    have link: "linked (mem n1) k (cells_for cs k)" if "k \<in> {S..<S + K}" for k
      using cons [OF that] that wiring_linked [OF wires] len(2) by simp
    obtain th1 where th1: "threads w' = (threads w)[t := th1]" "consumer_at t (cells_for cs t) n1 th1"
      using thread_result [OF get(4), of "consumer_at t (cells_for cs t) n1"]
        consumer_at_get [OF conjunct2 [OF cons [OF t]] get(1) step link [OF t]] by blast
    have "consumer_at k (cells_for cs k) n1 (threads w' ! k)" if k: "k \<in> {S..<S + K}" for k
    proof (cases "k = t")
      case True
      then show ?thesis using th1 turn(2) by simp
    next
      case False
      then have "r \<noteq> q" if "r \<in> set (cells_for cs k)" for r using cells_for_disjoint [OF that, of t] q(1) by blast
      then have "consumer_at k (cells_for cs k) n1 (threads w ! k) = consumer_at k (cells_for cs k) ?n (threads w ! k)"
        using same(3) by (intro consumer_at_frame) blast
      then show ?thesis using cons [OF k] th1(1) False by simp
    qed
    moreover have "successor_ok j n1 (threads w' ! j)" if "j < S" for j
      using succ [OF that] frames(1) [of n1 j ?n "threads w ! j"] same(1,2) th1(1) t that by simp
    moreover have "many_inv j n1" if "j \<in> snd ` set cs" for j
      using many_inv_get [OF get(2) ql many [OF that]] calm that by (auto simp: all_calm_def)
    moreover have "length (gpcs n1) = length (gpcs ?n)" "length (got n1) = length (got ?n)"
      using get(2) by (auto simp: get_next_def bindE_Inr_iff split: option.splits)
    ultimately show ?thesis unfolding test_inv_def Let_def get(3)
      using len same(1,2) wiring_length [OF wires] link wiring_cells [OF wires] cells th1(1) by simp
  next
    case (put s v n1)
    have t: "t < S"
    proof (rule ccontr)
      assume "\<not> t < S"
      then have "t \<in> {S..<S + K}" using turn(2) len(1) by auto
      from cons [OF this] consumer_calls(1) put(1) show False by blast
    qed
    have s: "s = t" "in_put (ppcs ?n ! s) (sent ?n ! s) v" using calls_of(1) [OF succ [OF t] put(1)] by auto
    have sl: "s < length (ppcs ?n)" "s < length (sent ?n)" using s(1) t len by simp_all
    have step: "put_step s v ?n n1" unfolding put_step_def by (rule put_next_call [OF put(2) sl s(2)])
    have same: "gpcs n1 = gpcs ?n" "got n1 = got ?n" "\<And>r. r \<noteq> s \<Longrightarrow> ppcs n1 ! r = ppcs ?n ! r \<and> sent n1 ! r = sent ?n ! r"
      using step by (simp_all add: put_step_def)
    have wires: "wiring (mem n1) = wiring (mem ?n)" by (rule wiring_put [OF put(2)])
    have link: "linked (mem n1) k (cells_for cs k)" if "k \<in> {S..<S + K}" for k
      using cons [OF that] that wiring_linked [OF wires] len(2) by simp
    obtain th1 where th1: "threads w' = (threads w)[t := th1]" "successor_ok t n1 th1"
      using thread_result [OF put(4), of "successor_ok t n1"] successor_put [OF succ [OF t] put(1) step, of "mem n1"] by auto
    have "successor_ok j n1 (threads w' ! j)" if "j < S" for j
      using succ [OF that] frames(1) [of n1 j ?n "threads w ! j"] same(3) [of j] th1 turn(2) s(1) by (cases "j = t") simp_all
    moreover have "consumer_at k (cells_for cs k) n1 (threads w' ! k)" if k: "k \<in> {S..<S + K}" for k
      using cons [OF k] consumer_at_frame [of "cells_for cs k" n1 ?n k "threads w ! k"] same(1,2) th1(1) t k by simp
    moreover have "many_inv j n1" if "j \<in> snd ` set cs" for j by (rule many_inv_put [OF put(2) sl(1) many [OF that]])
    moreover have "length (ppcs n1) = length (ppcs ?n)" "length (sent n1) = length (sent ?n)"
      using put(2) by (auto simp: put_next_def split: option.splits)
    ultimately show ?thesis unfolding test_inv_def Let_def put(3)
      using len same(1,2) wiring_length [OF wires] link wiring_cells [OF wires] cells th1(1) by simp
  qed
qed

lemma test_start_inv:
  assumes start: "start_test S K cs raw = Inr w" and cs: "connects S K cs" and raw: "length raw = S + K"
    and buf: "\<And>r. r \<in> set raw \<Longrightarrow> length (s_buffer r) = 5"
  shows "test_inv S K cs w"
proof -
  have set: "set cs \<subseteq> {..<length raw} \<times> {..<length raw}" using cs raw by (fastforce simp: connects_def)
  obtain m where m: "connect_all cs (initialised raw) = Inr m" "built cs raw m" using connect_all_built [OF set] by blast
  let ?ths = "map start_successor [0..<S] @ map (start_consumer m) [S..<S + K]"
  have w: "w = \<lparr>network = idle_net m, threads = ?ths\<rparr>" using start m(1) by (simp add: start_test_def)
  have len: "length (streams m) = S + K" "length (prods m) = Suc (length cs)" using m(2) raw by (simp_all add: built_def)
  have succ: "successor_ok j (idle_net m) (?ths ! j)" if "j < S" for j
    using that len by (simp add: nth_append start_successor_def idle_net_def)
  have link: "linked m k (cells_for cs k)" if "k \<in> {S..<S + K}" for k using m(2) that raw by (simp add: built_def)
  have "consumer_at k (cells_for cs k) (idle_net m) (?ths ! k)" if k: "k \<in> {S..<S + K}" for k
  proof -
    have idle: "gpcs (idle_net m) ! (cells_for cs k ! d) = GIdle \<and> got (idle_net m) ! (cells_for cs k ! d) = []"
      if "d < length (cells_for cs k)" for d
    proof -
      have "cells_for cs k ! d \<in> set (cells_for cs k)" using that by simp
      then have "cells_for cs k ! d < length (prods m)" using len(2) by (auto simp: cells_for_set)
      then show ?thesis by (simp add: idle_net_def)
    qed
    have "k - S < K" "S + (k - S) = k" using k by auto
    then have th: "?ths ! k = start_consumer m k" by (simp add: nth_append)
    show ?thesis
    proof (cases "cells_for cs k")
      case Nil
      then show ?thesis using th linked_head [OF link [OF k]] by (simp add: start_consumer_def)
    next
      case (Cons p ps)
      then have p: "s_prod_head (streams m ! k) = p" "p \<noteq> NULL"
        using linked_head [OF link [OF k]] linked_cell [OF link [OF k], of p] by simp_all
      have "at_cell (cells_for cs k) (idle_net m) 0 0" by (rule at_cellI) (use Cons idle in auto)
      then show ?thesis using th p Cons by (auto simp: start_consumer_def Let_def intro!: exI [of _ 0])
    qed
  qed
  moreover have "many_inv j (idle_net m)" if j: "j \<in> snd ` set cs" for j
  proof -
    have "j < length raw" using j set by auto
    then show ?thesis
      using built_connected [OF m(2) _ j] buf cs by (intro many_inv_idle) (simp add: connects_def)
  qed
  ultimately show ?thesis using succ link len built_cells [OF m(2)] by (simp add: test_inv_def w) (simp add: idle_net_def)
qed

text \<open>Runs in which no consumer is ever five tokens ahead of another one on the same stream.\<close>

inductive test_reach :: "(nat \<times> nat) list \<Rightarrow> world \<Rightarrow> world \<Rightarrow> bool" for cs where
  test_start: "test_reach cs w w"
| test_turn: "test_reach cs w0 w \<Longrightarrow> all_calm cs w \<Longrightarrow> t < length (threads w) \<Longrightarrow> thread_turn t w = Inr (Some w') \<Longrightarrow>
    test_reach cs w0 w'"

lemma test_inv_reach: "test_reach cs w0 w \<Longrightarrow> test_inv S K cs w0 \<Longrightarrow> test_inv S K cs w"
  by (induction rule: test_reach.induct) (auto intro: test_inv_turn)

text \<open>With one consumer per stream every run is such a run.\<close>

lemma sole_calm:
  assumes "test_inv S K cs w" "distinct (map snd cs)"
  shows "all_calm cs w"
proof -
  have "calm j (network w)" if "j \<in> snd ` set cs" for j
  proof -
    obtain q where q: "q < length cs" "snd (cs ! q) = j" using \<open>j \<in> snd ` set cs\<close> by (metis imageE in_set_conv_nth)
    have "q' = q" if "q' < length cs" "snd (cs ! q') = j" for q'
      using assms(2) that q by (simp add: distinct_conv_nth) metis
    then have "{q. q < length cs \<and> snd (cs ! q) = j} = {q}" using q by blast
    then have "cells_of j (mem (network w)) = {Suc q}" using assms(1) by (simp add: test_inv_def Let_def)
    then show ?thesis by (rule calm_single)
  qed
  then show ?thesis by (simp add: all_calm_def)
qed

lemma sole_reach: "world_reach w0 w \<Longrightarrow> test_inv S K cs w0 \<Longrightarrow> distinct (map snd cs) \<Longrightarrow> test_inv S K cs w"
proof (induction rule: world_reach.induct)
  case (world_turn w0 w t w')
  then have "test_inv S K cs w" by blast
  then show ?case using test_inv_turn [OF world_turn.hyps(3,2)] sole_calm world_turn.prems(2) by blast
qed simp

section \<open>What the consumers receive\<close>

lemma at_cell_length:
  assumes "at_cell ps n i c" "d < length ps"
  shows "length (got n ! (ps ! d)) = (if d < c then i + 1 else i) \<or> d = c \<and> length (got n ! (ps ! d)) = i + 1"
proof (cases "d = c")
  case True
  then have "length (received (gpcs n ! (ps ! d)) (got n ! (ps ! d))) = i" using assms by (simp add: at_cell_def)
  moreover have "in_get (gpcs n ! (ps ! d)) (got n ! (ps ! d))" using assms(1) True by (simp add: at_cell_def)
  ultimately show ?thesis using True by (auto simp: received_def in_get_def split: if_splits)
next
  case False
  then have "gpcs n ! (ps ! d) = GIdle" "length (received (gpcs n ! (ps ! d)) (got n ! (ps ! d))) = (if d < c then i + 1 else i)"
    using assms unfolding at_cell_def by blast+
  then show ?thesis by simp
qed

text \<open>A consumer goes round its producers: the later ones are at most one token behind.\<close>

lemma consumer_rounds:
  assumes "consumer_at k ps n th" "d < e" "e < length ps"
  shows "length (got n ! (ps ! e)) \<le> length (got n ! (ps ! d)) \<and> length (got n ! (ps ! d)) \<le> length (got n ! (ps ! e)) + 1"
proof (cases th)
  case (Consumer k' i p)
  then obtain c where c: "at_cell ps n i c" using assms(1) by auto
  show ?thesis using at_cell_length [OF c, of d] at_cell_length [OF c, of e] assms(2,3) by (auto split: if_splits)
qed (use assms in simp_all)

lemma consumer_count:
  assumes "consumer_at k ps n th" "d < length ps"
  shows "length (got n ! (ps ! d)) \<le> 10" "th = Exited \<Longrightarrow> length (got n ! (ps ! d)) = 10"
proof -
  show "length (got n ! (ps ! d)) \<le> 10"
  proof (cases th)
    case (Consumer k' i p)
    then obtain c where "at_cell ps n i c" "i < 10" using assms(1) by auto
    then show ?thesis using at_cell_length [of ps n i c d] assms(2) by (auto split: if_splits)
  qed (use assms in simp_all)
  show "th = Exited \<Longrightarrow> length (got n ! (ps ! d)) = 10" using assms by simp
qed

lemma test_cell:
  assumes inv: "test_inv S K cs w" and cs: "connects S K cs" and q: "q < length cs"
  shows "got (network w) ! Suc q = [1..int (length (got (network w) ! Suc q))]" "length (got (network w) ! Suc q) \<le> 10"
    "joined S w \<Longrightarrow> length (got (network w) ! Suc q) = 10"
proof -
  let ?n = "network w" and ?k = "fst (cs ! q)" and ?j = "snd (cs ! q)"
  have "cs ! q \<in> {S..<S + K} \<times> {..<S}" using cs q unfolding connects_def by (meson nth_mem subsetD)
  then have kj: "?k \<in> {S..<S + K}" "?j < S" by (auto simp: mem_Times_iff)
  have "many_inv ?j ?n" "successor_ok ?j ?n (threads w ! ?j)" "Suc q \<in> cells_of ?j (mem ?n)"
    using inv q kj(2) by (simp_all add: test_inv_def Let_def)
  then show "got ?n ! Suc q = [1..int (length (got ?n ! Suc q))]" by (rule successor_cells)
  have "Suc q \<in> set (cells_for cs ?k)" using q by (auto simp: cells_for_set)
  then obtain d where d: "d < length (cells_for cs ?k)" "cells_for cs ?k ! d = Suc q" by (metis in_set_conv_nth)
  have at: "consumer_at ?k (cells_for cs ?k) ?n (threads w ! ?k)" "?k < length (threads w)"
    using inv kj(1) by (simp_all add: test_inv_def Let_def)
  show "length (got ?n ! Suc q) \<le> 10" using consumer_count(1) [OF at(1) d(1)] d(2) by simp
  assume "joined S w"
  moreover have "threads w ! ?k \<in> set (drop S (threads w))"
    using kj(1) at(2) by (auto simp: in_set_conv_nth intro!: exI [of _ "?k - S"])
  ultimately have "threads w ! ?k = Exited" by (simp add: joined_def)
  then show "length (got ?n ! Suc q) = 10" using consumer_count(2) [OF at(1) d(1)] d(2) by simp
qed


text \<open>What the consumer of \<open>many_to_one.c\<close> receives, under every schedule: from each of its three successors the first of the
  numbers 1 to 10, taking one token of each in turn, and all of them when it exits.\<close>

theorem many_to_one_delivers:
  assumes "many_to_one raw = Inr w0" "length raw = 4" "\<And>r. r \<in> set raw \<Longrightarrow> length (s_buffer r) = 5" "world_reach w0 w"
  shows "prefix (got (network w) ! 1) [1..10] \<and> prefix (got (network w) ! 2) (got (network w) ! 1) \<and>
     prefix (got (network w) ! 3) (got (network w) ! 2) \<and> length (got (network w) ! 1) \<le> length (got (network w) ! 3) + 1 \<and>
     (joined 3 w \<longrightarrow> got (network w) ! 1 = [1..10] \<and> got (network w) ! 2 = [1..10] \<and> got (network w) ! 3 = [1..10])"
proof -
  let ?cs = "[(3, 0), (3, 1), (3, 2)] :: (nat \<times> nat) list" and ?n = "network w"
  have cs: "connects 3 1 ?cs" "distinct (map snd ?cs)" by (simp_all add: connects_def)
  have start: "start_test 3 1 ?cs raw = Inr w0" using assms(1) by (simp add: many_to_one_def)
  have "test_inv 3 1 ?cs w0" by (rule test_start_inv [OF start cs(1) _ assms(3)]) (simp_all add: assms(2))
  from sole_reach [OF assms(4) this cs(2)] have inv: "test_inv 3 1 ?cs w" .
  have cells: "cells_for ?cs 3 = [1, 2, 3]" by (simp add: cells_for_def)
  have "consumer_at 3 (cells_for ?cs 3) ?n (threads w ! 3)"
    using inv [unfolded test_inv_def Let_def] by (elim conjE) (drule bspec [of "{3..<3 + 1}" _ 3], simp_all)
  then have "consumer_at 3 [1, 2, 3] ?n (threads w ! 3)" by (simp only: cells)
  from consumer_rounds [OF this, of 0 1] consumer_rounds [OF this, of 1 2] consumer_rounds [OF this, of 0 2]
  have len: "length (got ?n ! 2) \<le> length (got ?n ! 1)" "length (got ?n ! 3) \<le> length (got ?n ! 2)"
    "length (got ?n ! 1) \<le> length (got ?n ! 3) + 1" by simp_all
  note c1 = test_cell [OF inv cs(1), of 0] and c2 = test_cell [OF inv cs(1), of 1] and c3 = test_cell [OF inv cs(1), of 2]
  have got: "got ?n ! p = [1..int (length (got ?n ! p))]" if "p \<in> {1, 2, 3}" for p
    using that c1(1) c2(1) c3(1) by (auto simp: numeral_2_eq_2 numeral_3_eq_3)
  have pre: "prefix (got ?n ! p) (got ?n ! q)" if "p \<in> {1, 2, 3}" "q \<in> {1, 2, 3}" "length (got ?n ! p) \<le> length (got ?n ! q)" for p q
    using got [OF that(1)] got [OF that(2)] upto_prefix [of "int (length (got ?n ! p))" "int (length (got ?n ! q))"] that(3)
    by (metis of_nat_le_iff)
  have "prefix (got ?n ! 1) [1..10]" using got [of 1] c1(2) upto_prefix [of "int (length (got ?n ! 1))" 10] by simp
  moreover have "got ?n ! p = [1..10]" if "joined 3 w" "p \<in> {1, 2, 3}" for p
  proof -
    have "length (got ?n ! p) = 10"
      using that(2) c1(3) [OF _ that(1)] c2(3) [OF _ that(1)] c3(3) [OF _ that(1)] by (auto simp: numeral_2_eq_2 numeral_3_eq_3)
    then show ?thesis using got [OF that(2)] by simp
  qed
  ultimately show ?thesis using pre len by simp
qed

section \<open>Runs\<close>

text \<open>Runs in which no cell has five tokens yet.\<close>

fun run_short :: "nat list \<Rightarrow> world \<Rightarrow> world option" where
  "run_short [] w = Some w"
| "run_short (t # ts) w = (if short (network w) then case run_threads [t] w of None \<Rightarrow> None | Some w1 \<Rightarrow> run_short ts w1 else None)"

lemma run_short_reach: "run_short ts w = Some w' \<Longrightarrow> test_reach cs w0 w \<Longrightarrow> test_reach cs w0 w'"
proof (induction ts arbitrary: w)
  case (Cons t ts)
  obtain w1 where w1: "short (network w)" "t < length (threads w)" "thread_turn t w = Inr (Some w1)" "run_short ts w1 = Some w'"
    using Cons.prems(1) by (auto split: if_splits option.splits sum.splits)
  have "all_calm cs w" using short_calm [OF w1(1)] by (simp add: all_calm_def)
  from Cons.IH [OF w1(4) test_turn [OF Cons.prems(2) this w1(2,3)]] show ?case .
qed simp

definition one_to_many_world :: world where
  "one_to_many_world = (case one_to_many (replicate 4 raw_stream) of Inr w \<Rightarrow> w)"


text \<open>The first thread that need not wait takes a turn.\<close>

fun first_turn :: "nat list \<Rightarrow> world \<Rightarrow> world option" where
  "first_turn [] w = None"
| "first_turn (t # ts) w = (case thread_turn t w of Inr (Some w1) \<Rightarrow> Some w1 | _ \<Rightarrow> first_turn ts w)"

fun run_first :: "nat \<Rightarrow> world \<Rightarrow> world" where
  "run_first 0 w = w"
| "run_first (Suc n) w = (case first_turn [0..<length (threads w)] w of None \<Rightarrow> w | Some w1 \<Rightarrow> run_first n w1)"

lemma first_turn_reach:
  "first_turn ts w = Some w1 \<Longrightarrow> set ts \<subseteq> {..<length (threads w)} \<Longrightarrow> world_reach w0 w \<Longrightarrow> world_reach w0 w1"
  by (induction ts) (auto split: sum.splits option.splits intro: world_turn)

lemma run_first_reach: "world_reach w0 w \<Longrightarrow> world_reach w0 (run_first n w)"
proof (induction n arbitrary: w)
  case (Suc n)
  show ?case
  proof (cases "first_turn [0..<length (threads w)] w")
    case (Some w1)
    then have "world_reach w0 w1" by (rule first_turn_reach) (use Suc.prems in auto)
    then show ?thesis using Suc.IH Some by simp
  qed (use Suc.prems in simp)
qed simp

definition many_to_one_world :: world where
  "many_to_one_world = (case many_to_one (replicate 4 raw_stream) of Inr w \<Rightarrow> w)"

theorem many_to_one_delivers_witness:
  "\<exists>w. world_reach many_to_one_world w \<and> joined 3 w \<and> got (network w) ! 3 = [1..10]"
proof -
  have start: "many_to_one (replicate 4 raw_stream) = Inr many_to_one_world" by code_simp
  let ?w = "run_first 700 many_to_one_world"
  have fin: "joined 3 ?w" by code_simp
  have reach: "world_reach many_to_one_world ?w" by (rule run_first_reach [OF world_start])
  have buf: "length (s_buffer r) = 5" if "r \<in> set (replicate 4 raw_stream)" for r using that by (simp add: raw_stream_def)
  have "length (replicate 4 raw_stream) = 4" by simp
  from many_to_one_delivers [OF start this buf reach] fin reach show ?thesis by blast
qed

text \<open>Without connections the consumers exit at once.\<close>

lemma no_connections_joined: "no_connections raw = Inr w \<Longrightarrow> length raw = 4 \<Longrightarrow> joined 1 w"
  by (auto simp: no_connections_def start_test_def initialised_def joined_def start_consumer_def init_stream_def Let_def nth_append)

end
