(* ===== verification/Streams_Joins.thy ===== *)
theory Streams_Joins
  imports Streams_Endings Streams_Tests_Props
begin

text \<open>
  How the test programs with \<open>consumer\<close> threads end: as long as the consumers of a stream stay within five tokens of each other
  they never block each other, and when threads only wake up by signals and every successor has one or two consumers,
  \<open>main\<close> joins the consumers after a bounded number of turns.
\<close>

section \<open>The threads of a test as a program on streams\<close>

definition test_good :: "nat \<Rightarrow> nat \<Rightarrow> (nat \<times> nat) list \<Rightarrow> world \<Rightarrow> bool" where
  "test_good S K cs w \<longleftrightarrow> connects S K cs \<and> snd ` set cs = {..<S} \<and> test_inv S K cs w \<and> (\<forall>s < S. owned s (network w))"

text \<open>Every successor has at most two consumers.\<close>

definition two_readers :: "(nat \<times> nat) list \<Rightarrow> bool" where
  "two_readers cs \<longleftrightarrow> list_all (\<lambda>c. length (filter (\<lambda>d. snd d = snd c) cs) \<le> 2) cs"

lemma test_goodD:
  assumes "test_good S K cs w"
  shows "connects S K cs" "test_inv S K cs w" "length (threads w) = S + K" "length (prods (mem (network w))) = Suc (length cs)"
    "length (gpcs (network w)) = Suc (length cs)" "length (sent (network w)) = S + K"
    "\<And>s. s < S \<Longrightarrow> owned s (network w)" "\<And>s. s < S \<Longrightarrow> successor_ok s (network w) (threads w ! s)"
    "\<And>k. S \<le> k \<Longrightarrow> k < S + K \<Longrightarrow> consumer_at k (cells_for cs k) (network w) (threads w ! k)"
    "\<And>s. s < S \<Longrightarrow> many_inv s (network w)" "\<And>s. cells_of s (mem (network w)) = Suc ` {q. q < length cs \<and> snd (cs ! q) = s}"
proof -
  have set: "snd ` set cs = {..<S}" and inv: "test_inv S K cs w" and con: "connects S K cs" and own: "\<forall>s < S. owned s (network w)"
    using assms unfolding test_good_def by blast+
  show "connects S K cs" "test_inv S K cs w" "\<And>s. s < S \<Longrightarrow> owned s (network w)" by (use con inv own in blast)+
  note all = inv [unfolded test_inv_def Let_def set]
  show "length (threads w) = S + K" "length (prods (mem (network w))) = Suc (length cs)"
    "length (gpcs (network w)) = Suc (length cs)" "length (sent (network w)) = S + K"
    "\<And>s. s < S \<Longrightarrow> successor_ok s (network w) (threads w ! s)"
    "\<And>s. cells_of s (mem (network w)) = Suc ` {q. q < length cs \<and> snd (cs ! q) = s}" using all by blast+
  show "consumer_at k (cells_for cs k) (network w) (threads w ! k)" if "S \<le> k" "k < S + K" for k
  proof -
    have "k \<in> {S..<S + K}" using that by simp
    with all show ?thesis by blast
  qed
  show "many_inv s (network w)" if "s < S" for s
  proof -
    have "s \<in> {..<S}" using that by simp
    with all show ?thesis by blast
  qed
qed

text \<open>The consumer of a connection, and its list.\<close>

lemma connection:
  assumes "connects S K cs" "q < length cs"
  shows "S \<le> fst (cs ! q)" "fst (cs ! q) < S + K" "snd (cs ! q) < S" "Suc q \<in> set (cells_for cs (fst (cs ! q)))"
proof -
  have "cs ! q \<in> {S..<S + K} \<times> {..<S}" using assms unfolding connects_def by (meson nth_mem subsetD)
  then show "S \<le> fst (cs ! q)" "fst (cs ! q) < S + K" "snd (cs ! q) < S" by (auto simp: mem_Times_iff)
  show "Suc q \<in> set (cells_for cs (fst (cs ! q)))" using assms(2) by (auto simp: cells_for_set)
qed

lemma test_gets:
  assumes good: "test_good S K cs w" and t: "t < S + K" "next_call (threads w ! t) = CGet p"
  obtains q where "p = Suc q" "q < length cs" "fst (cs ! q) = t" "snd (cs ! q) < S" "p \<in> cells_of (snd (cs ! q)) (mem (network w))"
proof -
  have "S \<le> t"
  proof (rule ccontr)
    assume "\<not> S \<le> t"
    with calls_of(2) [OF test_goodD(8) [OF good], of t p] t(2) show False by simp
  qed
  then have "p \<in> set (cells_for cs t)" using consumer_calls(2) [OF test_goodD(9) [OF good _ t(1)] t(2)] by simp
  then obtain q where q: "q < length cs" "p = Suc q" "fst (cs ! q) = t" by (auto simp: cells_for_set)
  with that [OF q(2,1,3) connection(3) [OF test_goodD(1) [OF good] q(1)]] test_goodD(11) [OF good] show thesis by simp
qed

lemma test_puts:
  assumes good: "test_good S K cs w" and t: "t < S + K" "next_call (threads w ! t) = CPut s v"
  shows "t < S \<and> s = t"
proof -
  have "t < S"
  proof (rule ccontr)
    assume "\<not> t < S"
    with consumer_calls(1) [OF test_goodD(9) [OF good _ t(1)], of s v] t(2) show False by simp
  qed
  then show ?thesis using calls_of(1) [OF test_goodD(8) [OF good] t(2)] by simp
qed

lemma test_good_turn:
  assumes good: "test_good S K cs w" and calm: "all_calm cs w" and t: "t < S + K" "thread_turn t w = Inr (Some w')"
  shows "test_good S K cs w'"
proof -
  note d = test_goodD [OF good]
  have "owned s (network w')" if "s < S" for s
    using t(2)
  proof (cases rule: thread_turn_cases)
    case (get p n1)
    have "p < length (gpcs (network w))" using test_gets [OF good t(1) get(1)] d(5) by force
    then show ?thesis using owned_get [OF get(2) _ _ d(7) [OF that]] get(3) d(4,5) by simp
  next
    case (put s v n1)
    show ?thesis using owned_put [OF put(2) d(7) [OF that]] put(3) by simp
  qed
  then show ?thesis using test_inv_turn [OF t(2) _ d(2) calm] t(1) d(3) good by (simp add: test_good_def)
qed

text \<open>A consumer inside \<open>get\<close> of a cell is at this cell; a round takes one token from each.\<close>

lemma consumer_in_get:
  assumes "consumer_at k ps n th" "p \<in> set ps" "gpcs n ! p \<noteq> GIdle"
  shows "next_call th = CGet p"
proof -
  obtain d where d: "d < length ps" "p = ps ! d" using assms(2) by (metis in_set_conv_nth)
  show ?thesis
  proof (cases th)
    case (Consumer k' i p')
    then obtain c where "at_cell ps n i c" "p' = ps ! c" using assms(1) by auto
    then show ?thesis using d assms(3) Consumer unfolding at_cell_def by (cases "d = c") auto
  qed (use assms d in auto)
qed

lemma test_reader:
  assumes good: "test_good S K cs w" and p: "p \<in> cells_of s (mem (network w))" "gpcs (network w) ! p \<noteq> GIdle"
  shows "\<exists>t < S + K. next_call (threads w ! t) = CGet p"
proof -
  note d = test_goodD [OF good]
  obtain q where q: "q < length cs" "p = Suc q" using p(1) unfolding d(11) by blast
  note c = connection [OF d(1) q(1)]
  have "next_call (threads w ! fst (cs ! q)) = CGet p"
    using consumer_in_get [OF d(9) [OF c(1,2)] c(4)] p(2) q(2) by simp
  then show ?thesis using c(2) by blast
qed

interpretation tp: thread_program "S + K" "{..<S}" "test_good S K cs" "all_calm cs" for S K cs
proof
  show "test_good S K cs w'"
    if "test_good S K cs w" "all_calm cs w" "t < S + K" "thread_turn t w = Inr (Some w')" for w t w'
    by (rule test_good_turn [OF that])
  show "\<exists>s \<in> {..<S}. p \<in> cells_of s (mem (network w))"
    if "test_good S K cs w" "t < S + K" "next_call (threads w ! t) = CGet p" for w t p
    using test_gets [OF that] by blast
  show "\<exists>t < S + K. next_call (threads w ! t) = CGet p"
    if "test_good S K cs w" "s \<in> {..<S}" "p \<in> cells_of s (mem (network w))" "gpcs (network w) ! p \<noteq> GIdle" for w s p
    by (rule test_reader [OF that(1,3,4)])
  show "\<exists>t < S + K. \<exists>v. next_call (threads w ! t) = CPut s v"
    if "test_good S K cs w" "s \<in> {..<S}" "ppcs (network w) ! s \<noteq> PIdle" for w s
    using in_put_call(1) [OF test_goodD(8) [OF that(1)]] that(2) by (intro exI [of _ s]) simp
  show "s \<in> {..<S}" if "test_good S K cs w" "t < S + K" "next_call (threads w ! t) = CPut s v" for w t s v
    using test_puts [OF that] by simp
  show "calm s (network w)" if "test_good S K cs w" "all_calm cs w" "s \<in> {..<S}" for w s
    using that(2,3) that(1) [unfolded test_good_def] by (simp add: all_calm_def)
qed (use test_goodD in simp_all)

lemma two_readers_pair:
  assumes "two_readers cs" "test_good S K cs w"
  shows "pair (cells_of s (mem (network w)))"
proof -
  let ?Q = "{q. q < length cs \<and> snd (cs ! q) = s}"
  have "card ?Q \<le> 2"
  proof (cases "?Q = {}")
    case False
    then obtain q where q: "q < length cs" "snd (cs ! q) = s" by blast
    then have "length (filter (\<lambda>d. snd d = s) cs) \<le> 2" using assms(1) by (auto simp: two_readers_def list_all_length)
    then show ?thesis by (simp add: length_filter_conv_card)
  next
    case True
    then show ?thesis by (simp only: card.empty)
  qed
  then have two: "card (cells_of s (mem (network w))) \<le> 2" "finite (cells_of s (mem (network w)))"
    unfolding test_goodD(11) [OF assms(2)] by (simp_all add: card_image)
  have "p = q \<or> q = r \<or> p = r" if "{p, q, r} \<subseteq> cells_of s (mem (network w))" for p q r
    using card_mono [OF two(2) that] two(1) by (auto simp: card_insert_if split: if_splits)
  then show ?thesis by (simp add: pair_def)
qed

interpretation rp: pair_program "S + K" "{..<S}" "\<lambda>w. test_good S K cs w \<and> two_readers cs" "all_calm cs" for S K cs
proof (intro_locales)
  show "thread_program (S + K) {..<S} (\<lambda>w. test_good S K cs w \<and> two_readers cs) (all_calm cs)"
    by unfold_locales
      (use tp.keeps tp.number tp.lengths tp.queues tp.owners tp.near tp.gets tp.puts tp.reader tp.writer in metis)+
  show "pair_program_axioms {..<S} (\<lambda>w. test_good S K cs w \<and> two_readers cs)"
    by unfold_locales (use two_readers_pair in blast)
qed

section \<open>No deadlock\<close>

text \<open>A consumer that cannot move waits for a successor; the successor waits for a consumer that is four rounds behind.\<close>

lemma consumer_waits:
  assumes good: "test_good S K cs w" and stuck: "\<forall>t < S + K. \<not> can_move t w"
    and k: "S \<le> k" "k < S + K" "threads w ! k = Consumer k i p"
  shows "\<exists>k' i' p'. S \<le> k' \<and> k' < S + K \<and> threads w ! k' = Consumer k' i' p' \<and> i' < i"
proof -
  let ?n = "network w"
  note d = test_goodD [OF good]
  have free: "s_lock (streams (mem ?n) ! s) = None" if "s < S" for s
    using tp.holder_moves [OF good] stuck that by blast
  have call: "next_call (threads w ! k) = CGet p" using k(3) by simp
  obtain q where q: "p = Suc q" "q < length cs" "fst (cs ! q) = k" "snd (cs ! q) < S" "p \<in> cells_of (snd (cs ! q)) (mem ?n)"
    by (rule test_gets [OF good k(2) call])
  let ?s = "snd (cs ! q)"
  have waits: "length (sent ?n ! ?s) \<le> length (got ?n ! p) + 1" "gpcs ?n ! p \<noteq> GUnlock"
    using getter_waits [OF d(10) [OF q(4)] free [OF q(4)] q(5) call] stuck k(2) by simp_all
  have i: "i < 10" "length (received (gpcs ?n ! p) (got ?n ! p)) = i"
    using d(9) [OF k(1,2)] k(3) by (auto simp: at_cell_def)
  then have got: "length (got ?n ! p) = i" using waits(2) by (simp add: received_def)
  obtain v where put: "next_call (threads w ! ?s) = CPut ?s v" using in_put_call(1) [OF d(8) [OF q(4)]] by blast
  have "\<not> can_move ?s w" using stuck q(4) by simp
  from putter_waits(1) [OF d(10) [OF q(4)] free [OF q(4)] put this]
  obtain r where r: "r \<in> cells_of ?s (mem ?n)" "length (sent ?n ! ?s) = length (got ?n ! r) + 5" by blast
  then have behind: "length (got ?n ! r) + 4 \<le> i" using waits(1) got by linarith
  obtain q' where q': "q' < length cs" "r = Suc q'" using r(1) unfolding d(11) by blast
  let ?k = "fst (cs ! q')"
  note c = connection [OF d(1) q'(1)]
  note at = d(9) [OF c(1,2)]
  obtain e where e: "e < length (cells_for cs ?k)" "cells_for cs ?k ! e = r" using c(4) q'(2) by (metis in_set_conv_nth)
  show ?thesis
  proof (cases "threads w ! ?k")
    case (Consumer k' i' p')
    then obtain b where b: "at_cell (cells_for cs ?k) ?n i' b" "k' = ?k" using at by auto
    have "i' \<le> length (got ?n ! r)" using at_cell_length [OF b(1) e(1)] e(2) by (cases "e < b") auto
    then show ?thesis using c(1,2) Consumer b(2) behind by (intro exI [of _ ?k] exI [of _ i'] exI [of _ p']) simp
  next
    case Exited
    then show ?thesis using consumer_count(2) [OF at e(1)] e(2) behind i(1) by simp
  qed (use at in simp_all)
qed

lemma busy_consumer: "consumer_at k ps n th \<Longrightarrow> th \<noteq> Exited \<Longrightarrow> \<exists>i p. th = Consumer k i p"
  by (cases th) auto

lemma test_moves:
  assumes good: "test_good S K cs w" and busy: "\<not> joined S w"
  shows "\<exists>t < S + K. can_move t w"
proof (rule ccontr)
  assume "\<not> (\<exists>t < S + K. can_move t w)"
  then have stuck: "\<forall>t < S + K. \<not> can_move t w" by blast
  have none: False if "S \<le> k" "k < S + K" "threads w ! k = Consumer k i p" for k i p
    using that
  proof (induction i arbitrary: k p rule: less_induct)
    case (less i)
    from consumer_waits [OF good stuck less.prems] less.IH show False by blast
  qed
  obtain th where th: "th \<in> set (drop S (threads w))" "th \<noteq> Exited" using busy by (auto simp: joined_def)
  then obtain j where "j < K" "th = threads w ! (S + j)"
    using test_goodD(3) [OF good] by (auto simp: in_set_conv_nth)
  then have "S \<le> S + j" "S + j < S + K" "th = threads w ! (S + j)" by simp_all
  moreover from this have "\<exists>i p. th = Consumer (S + j) i p"
    using test_goodD(9) [OF good, of "S + j"] th(2) busy_consumer by simp
  ultimately show False using none by metis
qed

section \<open>The end\<close>

lemma test_moved:
  assumes good: "test_good S K cs w"
  shows "moved (Suc ` {..<length cs}) {..<S} (network w) \<le> 10 * length cs + 15 * S"
proof -
  let ?n = "network w"
  note d = test_goodD [OF good]
  have got: "length (got ?n ! Suc q) \<le> 10" if "q < length cs" for q
    by (rule test_cell(2) [OF d(2,1) that])
  have "length (sent ?n ! s) \<le> 15" if "s < S" for s
  proof -
    have "s \<in> snd ` set cs" using good that by (simp add: test_good_def)
    then obtain q where q: "q < length cs" "snd (cs ! q) = s" by (metis imageE in_set_conv_nth)
    then have "Suc q \<in> cells_of s (mem ?n)" unfolding d(11) by blast
    from many.bounded [OF d(10) [OF that] this] got [OF q(1)] show ?thesis by linarith
  qed
  then have "(\<Sum>s \<in> {..<S}. length (sent ?n ! s)) \<le> (\<Sum>s \<in> {..<S}. 15)" by (intro sum_mono) simp
  moreover have "(\<Sum>p \<in> Suc ` {..<length cs}. length (got ?n ! p)) \<le> (\<Sum>p \<in> Suc ` {..<length cs}. 10)"
    using got by (intro sum_mono) auto
  ultimately show ?thesis by (simp add: moved_def card_image)
qed

lemma test_start_good:
  assumes start: "start_test S K cs raw = Inr w0" and cs: "connects S K cs" "snd ` set cs = {..<S}" and raw: "length raw = S + K"
    "\<And>r. r \<in> set raw \<Longrightarrow> length (s_buffer r) = 5"
  shows "test_good S K cs w0" "network w0 = idle_net (mem (network w0))"
proof -
  have set: "set cs \<subseteq> {..<length raw} \<times> {..<length raw}" using cs(1) raw(1) by (fastforce simp: connects_def)
  obtain m where m: "connect_all cs (initialised raw) = Inr m" "built cs raw m" using connect_all_built [OF set] by blast
  then have net: "network w0 = idle_net m" using start by (auto simp: start_test_def)
  then show "network w0 = idle_net (mem (network w0))" by (simp add: idle_net_def)
  have "s_lock (streams m ! s) = None" if "s < S" for s
    using m(2) that raw(1) by (simp add: built_def fresh_stream_def)
  then show "test_good S K cs w0"
    using test_start_inv [OF start cs(1) raw] cs by (simp add: test_good_def net owned_free)
qed

text \<open>C32: The test programs end, for any number of successors with one or two consumers each, under every schedule in which
  no consumer gets five tokens ahead of the other one on its stream and for every choice of the threads that signals wake: no run has
  more than 84 turns for each connection and 124 for each successor; until \<open>main\<close> has joined the consumers some thread has a turn;
  and then every consumer has got exactly 1 to 10 through each of its connections.\<close>

theorem tests_end:
  assumes "start_test S K cs raw = Inr w0" "connects S K cs" "snd ` set cs = {..<S}" "length raw = S + K"
    and "\<And>r. r \<in> set raw \<Longrightarrow> length (s_buffer r) = 5" "two_readers cs"
    and "signal_run (all_calm cs) k \<lparr>program = w0, asleep = []\<rparr> z"
  shows "k \<le> 84 * length cs + 124 * S \<and>
    (all_calm cs (program z) \<and> \<not> joined S (program z) \<longrightarrow> (\<exists>t < S + K. \<exists>c z'. signal_turn t c z = Inr (Some z'))) \<and>
    (joined S (program z) \<longrightarrow> (\<forall>q < length cs. got (network (program z)) ! Suc q = [1..10]))"
proof -
  let ?z0 = "\<lparr>program = w0, asleep = []\<rparr>" and ?G = "Suc ` {..<length cs}" and ?T = "{..<S}"
  have good0: "test_good S K cs (program ?z0) \<and> two_readers cs" using test_start_good(1) [OF assms(1-5)] assms(6) by simp
  have good: "test_good S K cs (program z)" using rp.run_good [OF assms(7) good0] by blast
  have "cells_of s (mem (network w)) \<subseteq> ?G" if "test_good S K cs w \<and> two_readers cs" for w s
    using test_goodD(11) [of S K cs w] that by auto
  from rp.run_effort [OF assms(7) good0 _ _ this]
  have "effort ?G ?T (network w0) [] + k \<le> effort ?G ?T (network (program z)) (asleep z)" by simp
  moreover obtain m where net: "network w0 = idle_net m" using test_start_good(2) [OF assms(1-5)] by blast
  have "effort ?G ?T (network w0) [] = length cs + S"
    using test_goodD(4,6) [OF test_start_good(1) [OF assms(1-5)]] unfolding net
    by (subst effort_idle) (auto simp: idle_net_def card_image)
  moreover have "effort ?G ?T (network (program z)) (asleep z) \<le> 8 * moved ?G ?T (network (program z)) + 5 * (card ?G + card ?T)"
    by (rule effort_bound) simp_all
  ultimately have k: "k \<le> 84 * length cs + 124 * S" using test_moved [OF good] by (simp add: card_image)
  have att: "attentive ?T z" by (rule rp.run_attentive [OF assms(7) good0 attentive_start]) simp
  have "\<exists>t < S + K. \<exists>c z'. signal_turn t c z = Inr (Some z')" if "all_calm cs (program z)" "\<not> joined S (program z)"
    using test_moves [OF good that(2)] rp.awake_moves [OF conjI [OF good assms(6)] that(1) att] by blast
  moreover have "got (network (program z)) ! Suc q = [1..10]" if "joined S (program z)" "q < length cs" for q
    using test_cell(1,3) [OF test_goodD(2) [OF good] assms(2) that(2)] that(1) by simp
  ultimately show ?thesis using k by blast
qed

definition different_rates_world :: world where
  "different_rates_world = (case consumers_at_different_rates (replicate 3 raw_stream) of Inr w \<Rightarrow> w)"

theorem tests_end_witness:
  "\<exists>k z. signal_run (all_calm [(1, 0), (2, 0)]) k \<lparr>program = different_rates_world, asleep = []\<rparr> z \<and> k \<le> 292 \<and>
     joined 1 (program z) \<and> got (network (program z)) ! 2 = [1..10]"
proof -
  let ?cs = "[(1, 0), (2, 0)] :: (nat \<times> nat) list" and ?init = "\<lparr>program = different_rates_world, asleep = []\<rparr>"
  let ?z = "signal_first (close_pair 1 2) [2, 1, 0] 292 ?init"
  have fin: "joined 1 (program ?z)" by code_simp
  have start: "start_test 1 2 ?cs (replicate 3 raw_stream) = Inr different_rates_world" by code_simp
  have buf: "length (s_buffer r) = 5" if "r \<in> set (replicate 3 raw_stream)" for r using that by (simp add: raw_stream_def)
  have cs: "connects 1 2 ?cs" "snd ` set ?cs = {..<1}" "two_readers ?cs" by (auto simp: connects_def two_readers_def)
  obtain k where k: "signal_run (close_pair 1 2) k ?init ?z" using signal_first_run [OF signal_start [of "close_pair 1 2" ?init]] by blast
  have good: "test_good 1 2 ?cs (program ?init)" using test_start_good(1) [OF start cs(1,2) _ buf] by simp
  have "{q. q < length ?cs \<and> snd (?cs ! q) = 0} = {0, 1}" by (auto simp: less_Suc_eq)
  then have cells: "cells_of 0 (mem (network w)) = {1, 2}" if "test_good 1 2 ?cs w" for w
    using test_goodD(11) [OF that, of 0] by (simp add: numeral_2_eq_2)
  have calm: "all_calm ?cs w" if "test_good 1 2 ?cs w" "close_pair 1 2 w" for w
    using close_pair_calm [OF that(2) cells [OF that(1)]] by (simp add: all_calm_def)
  have keep: "test_good 1 2 ?cs w'" if "test_good 1 2 ?cs w" "all_calm ?cs w" "t < length (threads w)" "thread_turn t w = Inr (Some w')"
    for w t w' by (rule test_good_turn [OF that(1,2) _ that(4)]) (use that(3) test_goodD(3) [OF that(1)] in simp)
  have "signal_run (all_calm ?cs) k ?init ?z"
    by (rule conjunct1 [OF signal_run_weaken [where I = "test_good 1 2 ?cs", OF k good]]) (use calm keep in blast)+
  from tests_end [OF start cs(1,2) _ buf cs(3) this] fin this show ?thesis
    by (intro exI conjI) (auto dest: spec [of _ "Suc 0"] simp: numeral_2_eq_2)
qed

end
