(* ===== verification/Streams_Lost.thy ===== *)
theory Streams_Lost
  imports Streams_Signals Streams_Tests_Props
begin

text \<open>
  A lost signal. \<open>get\<close> and \<open>put\<close> of \<open>hw3_pthreads/streams.c\<close> signal one waiting thread, and all the readers of a
  stream wait on the same notifier: with three of them a signal can wake a reader that has to wait again while the one it was
  meant for sleeps on. This is a run of \<open>tests/one_to_many.c\<close> that ends with every thread blocked.
\<close>

text \<open>No thread has a turn: it sleeps, or its next step has to wait.\<close>

definition all_blocked :: "signalled \<Rightarrow> bool" where
  "all_blocked z \<longleftrightarrow> (let w = program z in list_all (\<lambda>t. case caller (threads w ! t) of None \<Rightarrow> True
     | Some a \<Rightarrow> a \<in> set (asleep z) \<or> (case thread_turn t w of Inr None \<Rightarrow> True | _ \<Rightarrow> False)) [0..<length (threads w)])"

lemma all_blocked_turn:
  assumes "all_blocked z" "t < length (threads (program z))"
  shows "signal_turn t c z \<noteq> Inr (Some z')"
proof
  assume "signal_turn t c z = Inr (Some z')"
  then show False
    by (rule signal_turnE) (use assms in \<open>auto simp: all_blocked_def Let_def list_all_length\<close>)
qed

text \<open>The turns of one call, with the thread its signal wakes.\<close>

definition turns :: "nat \<Rightarrow> nat \<Rightarrow> (nat \<times> agent option) list" where
  "turns k t = replicate k (t, None)"

definition whole_put :: "agent \<Rightarrow> (nat \<times> agent option) list" where
  "whole_put a = turns 4 0 @ [(0, Some a), (0, None)]"

text \<open>The consumers are the threads 1, 2 and 3 with the cells of these numbers. Consumer 2 sleeps first and is never woken.\<close>

definition losing :: "(nat \<times> agent option) list" where
  "losing = turns 4 1 @ turns 4 2 @ whole_put (Getter 1) @ turns 3 3 @ turns 2 1 @ [(1, Some (Getter 3)), (1, None)] @ turns 2 3 @
     whole_put (Getter 3) @ turns 3 1 @ turns 3 3 @ [(3, Some (Getter 1)), (3, None)] @ turns 2 1 @
     concat (replicate 3 (turns 3 3 @ whole_put (Getter 1) @ turns 3 1 @ [(1, Some (Getter 3)), (1, None)] @ turns 3 1 @
       turns 3 3 @ [(3, Some (Getter 1)), (3, None)] @ turns 2 1)) @ turns 3 3 @ turns 1 0"

text \<open>C33: A signal can be lost. In \<open>one_to_many.c\<close>, one successor with three consumers, there is a run, with the consumers never five
  tokens apart, into a state in which no thread has a turn: two consumers sleep with one token left to read, which the first wait of
  \<open>get\<close> holds back, the third sleeps with five, and the successor faces a full buffer; \<open>main\<close> waits for its consumers for ever.\<close>

theorem lost_signal:
  "\<exists>k z. signal_run (all_calm [(1, 0), (2, 0), (3, 0)]) k \<lparr>program = one_to_many_world, asleep = []\<rparr> z \<and>
     (\<nexists>t c z'. t < 4 \<and> signal_turn t c z = Inr (Some z')) \<and> \<not> joined 1 (program z) \<and>
     sent (network (program z)) ! 0 = [1, 2, 3, 4, 5] \<and>
     got (network (program z)) ! 1 = [1, 2, 3, 4] \<and> got (network (program z)) ! 2 = [] \<and> got (network (program z)) ! 3 = [1, 2, 3, 4]"
proof -
  let ?cs = "[(1, 0), (2, 0), (3, 0)] :: (nat \<times> nat) list" and ?init = "\<lparr>program = one_to_many_world, asleep = []\<rparr>"
  have "case signal_play (\<lambda>w. short (network w)) losing ?init of None \<Rightarrow> False
    | Some z \<Rightarrow> all_blocked z \<and> length (threads (program z)) = 4 \<and> \<not> joined 1 (program z) \<and>
        sent (network (program z)) ! 0 = [1, 2, 3, 4, 5] \<and> got (network (program z)) ! 1 = [1, 2, 3, 4] \<and>
        got (network (program z)) ! 2 = [] \<and> got (network (program z)) ! 3 = [1, 2, 3, 4]" by code_simp
  then obtain z where z: "signal_play (\<lambda>w. short (network w)) losing ?init = Some z" "all_blocked z" "length (threads (program z)) = 4"
    "\<not> joined 1 (program z)" "sent (network (program z)) ! 0 = [1, 2, 3, 4, 5]" "got (network (program z)) ! 1 = [1, 2, 3, 4]"
    "got (network (program z)) ! 2 = []" "got (network (program z)) ! 3 = [1, 2, 3, 4]" by (auto split: option.splits)
  have calm: "all_calm ?cs w" if "short (network w)" for w using short_calm [OF that] by (simp add: all_calm_def)
  obtain k where k: "signal_run (\<lambda>w. short (network w)) k ?init z" using signal_play_run [OF z(1) signal_start] by blast
  have "signal_run (all_calm ?cs) k ?init z"
    by (rule conjunct1 [OF signal_run_weaken [where I = "\<lambda>w. True", OF k]]) (use calm in simp_all)
  moreover have "\<nexists>t c z'. t < 4 \<and> signal_turn t c z = Inr (Some z')" using all_blocked_turn [OF z(2)] z(3) by metis
  ultimately show ?thesis using z(4-8) by blast
qed

end
