(* ===== verification/Streams_Sessions.thy ===== *)
theory Streams_Sessions
  imports Streams_Wiring Streams_Moves
begin

text \<open>
  A main thread that calls \<open>consume_single\<close> and \<open>stream_disconnect\<close> while a successor runs: an invariant of the stream and of what the
  main thread has printed, kept by every turn; the turns of \<open>stream_disconnect\<close> put together; and what \<open>consume_non_threaded.c\<close> prints
  under every schedule of the successor.
\<close>

section \<open>A consumer that leaves\<close>

text \<open>When the consumer that is furthest ahead leaves between two calls, the stream goes on serving the others.\<close>

lemma forget_count:
  assumes "finite C" "p \<in> C" "\<And>q. q \<in> C \<Longrightarrow> length (gt q) \<le> length (gt p)"
  shows "readers_of (C - {p}) gt t = readers_of C gt t - 1"
proof (cases "t < length (gt p)")
  case True
  have "{q \<in> C - {p}. t < length (gt q)} = {q \<in> C. t < length (gt q)} - {p}" by auto
  then show ?thesis using assms(1,2) True by (simp add: readers_of_def)
next
  case False
  then have "length (gt q) \<le> t" if "q \<in> C" for q using assms(3) [OF that] by simp
  then show ?thesis using readers_of_none [of C gt t] readers_of_none [of "C - {p}" gt t] by simp
qed

lemma many_forget:
  assumes ok: "many_ok j C st i g pp snt gt" and p: "p \<in> C" "C \<noteq> {p}" "g p = GIdle"
    and ahead: "\<And>q. q \<in> C \<Longrightarrow> length (gt q) \<le> length (gt p)"
  shows "many_ok j (C - {p}) (forget_consumer st) i g pp snt gt"
proof -
  have fin: "finite C" and ring: "ring_ok st snt (readers_of C gt)" and cons: "s_consumers st = int (card C)"
    using ok by (simp_all add: many_ok_def)
  have keep: "s_buffer (forget_consumer st) = s_buffer st" "s_put_idx (forget_consumer st) = s_put_idx st"
    "s_empty (forget_consumer st) = s_empty st" "s_lock (forget_consumer st) = s_lock st"
    by (simp_all add: forget_consumer_def)
  have one: "0 < card C" "card (C - {p}) = card C - 1" using fin p(1) by (auto simp: card_gt_0_iff)
  have cons': "s_consumers (forget_consumer st) = int (card (C - {p}))"
    using cons one by (simp add: forget_consumer_def)
  have count: "s_read_count (forget_consumer st) ! t = (let c = s_read_count st ! t in if c > 0 then c - 1 else c)"
    and len: "length (s_read_count (forget_consumer st)) = 5" if "t < 5" for t
    using ring that by (simp_all add: forget_consumer_def ring_ok_def Let_def)
  have "s_read_count (forget_consumer st) ! (t mod 5) = int (readers_of (C - {p}) gt t)"
    if "t < length snt" "length snt \<le> t + 5" for t
  proof -
    have "s_read_count st ! (t mod 5) = int (readers_of C gt t)" using ring that by (simp add: ring_ok_def)
    then show ?thesis using count [of "t mod 5"] forget_count [of C p gt t] fin p(1) ahead by (simp add: Let_def)
  qed
  moreover have "int (card (C - {p})) \<le> s_read_count (forget_consumer st) ! t" if "length snt \<le> t" "t < 5" for t
  proof -
    have "int (card C) \<le> s_read_count st ! t" using ring cons that by (simp add: ring_ok_def)
    then show ?thesis using count [OF that(2)] one by (simp add: Let_def)
  qed
  ultimately have "ring_ok (forget_consumer st) snt (readers_of (C - {p}) gt)"
    using ring len [of 0] by (simp add: ring_ok_def keep cons')
  moreover have "\<exists>lo. slowest (C - {p}) gt lo \<and> s_empty st + (length snt - lo) + holds_slot pp = 5"
  proof -
    obtain lo where lo: "slowest C gt lo" "s_empty st + (length snt - lo) + holds_slot pp = 5"
      using ok by (auto simp: many_ok_def)
    then obtain q where q: "q \<in> C" "length (gt q) = lo" by (auto simp: slowest_def)
    obtain r where r: "r \<in> C" "r \<noteq> p" using p(1,2) by blast
    have "\<exists>q \<in> C - {p}. length (gt q) = lo"
    proof (cases "q = p")
      case True
      then have "length (gt r) = lo" using q ahead [OF r(1)] lo(1) r(1) by (simp add: slowest_def le_antisym)
      with r show ?thesis by blast
    qed (use q in blast)
    with lo show ?thesis by (auto simp: slowest_def)
  qed
  ultimately show ?thesis using ok unfolding many_ok_def keep cons' by simp
qed

section \<open>What the main thread has seen\<close>

text \<open>The messages that follow when consumer \<open>k\<close> has been given \<open>c k\<close> tokens.\<close>

fun expected :: "(nat \<Rightarrow> nat) \<Rightarrow> main_op list \<Rightarrow> (nat \<times> int) list" where
  "expected c [] = []"
| "expected c (Consume k # ops) = (k, int (c k) + 1) # expected (c(k := c k + 1)) ops"
| "expected c (op # ops) = expected c ops"

text \<open>The consumers \<open>C\<close> each read stream 0 through one cell, which has the number of the consumer.\<close>

definition taken_by :: "int net \<Rightarrow> nat \<Rightarrow> nat" where
  "taken_by n k = length (received (gpcs n ! k) (got n ! k))"

definition session_ok :: "ptr set \<Rightarrow> (nat \<times> int) list \<Rightarrow> session \<Rightarrow> bool" where
  "session_ok C all s \<longleftrightarrow> (let n = network (running s) in
     many_inv 0 n \<and> owned 0 n \<and> cells_of 0 (mem n) = C \<and>
     (\<forall>k \<in> C. k < length (streams (mem n)) \<and> linked (mem n) k [k] \<and> in_get (gpcs n ! k) (got n ! k) \<and>
        (gpcs n ! k \<noteq> GIdle \<longrightarrow> (\<exists>ops. script s = Consume k # ops))) \<and>
     (\<exists>th. threads (running s) = [th] \<and> successor_ok 0 n th) \<and>
     shown s @ expected (taken_by n) (script s) = all)"

lemma cell_bounds:
  assumes "many_inv 0 n" "k \<in> cells_of 0 (mem n)"
  shows "k < length (gpcs n)" "k < length (got n)" "length (gpcs n) = length (prods (mem n))" "length (got n) = length (prods (mem n))"
  using assms by (auto simp: many_inv_def cells_of_def)

lemma linked_single:
  assumes "linked m k [q]" "k < length (streams m)"
  shows "s_prod_head (streams m ! k) = q" "s_prod_curr (streams m ! k) = q" "\<exists>x. prod_at m q = Inr x \<and> p_next x = NULL \<and> p_prev x = NULL"
  using assms by (auto simp: linked_def split: sum.splits)

text \<open>A turn of the successor.\<close>

lemma session_worker_ok:
  assumes "worker_turn t s = Inr (Some s')" "t < length (threads (running s))" "session_ok C all s"
  shows "session_ok C all s' \<and> wiring (mem (network (running s'))) = wiring (mem (network (running s))) \<and> script s' = script s \<and>
    taken_by (network (running s')) = taken_by (network (running s)) \<and> main_at s' = main_at s \<and> shown s' = shown s"
proof -
  let ?n = "network (running s)"
  obtain th where inv: "many_inv 0 ?n" "cells_of 0 (mem ?n) = C" "threads (running s) = [th]" "successor_ok 0 ?n th"
    and own: "owned 0 ?n"
    and cells: "\<forall>k \<in> C. k < length (streams (mem ?n)) \<and> linked (mem ?n) k [k] \<and> in_get (gpcs ?n ! k) (got ?n ! k) \<and>
        (gpcs ?n ! k \<noteq> GIdle \<longrightarrow> (\<exists>ops. script s = Consume k # ops))"
    and all: "shown s @ expected (taken_by ?n) (script s) = all"
    using assms(3) by (auto simp: session_ok_def Let_def)
  obtain w where w: "thread_turn t (running s) = Inr (Some w)" "s' = s\<lparr>running := w\<rparr>"
    using assms(1) by (auto simp: worker_turn_def bindE_Inr_iff)
  have t: "t = 0" "threads (running s) ! t = th" using assms(2) inv(3) by simp_all
  from w(1) show ?thesis
  proof (cases rule: thread_turn_cases)
    case (get p n1)
    then show ?thesis using calls_of(2) [OF inv(4)] t(2) by simp
  next
    case (put j v n1)
    have at: "j = 0" "in_put (ppcs ?n ! j) (sent ?n ! j) v" using calls_of(1) [OF inv(4)] put(1) t(2) by auto
    have len: "j < length (ppcs ?n)" "j < length (sent ?n)" using inv(1) at(1) by (simp_all add: many_inv_def)
    have step: "put_step j v ?n n1" unfolding put_step_def by (rule put_next_call [OF put(2) len at(2)])
    obtain th1 where th1: "threads w = (threads (running s))[t := th1]" "successor_ok 0 n1 th1"
      using thread_result [OF put(4), of "successor_ok 0 n1"] successor_put [OF inv(4) _ step, of "mem n1"] put(1) t(2) by auto
    have wires: "wiring (mem n1) = wiring (mem ?n)" by (rule wiring_put [OF put(2)])
    have same: "gpcs n1 = gpcs ?n" "got n1 = got ?n" using step by (simp_all add: put_step_def)
    then have "taken_by n1 = taken_by ?n" by (simp add: taken_by_def fun_eq_iff)
    moreover have "many_inv 0 n1" by (rule many_inv_put [OF put(2) len(1) inv(1)])
    moreover have "linked (mem n1) k [k]" if "k \<in> C" for k using cells that wiring_linked [OF wires] by blast
    ultimately show ?thesis
      using w(2) put(3) th1 t(1) inv(2,3) cells all same wires owned_put [OF put(2) own] wiring_cells [OF wires] wiring_length(1) [OF wires]
      by (simp add: session_ok_def)
  qed
qed

text \<open>A turn of the main thread inside \<open>consume_single\<close>.\<close>

lemma main_turn_consume:
  assumes "main_turn s = Inr (Some s')" "main_at s = At_call" "script s = Consume k # ops"
    "s_prod_head (streams (mem (network (running s))) ! k) = p"
  obtains n1 where "get_next p (network (running s)) = Inr (Some n1)" "running s' = (running s)\<lparr>network := n1\<rparr>" "main_at s' = At_call"
    "if gpcs (network (running s)) ! p = GUnlock then script s' = ops \<and> shown s' = shown s @ [(k, last (got n1 ! p))]
     else script s' = script s \<and> shown s' = shown s"
proof -
  have c: "consume_single (mem (network (running s))) k = CGet p" using assms(4) by (simp add: consume_single_def)
  have turn: "consume_turn_main k s = Inr (Some s')" using assms(1-3) by (simp add: main_turn_def)
  obtain n1 where n1: "get_next p (network (running s)) = Inr (Some n1)"
    using turn c by (cases "get_next p (network (running s))") (auto simp: consume_turn_main_def Let_def split: option.splits)
  show thesis by (rule that [OF n1]) (use turn assms(2,3) c n1 in \<open>auto simp: consume_turn_main_def Let_def split: if_splits\<close>)
qed

lemma session_consume_ok:
  assumes turn: "main_turn s = Inr (Some s')" "script s = Consume k # ops" "main_at s = At_call" and k: "k \<in> C"
    and ok: "session_ok C all s" and calm: "calm 0 (network (running s))"
  shows "session_ok C all s' \<and> wiring (mem (network (running s'))) = wiring (mem (network (running s))) \<and> main_at s' = At_call \<and>
    (script s' = script s \<and> taken_by (network (running s')) = taken_by (network (running s)) \<or>
     script s' = ops \<and> taken_by (network (running s')) = (taken_by (network (running s)))(k := taken_by (network (running s)) k + 1))"
proof -
  let ?n = "network (running s)" and ?n1 = "network (running s')"
  obtain th where inv: "many_inv 0 ?n" "cells_of 0 (mem ?n) = C" "threads (running s) = [th]" "successor_ok 0 ?n th"
    and held: "owned 0 ?n"
    and cells: "\<forall>k \<in> C. k < length (streams (mem ?n)) \<and> linked (mem ?n) k [k] \<and> in_get (gpcs ?n ! k) (got ?n ! k) \<and>
        (gpcs ?n ! k \<noteq> GIdle \<longrightarrow> (\<exists>ops. script s = Consume k # ops))"
    and all: "shown s @ expected (taken_by ?n) (script s) = all"
    using ok by (auto simp: session_ok_def Let_def)
  note at = cell_bounds [OF inv(1), unfolded inv(2), OF k]
  have own: "linked (mem ?n) k [k]" "k < length (streams (mem ?n))" "in_get (gpcs ?n ! k) (got ?n ! k)"
    and others: "q \<in> C \<Longrightarrow> q \<noteq> k \<Longrightarrow> gpcs ?n ! q = GIdle" for q
    using cells k turn(2) by auto
  have head: "s_prod_head (streams (mem ?n) ! k) = k" by (rule linked_single(1) [OF own(1,2)])
  from main_turn_consume [OF turn(1,3,2) head] have nx: "get_next k ?n = Inr (Some ?n1)" and run: "running s' = (running s)\<lparr>network := ?n1\<rparr>"
    and pc: "main_at s' = At_call" and ret: "if gpcs ?n ! k = GUnlock then script s' = ops \<and> shown s' = shown s @ [(k, last (got ?n1 ! k))]
      else script s' = script s \<and> shown s' = shown s" by (metis world.select_convs(1) world.surjective world.update_convs(1))+
  have step: "get_step k ?n ?n1"
    unfolding get_step_def by (rule get_next_call [OF nx at(1,3,4) own(3)])
  have wires: "wiring (mem ?n1) = wiring (mem ?n)" by (rule wiring_get [OF nx])
  have inv1: "many_inv 0 ?n1" by (rule many_inv_get [OF nx at(1) inv(1) calm])
  have succ: "successor_ok 0 ?n1 th"
    using frames(1) [of ?n1 0 ?n th] inv(4) step by (simp add: get_step_def)
  have held1: "owned 0 ?n1" by (rule owned_get [OF nx at(1,3) held])
  have link: "linked (mem ?n1) q [q]" if "q \<in> C" for q using cells that wiring_linked [OF wires] by blast
  have thr: "threads (running s') = [th]" using inv(3) by (subst run) simp
  have still: "q \<noteq> k \<Longrightarrow> gpcs ?n1 ! q = gpcs ?n ! q \<and> got ?n1 ! q = got ?n ! q" for q using step by (simp add: get_step_def)
  have base: "cells_of 0 (mem ?n1) = C" "length (streams (mem ?n1)) = length (streams (mem ?n))"
    using wiring_cells [OF wires] inv(2) wiring_length(1) [OF wires] by simp_all
  show ?thesis
  proof (cases "gpcs ?n ! k = GUnlock")
    case True
    note gone = get_step_return [OF step True]
    have count: "taken_by ?n1 = (taken_by ?n)(k := taken_by ?n k + 1)"
    proof
      fix q show "taken_by ?n1 q = ((taken_by ?n)(k := taken_by ?n k + 1)) q"
        using gone(1) arg_cong [OF gone(2), of length] still [of q] by (cases "q = k") (simp_all add: taken_by_def)
    qed
    have pref: "got ?n1 ! k = [1..int (length (got ?n1 ! k))]"
      by (rule successor_cells [OF inv1 succ]) (use k base(1) in simp)
    have len: "length (got ?n1 ! k) = Suc (taken_by ?n k)" using arg_cong [OF gone(2), of length] by (simp add: taken_by_def)
    then have last: "last (got ?n1 ! k) = int (taken_by ?n k) + 1" by (subst pref) (simp add: upto_rec2)
    have "shown s' @ expected (taken_by ?n1) (script s') = all"
      using ret True all turn(2) count last by simp
    moreover have "gpcs ?n1 ! q = GIdle" if "q \<in> C" for q using gone(1) still [of q] others [OF that] by (cases "q = k") simp_all
    ultimately have "session_ok C all s'"
      using inv1 held1 base link thr succ cells by (auto simp: session_ok_def Let_def)
    then show ?thesis using wires pc ret True count by simp
  next
    case False
    note inside = get_step_inside [OF step False]
    have count: "taken_by ?n1 = taken_by ?n"
    proof
      fix q show "taken_by ?n1 q = taken_by ?n q" using inside(2) still [of q] by (cases "q = k") (simp_all add: taken_by_def)
    qed
    have "in_get (gpcs ?n1 ! q) (got ?n1 ! q) \<and> (gpcs ?n1 ! q \<noteq> GIdle \<longrightarrow> (\<exists>ops. script s' = Consume q # ops))" if "q \<in> C" for q
      using inside(1) still [of q] others [OF that] ret False turn(2) by (cases "q = k") simp_all
    then have "session_ok C all s'"
      using inv1 held1 base link thr succ cells ret False all count by (auto simp: session_ok_def Let_def)
    then show ?thesis using wires pc ret False count by simp
  qed
qed

lemma expected_cong: "(\<And>k. Consume k \<in> set ops \<Longrightarrow> c' k = c k) \<Longrightarrow> expected c' ops = expected c ops"
proof (induction ops arbitrary: c c')
  case (Cons op ops)
  show ?case
  proof (cases op)
    case (Consume k)
    have "expected (c'(k := c' k + 1)) ops = expected (c(k := c k + 1)) ops"
      by (rule Cons.IH) (use Cons.prems Consume in simp)
    then show ?thesis using Cons.prems [of k] Consume by simp
  next
    case Connect
    then show ?thesis using Cons.IH [of c' c] Cons.prems by simp
  next
    case Disconnect
    then show ?thesis using Cons.IH [of c' c] Cons.prems by simp
  qed
qed simp

lemma length_expected: "length (expected c ops) = length (filter is_Consume ops)"
proof (induction ops arbitrary: c)
  case (Cons op ops)
  then show ?case by (cases op) simp_all
qed simp

lemma session_start_ok:
  assumes start: "start_session cs (Successor 0 1) ops raw = Inr s" and r: "\<And>r. r \<in> set raw \<Longrightarrow> length (s_buffer r) = 5"
    and cs: "set cs \<subseteq> {..<length raw} \<times> {..<length raw}" "0 \<in> snd ` set cs" "length cs \<le> 9999"
    and C: "C = Suc ` {q. q < length cs \<and> snd (cs ! q) = 0}" "\<And>k. k \<in> C \<Longrightarrow> k < length raw \<and> cells_for cs k = [k]" "\<And>k. Consume k \<in> set ops \<Longrightarrow> k \<in> C"
  shows "session_ok C (expected (\<lambda>k. 0) ops) s \<and> script s = ops \<and> (\<forall>k \<in> C. taken_by (network (running s)) k = 0) \<and> length (prods (mem (network (running s)))) = Suc (length cs)"
proof -
  obtain m where m: "connect_all cs (initialised raw) = Inr m" "built cs raw m" using connect_all_built [OF cs(1)] by blast
  then have s: "s = \<lparr>running = \<lparr>network = idle_net m, threads = [Successor 0 1]\<rparr>, script = ops, main_at = At_call, shown = []\<rparr>"
    using start by (simp add: start_session_def)
  have raw: "0 < length raw" using cs(1,2) by auto
  have len: "length (streams m) = length raw" "length (prods m) = Suc (length cs)" using m(2) by (simp_all add: built_def)
  have "length (s_buffer (raw ! 0)) = 5" using r raw by simp
  from built_connected [OF m(2) raw cs(2) this cs(3)] have conn: "connected_all 0 m" .
  then have many: "many_inv 0 (idle_net m)" by (rule many_inv_idle)
  have own: "owned 0 (idle_net m)" by (rule owned_free) (use conn in \<open>simp add: connected_all_def\<close>)
  have cells: "cells_of 0 m = C" using built_cells [OF m(2)] C(1) by simp
  have bound: "k < length (prods m)" if "k \<in> C" for k using that C(1) len(2) by auto
  have "linked m k [k]" if "k \<in> C" for k using m(2) C(2) [OF that] by (auto simp: built_def)
  moreover have "successor_ok 0 (idle_net m) (Successor 0 1)" using raw len(1) by (simp add: idle_net_def)
  moreover have none: "taken_by (idle_net m) k = 0" if "k \<in> C" for k using bound [OF that] by (simp add: taken_by_def idle_net_def)
  then have "expected (taken_by (idle_net m)) ops = expected (\<lambda>k. 0) ops" using C(3) by (intro expected_cong) simp
  ultimately have "session_ok C (expected (\<lambda>k. 0) ops) s"
    using many own cells C(2) len(1) bound by (simp add: session_ok_def s) (simp add: idle_net_def)
  then show ?thesis using len(2) none by (simp add: s) (simp add: idle_net_def)
qed

lemma session_shown: "session_ok C all s \<Longrightarrow> shown s @ expected (taken_by (network (running s))) (script s) = all"
  by (simp add: session_ok_def Let_def)


section \<open>Leaving a stream, access by access\<close>

lemma with_cells_same: "length (prods m) = length (prods (mem n)) \<Longrightarrow> with_cells m n = n\<lparr>mem := m\<rparr>"
  by (simp add: with_cells_def)

lemma with_mem_same: "with_mem s (at_mem s) = s"
  by (simp add: with_mem_def at_mem_def with_cells_same)

lemma with_mem_parts [simp]:
  "script (with_mem s m) = script s" "main_at (with_mem s m) = main_at s" "shown (with_mem s m) = shown s"
  "at_mem (with_mem s m) = m" "threads (running (with_mem s m)) = threads (running s)"
  by (simp_all add: with_mem_def at_mem_def with_cells_def Let_def)

lemma with_mem_main_at [simp]: "at_mem (s\<lparr>main_at := pc\<rparr>) = at_mem s" "at_mem (s\<lparr>script := ops\<rparr>) = at_mem s"
  "with_mem (s\<lparr>main_at := pc\<rparr>) m = (with_mem s m)\<lparr>main_at := pc\<rparr>" "with_mem (s\<lparr>script := ops\<rparr>) m = (with_mem s m)\<lparr>script := ops\<rparr>"
  by (simp_all add: at_mem_def with_mem_def)

lemma with_mem_twice: "length (prods m) = length (prods (at_mem s)) \<Longrightarrow> length (prods m') = length (prods m) \<Longrightarrow>
    with_mem (with_mem s m) m' = with_mem s m'"
  by (simp add: with_mem_def at_mem_def with_cells_same)

text \<open>How many turns the loop over the read counts may still take, and where it ends when nothing disturbs it.\<close>

fun turns_left :: "main_pc \<Rightarrow> nat" where
  "turns_left (Count_test q j i) = 3 * (5 - i) + 3"
| "turns_left (Count_load q j i) = 3 * (5 - i) + 2"
| "turns_left (Count_store q j i c) = 3 * (5 - i) + 1"
| "turns_left _ = 0"

definition settle :: "session \<Rightarrow> session" where
  "settle s = (count_turn ^^ 18) s"

lemma count_turn_left: "turns_left (main_at (count_turn s)) \<le> turns_left (main_at s) - 1"
  by (cases "main_at s") (auto simp: count_turn_def after_slot_def BUFFER_SIZE_def)

lemma count_turn_still: "turns_left (main_at s) = 0 \<Longrightarrow> count_turn s = s"
  by (cases "main_at s") (simp_all add: count_turn_def)

lemma count_turns: "turns_left (main_at s) \<le> n \<Longrightarrow> turns_left (main_at ((count_turn ^^ n) s)) = 0"
proof (induction n arbitrary: s)
  case (Suc n)
  have "turns_left (main_at (count_turn s)) \<le> n" using count_turn_left [of s] Suc.prems by linarith
  from Suc.IH [OF this] show ?case by (simp add: funpow_swap1)
qed simp

lemma settle_turn: "turns_left (main_at s) \<le> 18 \<Longrightarrow> settle (count_turn s) = settle s"
  using count_turn_still [OF count_turns [of s 18]] by (simp add: settle_def funpow_swap1)

lemma settle_still: "turns_left (main_at s) = 0 \<Longrightarrow> settle s = s"
proof -
  assume still: "turns_left (main_at s) = 0"
  have "(count_turn ^^ n) s = s" for n by (induction n) (simp_all add: count_turn_still [OF still])
  then show ?thesis by (simp add: settle_def)
qed

text \<open>One slot.\<close>

definition count_down :: "nat \<Rightarrow> nat \<Rightarrow> 'v mem \<Rightarrow> 'v mem" where
  "count_down j i m = (let c = s_read_count (streams m ! j) ! i in if c > 0 then set_count j i (c - 1) m else m)"

lemma settle_slot:
  assumes "i < 5"
  shows "settle (s\<lparr>main_at := Count_test q j i\<rparr>) = settle (after_slot q j i (with_mem s (count_down j i (at_mem s))))"
proof (cases "s_read_count (streams (at_mem s) ! j) ! i > 0")
  case True
  let ?c = "s_read_count (streams (at_mem s) ! j) ! i"
  have left: "turns_left (Count_test q j i) \<le> 18" by simp
  have "settle (s\<lparr>main_at := Count_test q j i\<rparr>) = settle (s\<lparr>main_at := Count_load q j i\<rparr>)"
    using settle_turn [of "s\<lparr>main_at := Count_test q j i\<rparr>"] True by (simp add: count_turn_def)
  also have "\<dots> = settle (s\<lparr>main_at := Count_store q j i ?c\<rparr>)"
    using settle_turn [of "s\<lparr>main_at := Count_load q j i\<rparr>"] by (simp add: count_turn_def)
  also have "\<dots> = settle (after_slot q j i ((with_mem s (count_down j i (at_mem s)))\<lparr>main_at := Count_store q j i ?c\<rparr>))"
    using settle_turn [of "s\<lparr>main_at := Count_store q j i ?c\<rparr>"] True by (simp add: count_turn_def count_down_def Let_def)
  also have "after_slot q j i ((with_mem s (count_down j i (at_mem s)))\<lparr>main_at := Count_store q j i ?c\<rparr>) =
      after_slot q j i (with_mem s (count_down j i (at_mem s)))" by (simp add: after_slot_def)
  finally show ?thesis .
next
  case False
  then have "settle (s\<lparr>main_at := Count_test q j i\<rparr>) = settle (after_slot q j i (s\<lparr>main_at := Count_test q j i\<rparr>))"
    using settle_turn [of "s\<lparr>main_at := Count_test q j i\<rparr>"] by (simp add: count_turn_def)
  also have "after_slot q j i (s\<lparr>main_at := Count_test q j i\<rparr>) = after_slot q j i s" by (simp add: after_slot_def)
  finally show ?thesis using False by (simp add: count_down_def with_mem_same)
qed

text \<open>All slots.\<close>

lemma count_down_prods [simp]: "prods (count_down j i m) = prods m"
  by (simp add: count_down_def set_count_def Let_def)

lemma count_down_all:
  assumes "length (s_read_count (streams m ! j)) = 5" "j < length (streams m)"
  shows "count_down j 4 (count_down j 3 (count_down j 2 (count_down j 1 (count_down j 0 (leave_stream j m))))) =
    m\<lparr>streams := (streams m)[j := forget_consumer (streams m ! j)]\<rparr>"
proof -
  obtain a b c d e where "s_read_count (streams m ! j) = [a, b, c, d, e]"
    using assms(1) by (auto simp: numeral_eq_Suc length_Suc_conv)
  then show ?thesis using assms(2)
    by (cases "streams m ! j") (simp add: count_down_def set_count_def leave_stream_def forget_consumer_def Let_def numeral_eq_Suc)
qed

lemma settle_counts:
  "settle (s\<lparr>main_at := Count_test q j 0\<rparr>) =
    with_mem s (let m = count_down j 4 (count_down j 3 (count_down j 2 (count_down j 1 (count_down j 0 (at_mem s)))))
      in m\<lparr>prods := (prods m)[q := None]\<rparr>)\<lparr>main_at := At_call, script := tl (script s)\<rparr>"
proof -
  have step: "settle (s\<lparr>main_at := Count_test q j i\<rparr>) =
      settle ((with_mem s (count_down j i (at_mem s)))\<lparr>main_at := Count_test q j (Suc i)\<rparr>)" if "i < 4" for s i
    using settle_slot [where i = i and s = s and q = q and j = j] that by (simp add: after_slot_def BUFFER_SIZE_def)
  have last: "settle (s\<lparr>main_at := Count_test q j 4\<rparr>) = with_mem s (let m = count_down j 4 (at_mem s)
      in m\<lparr>prods := (prods m)[q := None]\<rparr>)\<lparr>main_at := At_call, script := tl (script s)\<rparr>" for s
    using settle_slot [where i = 4 and s = s and q = q and j = j] by (simp add: after_slot_def BUFFER_SIZE_def settle_still with_mem_twice Let_def)
  have four: "Suc 3 = 4" by simp
  show ?thesis
    using step [where i = 0] step [where i = 1] step [where i = 2] step [where i = 3] last
    by (simp add: four with_mem_twice eval_nat_numeral(2,3) Let_def)
qed

text \<open>With no turn of another thread in between, the turns of the main thread are \<open>stream_disconnect\<close>.\<close>

lemma disconnect_parts:
  "disconnect_loop n j p m = bindE (find_prod n j p m) (\<lambda>q. if q = NULL then Inr m
     else bindE (unlink_prod q m) (\<lambda>m. Inr (m\<lparr>streams := (streams m)[j := forget_consumer (streams m ! j)], prods := (prods m)[q := None]\<rparr>)))"
proof (induction n arbitrary: p)
  case (Suc n)
  then show ?case by (cases "prod_at m p") (auto simp: Let_def)
qed simp

lemma prod_set_keeps: "prod_set m p f = Inr m' \<Longrightarrow> streams m' = streams m \<and> length (prods m') = length (prods m)"
  by (auto simp: prod_set_def bindE_Inr_iff)

lemma unlink_keeps: "unlink_prod q m = Inr m' \<Longrightarrow> streams m' = streams m \<and> length (prods m') = length (prods m)"
  by (auto simp: unlink_prod_def bindE_Inr_iff dest!: prod_set_keeps split: if_splits)

lemma disconnect_settles:
  assumes "stream_disconnect k j (at_mem s) = Inr m'" "main_at s = At_call" "script s = Disconnect k j # ops"
    "j < length (streams (at_mem s))" "length (s_read_count (streams (at_mem s) ! j)) = 5"
  shows "\<exists>s1. main_turn s = Inr (Some s1) \<and> settle s1 = with_mem s m'\<lparr>script := ops\<rparr>"
proof -
  let ?m = "at_mem s"
  obtain q where q: "find_prod (Suc (length (prods ?m))) j (s_prod_head (streams ?m ! k)) ?m = Inr q"
    and m': "(if q = NULL then Inr ?m else bindE (unlink_prod q ?m) (\<lambda>m. Inr (m\<lparr>streams := (streams m)[j := forget_consumer (streams m ! j)],
       prods := (prods m)[q := None]\<rparr>))) = Inr m'"
    using assms(1) unfolding stream_disconnect_def disconnect_parts bindE_Inr_iff by blast
  show ?thesis
  proof (cases "q = NULL")
    case True
    then have "main_turn s = Inr (Some (s\<lparr>script := ops\<rparr>))" "m' = ?m"
      using q m' assms(2,3) by (simp_all add: main_turn_def disconnect_turn_def Let_def del: find_prod.simps)
    then show ?thesis using assms(2) by (simp add: settle_still with_mem_same)
  next
    case False
    then obtain m1 where m1: "unlink_prod q ?m = Inr m1" "m' = m1\<lparr>streams := (streams m1)[j := forget_consumer (streams m1 ! j)], prods := (prods m1)[q := None]\<rparr>"
      using m' by (auto simp: bindE_Inr_iff)
    note keep = unlink_keeps [OF m1(1)]
    let ?s = "with_mem s (leave_stream j m1)"
    have turn: "main_turn s = Inr (Some (?s\<lparr>main_at := Count_test q j 0\<rparr>))"
      using q m1(1) False assms(2,3) by (simp add: main_turn_def disconnect_turn_def Let_def del: find_prod.simps)
    have len: "length (prods (leave_stream j m)) = length (prods m)" for m :: "int mem" by (simp add: leave_stream_def)
    have "settle (?s\<lparr>main_at := Count_test q j 0\<rparr>) = with_mem s m'\<lparr>main_at := At_call, script := ops\<rparr>"
      unfolding settle_counts using count_down_all [of m1 j] keep assms(3-5)
      by (simp add: with_mem_twice len m1(2) Let_def)
    moreover have "with_mem s m'\<lparr>main_at := At_call, script := ops\<rparr> = with_mem s m'\<lparr>script := ops\<rparr>"
      using assms(2) with_mem_parts(2) [of s m'] by (metis session.surjective session.update_convs(2,3))
    ultimately show ?thesis using turn by metis
  qed
qed

text \<open>These turns are a run in which the successor takes none.\<close>

lemma count_turn_main: "turns_left (main_at s) \<noteq> 0 \<Longrightarrow> main_turn s = Inr (Some (count_turn s))"
  by (cases "main_at s") (simp_all add: main_turn_def)

lemma settle_reach: "session_reach P s (settle s)"
proof -
  have step: "session_reach P s (count_turn s)" for s
  proof (cases "turns_left (main_at s) = 0")
    case True
    then show ?thesis by (simp add: count_turn_still session_start)
  next
    case False
    then have "main_turn s = Inr (Some (count_turn s))" by (rule count_turn_main)
    then show ?thesis by (rule session_main [OF session_start])
  qed
  have "session_reach P s ((count_turn ^^ n) s)" for n
  proof (induction n)
    case (Suc n)
    then show ?case using session_trans [OF step Suc.IH] by simp
  qed (simp add: session_start)
  then show ?thesis by (simp add: settle_def)
qed

lemma settle_shown: "shown (settle s) = shown s"
proof -
  have step: "shown (count_turn s) = shown s" for s by (simp add: count_turn_def after_slot_def split: main_pc.split)
  have "shown ((count_turn ^^ n) s) = shown s" for n by (induction n) (simp_all add: step)
  then show ?thesis by (simp add: settle_def)
qed

section \<open>One consumer\<close>

lemma session_start_at: "start_session cs th ops raw = Inr s \<Longrightarrow> main_at s = At_call"
  by (auto simp: start_session_def bindE_Inr_iff)

lemma session_reach_single:
  "session_reach P s0 s \<Longrightarrow> session_ok {1} all s0 \<and> set (script s0) \<subseteq> {Consume 1} \<and> main_at s0 = At_call \<Longrightarrow>
    session_ok {1} all s \<and> set (script s) \<subseteq> {Consume 1} \<and> main_at s = At_call"
proof (induction rule: session_reach.induct)
  case (session_worker s0 s t s')
  then have ok: "session_ok {1} all s" "set (script s) \<subseteq> {Consume 1}" "main_at s = At_call" by simp_all
  from session_worker_ok [OF session_worker.hyps(4,3) ok(1)] ok(2,3) show ?case by simp
next
  case (session_main s0 s s')
  then have ok: "session_ok {1} all s" "set (script s) \<subseteq> {Consume 1}" "main_at s = At_call" by simp_all
  then have calm: "calm 0 (network (running s))" by (intro calm_single) (auto simp: session_ok_def Let_def)
  obtain ops where ops: "script s = Consume 1 # ops"
    using ok(2,3) session_main.hyps(2) by (cases "script s") (auto simp: main_turn_def)
  from session_consume_ok [OF session_main.hyps(2) ops ok(3) _ ok(1) calm] ok(2) ops show ?case by auto
qed simp

text \<open>What \<open>consume_non_threaded.c\<close> prints: under every schedule of the successor the main thread has printed the first of
  the tokens 1, 2 and 3, and all three when it has made its three calls.\<close>

theorem non_threaded_prints:
  assumes "consume_non_threaded raw = Inr s0" "length raw = 2" "\<And>r. r \<in> set raw \<Longrightarrow> length (s_buffer r) = 5" "session_reach any_time s0 s"
  shows "prefix (shown s) [(1, 1), (1, 2), (1, 3)] \<and> (script s = [] \<longrightarrow> shown s = [(1, 1), (1, 2), (1, 3)])"
proof -
  have start: "start_session [(1, 0)] (Successor 0 1) non_threaded_script raw = Inr s0"
    using assms(1) by (simp add: consume_non_threaded_def start_successor_def)
  have "session_ok {1} (expected (\<lambda>k. 0) non_threaded_script) s0 \<and> script s0 = non_threaded_script \<and> (\<forall>k \<in> {1}. taken_by (network (running s0)) k = 0) \<and> length (prods (mem (network (running s0)))) = Suc (length [(1 :: nat, 0 :: nat)])"
    by (rule session_start_ok [OF start assms(3)]) (auto simp: assms(2) cells_for_def non_threaded_script_def)
  then have "session_ok {1} [(1, 1), (1, 2), (1, 3)] s0" "set (script s0) \<subseteq> {Consume 1}"
    by (simp_all add: non_threaded_script_def)
  moreover have "main_at s0 = At_call" using start by (rule session_start_at)
  ultimately have "session_ok {1} [(1, 1), (1, 2), (1, 3)] s" using session_reach_single [OF assms(4)] by blast
  from session_shown [OF this] show ?thesis by (metis append_Nil2 expected.simps(1) prefixI)
qed

definition non_threaded_session :: session where
  "non_threaded_session = (case consume_non_threaded (replicate 2 raw_stream) of Inr s \<Rightarrow> s)"

theorem non_threaded_prints_witness:
  "\<exists>s. session_reach any_time non_threaded_session s \<and> script s = [] \<and> shown s = [(1, 1), (1, 2), (1, 3)]"
proof -
  have start: "consume_non_threaded (replicate 2 raw_stream) = Inr non_threaded_session" by code_simp
  let ?s = "successor_first any_time 100 non_threaded_session"
  have fin: "script ?s = []" by code_simp
  have reach: "session_reach any_time non_threaded_session ?s" by (rule successor_first_reach [OF session_start])
  have buf: "length (s_buffer r) = 5" if "r \<in> set (replicate 2 raw_stream)" for r using that by (simp add: raw_stream_def)
  have "length (replicate 2 raw_stream) = 2" by simp
  from non_threaded_prints [OF start this buf reach] fin reach show ?thesis by blast
qed

section \<open>Disconnecting and reconnecting\<close>

text \<open>Connecting again through a cell that was freed.\<close>

definition left_dangling :: "nat \<Rightarrow> int mem \<Rightarrow> bool" where
  "left_dangling k m \<longleftrightarrow> k < length (streams m) \<and> s_prod_head (streams m ! k) \<noteq> NULL \<and>
     s_prod_curr (streams m ! k) < length (prods m) \<and> prod_at m (s_prod_curr (streams m ! k)) = Inl BadDeref"

lemma dangling_wiring: "wiring m' = wiring m \<Longrightarrow> left_dangling k m \<Longrightarrow> left_dangling k m'"
  using wiring_links [of m' m k] wiring_length [of m' m] wiring_prod_at(1) [of m' m] by (simp add: left_dangling_def)

lemma dangling_connect_cell:
  assumes "left_dangling k m"
  shows "connect_cell k j m = Inl BadDeref"
proof -
  let ?c = "s_prod_curr (streams m ! k)"
  have c: "?c < length (prods m)" "prods m ! ?c = None \<or> ?c = NULL" "?c \<noteq> NULL" "prods m \<noteq> []"
    using assms by (auto simp: left_dangling_def prod_at_def split: option.splits if_splits)
  then show ?thesis using assms
    by (simp add: connect_cell_def left_dangling_def Let_def prod_set_def prod_at_def nth_append)
qed

text \<open>The only cell of consumer \<open>k\<close> is the first and the last of its list: a disconnect leaves both ends pointing to it.\<close>

lemma disconnect_single:
  assumes "linked m k [q]" "k < length (streams m)" "source_of m q = Some j" "j < length (streams m)"
  shows "\<exists>m'. stream_disconnect k j m = Inr m' \<and> left_dangling k m' \<and> length (prods m') = length (prods m) \<and>
     (\<forall>p. p \<noteq> q \<longrightarrow> prod_at m' p = prod_at m p) \<and> streams m' = (streams m)[j := forget_consumer (streams m ! j)] \<and> source_of m' q = None"
proof -
  obtain x where x: "prod_at m q = Inr x" "p_next x = NULL" "p_prev x = NULL" "p_stream x = j"
    using linked_single(3) [OF assms(1,2)] assms(3) by (auto simp: source_of_def)
  have ends: "s_prod_head (streams m ! k) = q" "s_prod_curr (streams m ! k) = q"
    using linked_single(1,2) [OF assms(1,2)] by simp_all
  have q: "q \<noteq> NULL" "q < length (prods m)" using x(1) by (simp_all add: prod_at_Inr)
  let ?m = "m\<lparr>streams := (streams m)[j := forget_consumer (streams m ! j)], prods := (prods m)[q := None]\<rparr>"
  have "stream_disconnect k j m = Inr ?m"
    using x q ends by (simp add: stream_disconnect_def unlink_prod_def Let_def)
  moreover have "left_dangling k ?m"
    using q ends assms(2) by (cases "j = k") (simp_all add: left_dangling_def prod_at_def forget_consumer_def)
  moreover have "prod_at ?m p = prod_at m p" if "p \<noteq> q" for p using that by (simp add: prod_at_freed)
  moreover have "source_of ?m q = None" using q by (simp add: source_of_def prod_at_freed)
  ultimately show ?thesis by (intro exI [of _ ?m]) simp
qed

lemma cells_freed:
  assumes "many_inv 0 n" "p \<in> cells_of 0 (mem n)" "q \<in> cells_of 0 (mem n)" "q \<noteq> p" "gpcs n ! p = GIdle"
    and ahead: "\<And>r. r \<in> cells_of 0 (mem n) \<Longrightarrow> length (got n ! r) \<le> length (got n ! p)"
    and m': "length (prods m') = length (prods (mem n))" "\<And>r. r \<noteq> p \<Longrightarrow> prod_at m' r = prod_at (mem n) r" "source_of m' p = None"
      "streams m' = (streams (mem n))[0 := forget_consumer (streams (mem n) ! 0)]"
  shows "many_inv 0 (n\<lparr>mem := m'\<rparr>)" "cells_of 0 m' = cells_of 0 (mem n) - {p}"
proof -
  let ?C = "cells_of 0 (mem n)"
  have s: "0 < length (streams (mem n))" using assms(1) by (simp add: many_inv_def)
  show cells: "cells_of 0 m' = ?C - {p}"
  proof (rule set_eqI)
    fix r show "r \<in> cells_of 0 m' \<longleftrightarrow> r \<in> ?C - {p}"
      using m'(2) [of r] m'(3) by (cases "r = p") (simp_all add: cells_of_source source_of_def)
  qed
  have "many_ok 0 ?C (streams (mem n) ! 0) (\<lambda>p. p_idx (the (prods (mem n) ! p))) (\<lambda>p. gpcs n ! p)
      (ppcs n ! 0) (sent n ! 0) (\<lambda>p. got n ! p)" using assms(1) by (simp add: many_inv_def)
  from many_forget [OF this assms(2) _ assms(5) ahead] assms(3,4)
  have ok: "many_ok 0 (?C - {p}) (forget_consumer (streams (mem n) ! 0)) (\<lambda>p. p_idx (the (prods (mem n) ! p))) (\<lambda>p. gpcs n ! p)
      (ppcs n ! 0) (sent n ! 0) (\<lambda>p. got n ! p)" by blast
  have "prods m' ! r = prods (mem n) ! r" if "r \<in> ?C - {p}" for r
  proof -
    have "r \<noteq> NULL" "r < length (prods (mem n))" using that by (auto simp: cells_of_def)
    then show ?thesis using m'(2) [of r] m'(1) that by (auto simp: prod_at_def split: option.splits)
  qed
  then have "many_ok 0 (?C - {p}) (forget_consumer (streams (mem n) ! 0)) (\<lambda>p. p_idx (the (prods m' ! p))) (\<lambda>p. gpcs n ! p)
      (ppcs n ! 0) (sent n ! 0) (\<lambda>p. got n ! p)" by (subst many_ok_cong [OF _]) (use ok in simp_all)
  then show "many_inv 0 (n\<lparr>mem := m'\<rparr>)" using assms(1) s m'(1,4) cells by (simp add: many_inv_def)
qed

lemma session_disconnect_ok:
  assumes turn: "main_at s = At_call" "script s = Disconnect k 0 # ops" and ok: "session_ok C all s"
    and k: "k \<in> C" "k \<noteq> 0" "q \<in> C" "q \<noteq> k"
    and ahead: "\<And>r. r \<in> C \<Longrightarrow> taken_by (network (running s)) r \<le> taken_by (network (running s)) k"
  shows "\<exists>s1. main_turn s = Inr (Some s1) \<and> session_ok (C - {k}) all (settle s1) \<and> left_dangling k (at_mem (settle s1)) \<and>
    script (settle s1) = ops \<and> main_at (settle s1) = At_call"
proof -
  let ?n = "network (running s)"
  obtain th where inv: "many_inv 0 ?n" "cells_of 0 (mem ?n) = C" "threads (running s) = [th]" "successor_ok 0 ?n th"
    and own: "owned 0 ?n"
    and cells: "\<forall>k \<in> C. k < length (streams (mem ?n)) \<and> linked (mem ?n) k [k] \<and> in_get (gpcs ?n ! k) (got ?n ! k) \<and>
        (gpcs ?n ! k \<noteq> GIdle \<longrightarrow> (\<exists>ops. script s = Consume k # ops))"
    and all: "shown s @ expected (taken_by ?n) (script s) = all"
    using ok by (auto simp: session_ok_def Let_def)
  have idle: "gpcs ?n ! r = GIdle" if "r \<in> C" for r using cells that turn(2) by auto
  then have count: "taken_by ?n r = length (got ?n ! r)" if "r \<in> C" for r using that by (simp add: taken_by_def)
  have "source_of (mem ?n) k = Some 0" using k(1) inv(2) cells_of_source by metis
  then obtain m' where m': "stream_disconnect k 0 (mem ?n) = Inr m'" "left_dangling k m'" "length (prods m') = length (prods (mem ?n))"
    "\<And>p. p \<noteq> k \<Longrightarrow> prod_at m' p = prod_at (mem ?n) p" "streams m' = (streams (mem ?n))[0 := forget_consumer (streams (mem ?n) ! 0)]"
    "source_of m' k = None"
    using disconnect_single [of "mem ?n" k k 0] cells k(1) inv(1) by (auto simp: many_inv_def)
  have "length (s_read_count (streams (mem ?n) ! 0)) = 5" "0 < length (streams (mem ?n))"
    using inv(1) by (simp_all add: many_inv_def many_ok_def ring_ok_def)
  then obtain s1 where s1: "main_turn s = Inr (Some s1)" "settle s1 = with_mem s m'\<lparr>script := ops\<rparr>"
    using disconnect_settles [of k 0 s m' ops] turn m'(1) by (auto simp: at_mem_def)
  have s': "settle s1 = s\<lparr>running := (running s)\<lparr>network := ?n\<lparr>mem := m'\<rparr>\<rparr>, script := ops\<rparr>"
    using s1(2) m'(3) by (simp add: with_mem_def with_cells_same)
  have fresh: "many_inv 0 (?n\<lparr>mem := m'\<rparr>)" "cells_of 0 m' = C - {k}"
    using cells_freed [of ?n k q m'] inv k idle ahead count m' by auto
  have "s_lock (streams (mem ?n) ! 0) \<noteq> Some (Getter r)" for r
  proof
    assume l: "s_lock (streams (mem ?n) ! 0) = Some (Getter r)"
    then have r: "r \<in> C" using own inv(2) by (auto simp: owned_def)
    then have "get_inside (gpcs ?n ! r)" using inv(1,2) l by (auto simp: many_inv_def many_ok_def reader_ok_def)
    then show False using idle [OF r] by simp
  qed
  then have free: "owned 0 (?n\<lparr>mem := m'\<rparr>)"
    using own inv(1) m'(5) by (simp add: owned_def many_inv_def forget_consumer_def)
  have "linked m' r [r]" if "r \<in> C - {k}" for r
  proof -
    have r: "linked (mem ?n) r [r]" "r < length (streams (mem ?n))" using cells that by auto
    have "s_prod_head (streams m' ! r) = s_prod_head (streams (mem ?n) ! r)" "s_prod_curr (streams m' ! r) = s_prod_curr (streams (mem ?n) ! r)"
      using r(2) by (cases "r = 0"; simp add: m'(5) forget_consumer_def)+
    then show ?thesis using r(1) m'(4) [of r] that seg_cong [of "[r]" m' "mem ?n"] by (simp add: linked_def del: seg.simps)
  qed
  moreover have "taken_by (?n\<lparr>mem := m'\<rparr>) = taken_by ?n" by (simp add: taken_by_def fun_eq_iff)
  moreover have "successor_ok 0 (?n\<lparr>mem := m'\<rparr>) th" using frames(1) [of "?n\<lparr>mem := m'\<rparr>" 0 ?n th] inv(4) by simp
  ultimately have "session_ok (C - {k}) all (settle s1)"
    using fresh free inv(3) cells idle all turn(2) m'(5) by (simp add: session_ok_def s')
  then show ?thesis using m'(2) s1(1) turn(1) by (auto simp: s' at_mem_def)
qed

end
