(* ===== verification/Streams_Reconnect.thy ===== *)
theory Streams_Reconnect
  imports Streams_Sessions
begin

text \<open>
  The program \<open>disconnect_reconnect.c\<close>: where it ends under every schedule, what it prints when \<open>stream_disconnect\<close> runs
  undisturbed, and a run in which the successor puts a token while \<open>stream_disconnect\<close> is in its loop.
\<close>

section \<open>The program when nothing disturbs its disconnect\<close>

text \<open>Before the disconnect both consumers are connected, after it only the first one.\<close>

definition reconnect_script :: "main_op list" where
  "reconnect_script = before_reconnect @ after_reconnect"

definition reconnect_inv :: "(nat \<times> int) list \<Rightarrow> session \<Rightarrow> bool" where
  "reconnect_inv all s \<longleftrightarrow> main_at s = At_call \<and>
     (\<exists>i. script s = drop i reconnect_script \<and>
        ((i \<le> 6 \<and> session_ok {1, 2} all s \<and> taken_by (network (running s)) 1 = min i 3 \<and>
            taken_by (network (running s)) 2 = i - 3) \<or>
         (7 \<le> i \<and> i \<le> 15 \<and> session_ok {1} all s \<and> left_dangling 2 (mem (network (running s))))))"

lemma reconnect_ops:
  "i < 16 \<Longrightarrow> drop i reconnect_script = (if i < 3 then Consume 1 else if i < 6 then Consume 2
     else if i = 6 then Disconnect 2 0 else if i < 15 then Consume 1 else Connect 2 0) # drop (Suc i) reconnect_script"
proof -
  assume i: "i < 16"
  have "length reconnect_script = 32" by (simp add: reconnect_script_def before_reconnect_def after_reconnect_def)
  then have "drop i reconnect_script = reconnect_script ! i # drop (Suc i) reconnect_script"
    using i by (simp add: Cons_nth_drop_Suc)
  moreover have "reconnect_script ! i = (if i < 3 then Consume 1 else if i < 6 then Consume 2
     else if i = 6 then Disconnect 2 0 else if i < 15 then Consume 1 else Connect 2 0)"
    using i by (auto simp: reconnect_script_def before_reconnect_def after_reconnect_def nth_append nth_Cons')
  ultimately show ?thesis by simp
qed

lemma taken_bound: "length (got n ! k) \<le> taken_by n k + 1"
  by (auto simp: taken_by_def received_def)

lemma reconnect_worker:
  assumes "worker_turn t s = Inr (Some s')" "t < length (threads (running s))" "reconnect_inv all s"
  shows "reconnect_inv all s'"
proof -
  obtain i where pc: "main_at s = At_call" and i: "script s = drop i reconnect_script"
    "(i \<le> 6 \<and> session_ok {1, 2} all s \<and> taken_by (network (running s)) 1 = min i 3 \<and> taken_by (network (running s)) 2 = i - 3) \<or>
     (7 \<le> i \<and> i \<le> 15 \<and> session_ok {1} all s \<and> left_dangling 2 (mem (network (running s))))"
    using assms(3) by (auto simp: reconnect_inv_def)
  then obtain C where C: "session_ok C all s" by blast
  note step = session_worker_ok [OF assms(1,2)]
  have same: "script s' = script s" "taken_by (network (running s')) = taken_by (network (running s))"
    "wiring (mem (network (running s'))) = wiring (mem (network (running s)))" "main_at s' = main_at s" using step [OF C] by simp_all
  have keep: "session_ok D all s \<Longrightarrow> session_ok D all s'" for D using step by blast
  show ?thesis unfolding reconnect_inv_def same
    using pc i keep dangling_wiring [OF same(3)] by blast
qed

text \<open>A turn of the main thread at a call, with the rest of a disconnect.\<close>

lemma reconnect_main:
  assumes "main_turn s = Inr (Some s')" "reconnect_inv all s"
  shows "reconnect_inv all (settle s')"
proof -
  let ?n = "network (running s)"
  obtain i where pc: "main_at s = At_call" and i: "script s = drop i reconnect_script"
    "(i \<le> 6 \<and> session_ok {1, 2} all s \<and> taken_by ?n 1 = min i 3 \<and> taken_by ?n 2 = i - 3) \<or>
     (7 \<le> i \<and> i \<le> 15 \<and> session_ok {1} all s \<and> left_dangling 2 (mem ?n))"
    using assms(2) by (auto simp: reconnect_inv_def)
  then have "i < 16" by auto
  from reconnect_ops [OF this] i(1) have ops: "script s = (if i < 3 then Consume 1 else if i < 6 then Consume 2
     else if i = 6 then Disconnect 2 0 else if i < 15 then Consume 1 else Connect 2 0) # drop (Suc i) reconnect_script" by simp
  from i(2) show ?thesis
  proof
    assume a: "i \<le> 6 \<and> session_ok {1, 2} all s \<and> taken_by ?n 1 = min i 3 \<and> taken_by ?n 2 = i - 3"
    show ?thesis
    proof (cases "i = 6")
      case True
      have d: "script s = Disconnect 2 0 # drop 7 reconnect_script" using ops True by simp
      have "taken_by ?n r \<le> taken_by ?n 2" if "r \<in> {1, 2}" for r using that a True by auto
      then have "\<exists>s1. main_turn s = Inr (Some s1) \<and> session_ok ({1, 2} - {2}) all (settle s1) \<and> left_dangling 2 (at_mem (settle s1)) \<and>
          script (settle s1) = drop 7 reconnect_script \<and> main_at (settle s1) = At_call"
        by (intro session_disconnect_ok [OF pc d, of "{1, 2}" all 1]) (use a in simp_all)
      moreover have "{1, 2} - {2} = {1 :: nat}" by auto
      ultimately show ?thesis unfolding reconnect_inv_def using assms(1) by (intro conjI exI [of _ 7]) (auto simp: at_mem_def)
    next
      case False
      define k where "k = (if i < 3 then 1 else 2 :: nat)"
      have k: "k \<in> {1, 2}" "script s = Consume k # drop (Suc i) reconnect_script" using ops a False by (auto simp: k_def)
      have "length (got ?n ! q) < 5" if "q \<in> {1, 2}" for q using taken_bound [of ?n q] a that by auto
      moreover have "cells_of 0 (mem ?n) = {1, 2}" using a by (simp add: session_ok_def Let_def)
      ultimately have "calm 0 ?n" unfolding calm_def close_def by (metis trans_less_add2)
      from session_consume_ok [OF assms(1) k(2) pc k(1) _ this, of all] a
      have st: "main_at s' = At_call" "session_ok {1, 2} all s'" "script s' = script s \<and> taken_by (network (running s')) = taken_by ?n \<or>
          script s' = drop (Suc i) reconnect_script \<and> taken_by (network (running s')) = (taken_by ?n)(k := taken_by ?n k + 1)" by blast+
      have "reconnect_inv all s'" using st(3)
      proof
        assume "script s' = script s \<and> taken_by (network (running s')) = taken_by ?n"
        then show ?thesis unfolding reconnect_inv_def using a i(1) st(1,2) by (intro conjI exI [of _ i]) simp_all
      next
        assume "script s' = drop (Suc i) reconnect_script \<and> taken_by (network (running s')) = (taken_by ?n)(k := taken_by ?n k + 1)"
        then show ?thesis unfolding reconnect_inv_def using a False st(1,2)
          by (intro conjI exI [of _ "Suc i"]) (auto simp: k_def)
      qed
      then show ?thesis using st(1) by (simp add: settle_still)
    qed
  next
    assume b: "7 \<le> i \<and> i \<le> 15 \<and> session_ok {1} all s \<and> left_dangling 2 (mem ?n)"
    show ?thesis
    proof (cases "i = 15")
      case True
      then show ?thesis using assms(1) ops pc dangling_connect_cell [of 2 "mem ?n" 0] b by (simp add: main_turn_def at_mem_def)
    next
      case False
      then have k: "script s = Consume 1 # drop (Suc i) reconnect_script" using ops b by simp
      have "calm 0 ?n" using b by (intro calm_single) (auto simp: session_ok_def Let_def)
      from session_consume_ok [OF assms(1) k pc _ _ this, of "{1}" all] b
      have st: "session_ok {1} all s'" "wiring (mem (network (running s'))) = wiring (mem ?n)" "main_at s' = At_call"
        "script s' = script s \<or> script s' = drop (Suc i) reconnect_script" by auto
      have d: "left_dangling 2 (mem (network (running s')))" using dangling_wiring [OF st(2)] b by blast
      have "reconnect_inv all s'" using st(4)
      proof
        assume "script s' = script s"
        then show ?thesis unfolding reconnect_inv_def using st d b i(1) by (intro conjI exI [of _ i]) simp_all
      next
        assume "script s' = drop (Suc i) reconnect_script"
        then show ?thesis unfolding reconnect_inv_def using st d b False by (intro conjI exI [of _ "Suc i"]) simp_all
      qed
      then show ?thesis using st(3) by (simp add: settle_still)
    qed
  qed
qed

lemma turns_left_bound: "turns_left pc \<le> 18"
  by (cases pc) simp_all

lemma reconnect_quiet:
  "session_reach between_calls s0 s \<Longrightarrow> reconnect_inv all (settle s0) \<Longrightarrow> reconnect_inv all (settle s)"
proof (induction rule: session_reach.induct)
  case (session_worker s0 s t s')
  have at: "main_at s = At_call" using session_worker.hyps(2) by (simp add: between_calls_def)
  then have "reconnect_inv all s" using session_worker.IH [OF session_worker.prems] by (simp add: settle_still)
  from reconnect_worker [OF session_worker.hyps(4,3) this] show ?case by (simp add: settle_still reconnect_inv_def)
next
  case (session_main s0 s s')
  then have inv: "reconnect_inv all (settle s)" by blast
  show ?case
  proof (cases "turns_left (main_at s) = 0")
    case True
    then show ?thesis using reconnect_main [OF session_main.hyps(2)] inv by (simp add: settle_still)
  next
    case False
    then show ?thesis using count_turn_main [OF False] session_main.hyps(2) settle_turn [OF turns_left_bound] inv by simp
  qed
qed simp

text \<open>What the main thread prints before it reconnects.\<close>

definition reconnect_prints :: "(nat \<times> int) list" where
  "reconnect_prints = [(1, 1), (1, 2), (1, 3), (2, 1), (2, 2), (2, 3), (1, 4), (1, 5), (1, 6), (1, 7), (1, 8), (1, 9), (1, 10), (1, 11)]"

lemma reconnect_lengths:
  "length (filter is_Consume reconnect_script) = length reconnect_prints + length (filter is_Consume after_reconnect)"
  by code_simp

lemma reconnect_start:
  assumes "disconnect_reconnect raw = Inr s0" "length raw = 3" "\<And>r. r \<in> set raw \<Longrightarrow> length (s_buffer r) = 5"
  shows "reconnect_inv (expected (\<lambda>k. 0) reconnect_script) s0"
proof -
  have start: "start_session [(1, 0), (2, 0)] (Successor 0 1) reconnect_script raw = Inr s0"
    using assms(1) by (simp add: disconnect_reconnect_def test_suc_def reconnect_script_def)
  have cells: "{q. q < length [(1 :: nat, 0 :: nat), (2, 0)] \<and> snd ([(1 :: nat, 0 :: nat), (2, 0)] ! q) = 0} = {0, 1}"
    by (auto simp: less_Suc_eq)
  have "session_ok {1, 2} (expected (\<lambda>k. 0) reconnect_script) s0 \<and> script s0 = reconnect_script \<and>
    (\<forall>k \<in> {1, 2}. taken_by (network (running s0)) k = 0) \<and>
    length (prods (mem (network (running s0)))) = Suc (length [(1 :: nat, 0 :: nat), (2, 0)])"
  proof (rule session_start_ok [OF start assms(3)])
    show "{1, 2} = Suc ` {q. q < length [(1 :: nat, 0 :: nat), (2, 0)] \<and> snd ([(1 :: nat, 0 :: nat), (2, 0)] ! q) = 0}"
      unfolding cells by auto
    show "Consume k \<in> set reconnect_script \<Longrightarrow> k \<in> {1, 2}" for k
      by (auto simp: reconnect_script_def before_reconnect_def after_reconnect_def)
  qed (auto simp: assms(2) cells_for_def)
  then show ?thesis unfolding reconnect_inv_def using session_start_at [OF start] by (intro conjI exI [of _ 0]) simp_all
qed

section \<open>Going on\<close>

text \<open>A consumer that needs a token: how far the successor is from its next token while fewer than two wait, and how far the
  call of \<open>get\<close> is from its return when two wait.\<close>

fun get_inside_rank :: "get_pc \<Rightarrow> nat" where
  "get_inside_rank GTest1 = 4"
| "get_inside_rank GTest2 = 3"
| "get_inside_rank GBody = 2"
| "get_inside_rank GUnlock = 1"
| "get_inside_rank _ = 0"

fun put_full_rank :: "'v put_pc \<Rightarrow> nat" where
  "put_full_rank PUnlock = 7"
| "put_full_rank PIdle = 6"
| "put_full_rank (PSem v) = 5"
| "put_full_rank (PLock v) = 4"
| "put_full_rank (PWait v) = 4"
| "put_full_rank (PTest v) = 3"
| "put_full_rank (PBody v) = 2"

fun put_inside_rank :: "'v put_pc \<Rightarrow> nat" where
  "put_inside_rank (PTest v) = 3"
| "put_inside_rank (PBody v) = 2"
| "put_inside_rank PUnlock = 1"
| "put_inside_rank _ = 0"

fun get_full_rank :: "get_pc \<Rightarrow> nat" where
  "get_full_rank GIdle = 7"
| "get_full_rank GLock = 6"
| "get_full_rank GWait1 = 6"
| "get_full_rank GTest1 = 5"
| "get_full_rank GWait2 = 5"
| "get_full_rank GTest2 = 4"
| "get_full_rank GBody = 3"
| "get_full_rank GUnlock = 2"

definition to_go :: "nat \<Rightarrow> get_pc \<Rightarrow> int put_pc \<Rightarrow> nat" where
  "to_go needed g pp = 100 * needed + (if needed > 0 then 10 * get_inside_rank g + put_full_rank pp
     else 10 * put_inside_rank pp + get_full_rank g)"

lemma to_go_bound: "needed \<le> 2 \<Longrightarrow> to_go needed g pp < 300"
proof -
  have "get_inside_rank g \<le> 4" "get_full_rank g \<le> 7" by (cases g; simp)+
  moreover have "put_full_rank pp \<le> 7" "put_inside_rank pp \<le> 3" by (cases pp; simp)+
  moreover assume "needed \<le> 2"
  ultimately show ?thesis by (simp add: to_go_def)
qed

text \<open>One turn on the stream, with \<open>k\<close> tokens received by the caller of \<open>get\<close>.\<close>

lemma getter_goes:
  assumes ok: "many_ok 0 C st i g pp snt gt" and p: "p \<in> C" and at: "get_inside (g p) \<or> length (received (g p) (gt p)) + 2 \<le> length snt"
    and lock: "s_lock st \<in> {None, Some (Getter p)}"
  shows "\<exists>st' i' g' out. get_turn p st (i p) (g p) = Some (st', i', g', out) \<and>
     (g p \<noteq> GUnlock \<longrightarrow> length (received g' (gt p @ out)) = length (received (g p) (gt p)) \<and>
        (if length snt < length (received (g p) (gt p)) + 2 then get_inside_rank g' < get_inside_rank (g p)
         else get_full_rank g' < get_full_rank (g p)))"
proof -
  have inside: "get_inside (g p) \<longleftrightarrow> s_lock st = Some (Getter p)" using ok p by (simp add: many_ok_def reader_ok_def)
  then have free: "\<not> get_inside (g p) \<Longrightarrow> s_lock st = None" using lock by auto
  note waits = many_waits [OF ok p]
  show ?thesis
    using at free waits by (cases "g p") (auto simp: get_turn_def get_body_def received_def Let_def)
qed

lemma putter_goes:
  assumes ok: "many_ok 0 C st i g pp snt gt" and p: "p \<in> C" and at: "put_inside pp \<or> length snt < k + 2"
    and lock: "s_lock st \<in> {None, Some (Putter 0)}" and near: "\<And>q. q \<in> C \<Longrightarrow> k \<le> length (gt q) + 2"
  shows "\<exists>st' pp' ins. put_turn 0 v st pp = Some (st', pp', ins) \<and>
     (if ins = [] then if length snt < k + 2 then put_full_rank pp' < put_full_rank pp else put_inside_rank pp' < put_inside_rank pp
      else length ins = 1 \<and> put_inside_rank pp' < put_inside_rank pp)"
proof -
  have inside: "put_inside pp \<longleftrightarrow> s_lock st = Some (Putter 0)" using ok by (simp add: many_ok_def)
  then have free: "\<not> put_inside pp \<Longrightarrow> s_lock st = None" using lock by auto
  have sem: "0 < s_empty st" if "holds_slot pp = 0" "length snt < k + 2"
  proof (rule ccontr)
    assume "\<not> 0 < s_empty st"
    then have "s_empty st = 0" by simp
    from many_full [OF ok this that(1)] obtain q where "q \<in> C" "length snt = length (gt q) + 5" by blast
    with near [of q] that(2) show False by linarith
  qed
  note nowait = many_put_free [OF ok]
  show ?thesis
    using at free sem nowait by (cases pp) (auto simp: put_turn_def)
qed

text \<open>The turns until the next return, and the calls that are left.\<close>

definition distance :: "session \<Rightarrow> nat" where
  "distance s = 300 * length (script s) + (case script s of
     Consume k # ops \<Rightarrow> (let n = network (running s) in
       to_go (min 2 (taken_by n k + 2 - length (sent n ! 0))) (gpcs n ! k) (ppcs n ! 0))
   | _ \<Rightarrow> 0)"

lemma distance_bound: "300 * length (script s) \<le> distance s" "distance s < 300 * Suc (length (script s))"
  by (auto simp: distance_def Let_def to_go_bound split: list.split main_op.split)

lemma to_go_get:
  assumes "if needed > 0 then get_inside_rank g' < get_inside_rank g else get_full_rank g' < get_full_rank g"
  shows "to_go needed g' pp < to_go needed g pp"
  using assms by (auto simp: to_go_def split: if_splits)

lemma to_go_put:
  assumes "if needed > 0 then put_full_rank pp' < put_full_rank pp else put_inside_rank pp' < put_inside_rank pp"
  shows "to_go needed g pp' < to_go needed g pp"
  using assms by (auto simp: to_go_def split: if_splits)

lemma to_go_sent: "needed' < needed \<Longrightarrow> to_go needed' g pp' < to_go needed g pp"
proof -
  have "get_inside_rank g \<le> 4" "get_full_rank g \<le> 7" by (cases g; simp)+
  moreover have "put_full_rank pp' \<le> 7" "put_inside_rank pp' \<le> 3" by (cases pp'; simp)+
  moreover assume "needed' < needed"
  ultimately show ?thesis by (simp add: to_go_def)
qed

lemma worker_goes:
  assumes "threads (running s) = [Successor 0 x]" "put_next 0 x (network (running s)) = Some n1"
  shows "\<exists>s'. worker_turn 0 s = Inr (Some s') \<and> network (running s') = n1 \<and> script s' = script s \<and> main_at s' = main_at s"
  using assms by (simp add: worker_turn_def thread_turn_def Let_def)

lemma consume_goes:
  assumes "main_at s = At_call" "script s = Consume k # ops" "s_prod_head (streams (mem (network (running s))) ! k) = p"
    "get_next p (network (running s)) = Inr (Some n1)"
  shows "\<exists>s'. main_turn s = Inr (Some s') \<and> network (running s') = n1 \<and> main_at s' = At_call \<and>
    script s' = (if gpcs (network (running s)) ! p = GUnlock then ops else script s)"
  using assms by (simp add: main_turn_def consume_turn_main_def consume_single_def Let_def)

lemma session_goes:
  assumes ok: "session_ok C all s" and pc: "main_at s = At_call" and ops: "script s = Consume k # ops" and k: "k \<in> C"
    and near: "\<And>q. q \<in> C \<Longrightarrow> taken_by (network (running s)) k \<le> length (got (network (running s)) ! q) + 2"
  shows "\<exists>s'. (worker_turn 0 s = Inr (Some s') \<or> main_turn s = Inr (Some s')) \<and> main_at s' = At_call \<and> distance s' < distance s"
proof -
  let ?n = "network (running s)"
  let ?st = "streams (mem ?n) ! 0" and ?g = "gpcs ?n ! k" and ?pp = "ppcs ?n ! 0" and ?snt = "sent ?n ! 0"
  obtain th where inv: "many_inv 0 ?n" "cells_of 0 (mem ?n) = C" "threads (running s) = [th]" "successor_ok 0 ?n th"
    and held: "owned 0 ?n" and cells: "\<forall>k \<in> C. k < length (streams (mem ?n)) \<and> linked (mem ?n) k [k] \<and>
        (gpcs ?n ! k \<noteq> GIdle \<longrightarrow> (\<exists>ops. script s = Consume k # ops))"
    using ok by (auto simp: session_ok_def Let_def)
  have many: "many_ok 0 C ?st (\<lambda>p. p_idx (the (prods (mem ?n) ! p))) (\<lambda>p. gpcs ?n ! p) ?pp ?snt (\<lambda>p. got ?n ! p)"
    using inv(1,2) by (simp add: many_inv_def)
  have len: "0 < length (streams (mem ?n))" "0 < length (ppcs ?n)" "0 < length (sent ?n)" using inv(1) by (simp_all add: many_inv_def)
  note at = cell_bounds [OF inv(1), unfolded inv(2), OF k]
  obtain x where th: "th = Successor 0 x" using inv(4) by (cases th) simp_all
  have "length (received ?g (got ?n ! k)) \<le> length (got ?n ! k)" by (simp add: received_def)
  moreover have "length (got ?n ! k) \<le> length ?snt" using many k by (simp add: many_ok_def reader_ok_def)
  ultimately have few: "taken_by ?n k + 2 - length ?snt \<le> 2" by (simp add: taken_by_def)
  have locks: "s_lock ?st = None \<or> s_lock ?st = Some (Putter 0) \<or> s_lock ?st = Some (Getter k)"
  proof (cases "s_lock ?st")
    case (Some a)
    show ?thesis
    proof (cases a)
      case (Getter r)
      then have "r \<in> C" "get_inside (gpcs ?n ! r)" using Some held inv(2) many by (auto simp: owned_def many_ok_def reader_ok_def)
      then have "r = k" using cells ops by (cases "gpcs ?n ! r = GIdle") auto
      then show ?thesis using Some Getter by simp
    qed (use Some held in \<open>simp add: owned_def\<close>)
  qed simp
  have sides: "get_inside ?g \<longleftrightarrow> s_lock ?st = Some (Getter k)" "put_inside ?pp \<longleftrightarrow> s_lock ?st = Some (Putter 0)"
    using many k by (simp_all add: many_ok_def reader_ok_def)
  show ?thesis
  proof (cases "get_inside ?g \<or> taken_by ?n k + 2 \<le> length ?snt \<and> \<not> put_inside ?pp")
    case True
    then have go: "get_inside ?g \<or> length (received ?g (got ?n ! k)) + 2 \<le> length ?snt" "s_lock ?st \<in> {None, Some (Getter k)}"
      using locks sides by (auto simp: taken_by_def)
    from getter_goes [OF many k, OF go] obtain st i g out where t: "get_turn k ?st (p_idx (the (prods (mem ?n) ! k))) ?g = Some (st, i, g, out)"
      and less: "?g \<noteq> GUnlock \<Longrightarrow> length (received g (got ?n ! k @ out)) = taken_by ?n k \<and>
        (if length ?snt < taken_by ?n k + 2 then get_inside_rank g < get_inside_rank ?g else get_full_rank g < get_full_rank ?g)"
      by (auto simp: taken_by_def)
    obtain y where y: "prod_at (mem ?n) k = Inr y" "p_stream y = 0" using cells_ofD k inv(2) by metis
    let ?n1 = "?n\<lparr>mem := (mem ?n)\<lparr>streams := (streams (mem ?n))[0 := st], prods := (prods (mem ?n))[k := Some (y\<lparr>p_idx := i\<rparr>)]\<rparr>,
       gpcs := (gpcs ?n)[k := g], got := (got ?n)[k := got ?n ! k @ out]\<rparr>"
    have "prods (mem ?n) ! k = Some y" using y(1) by (simp add: prod_at_Inr)
    then have nx: "get_next k ?n = Inr (Some ?n1)" using y t by (simp add: get_next_def)
    have "s_prod_head (streams (mem ?n) ! k) = k" using cells k linked_single(1) by blast
    from consume_goes [OF pc ops this nx] obtain s' where s': "main_turn s = Inr (Some s')" "network (running s') = ?n1" "main_at s' = At_call"
      "script s' = (if ?g = GUnlock then ops else script s)" by blast
    have "distance s' < distance s"
    proof (cases "?g = GUnlock")
      case True
      then show ?thesis using distance_bound(2) [of s'] distance_bound(1) [of s] s'(4) ops by simp
    next
      case False
      have "taken_by ?n1 k = taken_by ?n k" using less [OF False] at(1,2) by (simp add: taken_by_def)
      then show ?thesis using s'(2,4) False less [OF False] at(1,2) ops
        by (auto simp: distance_def Let_def taken_by_def intro!: to_go_get)
    qed
    with s' show ?thesis by blast
  next
    case False
    then have go: "put_inside ?pp \<or> length ?snt < taken_by ?n k + 2" "s_lock ?st \<in> {None, Some (Putter 0)}" using locks sides by auto
    from putter_goes [OF many k go near] obtain st pp ins where t: "put_turn 0 x ?st ?pp = Some (st, pp, ins)"
      and less: "if ins = [] then if length ?snt < taken_by ?n k + 2 then put_full_rank pp < put_full_rank ?pp else put_inside_rank pp < put_inside_rank ?pp
        else length ins = 1 \<and> put_inside_rank pp < put_inside_rank ?pp" by blast
    let ?n1 = "?n\<lparr>mem := (mem ?n)\<lparr>streams := (streams (mem ?n))[0 := st]\<rparr>, ppcs := (ppcs ?n)[0 := pp], sent := (sent ?n)[0 := ?snt @ ins]\<rparr>"
    have "put_next 0 x ?n = Some ?n1" using t by (simp add: put_next_def)
    from worker_goes [OF _ this] inv(3) th obtain s' where s': "worker_turn 0 s = Inr (Some s')" "network (running s') = ?n1" "script s' = script s"
      "main_at s' = At_call" using pc by auto
    let ?d = "taken_by ?n k + 2 - length ?snt"
    have same: "distance s' = 300 * length (script s) + to_go (min 2 (taken_by ?n k + 2 - length (?snt @ ins))) ?g pp"
      "distance s = 300 * length (script s) + to_go (min 2 ?d) ?g ?pp"
      using s'(2,3) ops len by (simp_all add: distance_def Let_def taken_by_def)
    have "to_go (taken_by ?n k + 2 - length (?snt @ ins)) ?g pp < to_go ?d ?g ?pp"
    proof (cases "ins = [] \<or> ?d = 0")
      case True
      then have "taken_by ?n k + 2 - length (?snt @ ins) = ?d" by auto
      then show ?thesis using less True by (auto intro!: to_go_put split: if_splits)
    qed (use less in \<open>auto intro!: to_go_sent split: if_splits\<close>)
    moreover have "taken_by ?n k + 2 - length (?snt @ ins) \<le> ?d" by simp
    ultimately have "distance s' < distance s" unfolding same using few by (simp only: min.absorb2 le_trans add_less_cancel_left)
    with s' show ?thesis by blast
  qed
qed

text \<open>From every state the program can go on to the reconnection.\<close>

lemma reconnect_goes:
  assumes "reconnect_inv all s"
  shows "\<exists>s'. session_reach between_calls s s' \<and> reconnect_inv all s' \<and> script s' = after_reconnect"
  using assms
proof (induction "distance s" arbitrary: s rule: less_induct)
  case less
  let ?n = "network (running s)"
  obtain i where pc: "main_at s = At_call" and i: "script s = drop i reconnect_script"
    "(i \<le> 6 \<and> session_ok {1, 2} all s \<and> taken_by ?n 1 = min i 3 \<and> taken_by ?n 2 = i - 3) \<or>
     (7 \<le> i \<and> i \<le> 15 \<and> session_ok {1} all s \<and> left_dangling 2 (mem ?n))"
    using less.prems by (auto simp: reconnect_inv_def)
  then have "i < 16" by auto
  from reconnect_ops [OF this] i(1) have ops: "script s = (if i < 3 then Consume 1 else if i < 6 then Consume 2
     else if i = 6 then Disconnect 2 0 else if i < 15 then Consume 1 else Connect 2 0) # drop (Suc i) reconnect_script" by simp
  have further: ?case if "session_reach between_calls s s'" "reconnect_inv all s'" "distance s' < distance s" for s'
    using less.hyps [OF that(3,2)] session_trans [OF _ that(1)] by blast
  have step: ?case if "worker_turn 0 s = Inr (Some s') \<or> main_turn s = Inr (Some s')" "main_at s' = At_call" "distance s' < distance s"
    "0 < length (threads (running s))" for s'
    using that(1)
  proof
    assume w: "worker_turn 0 s = Inr (Some s')"
    have "session_reach between_calls s s'"
      by (rule session_worker [OF session_start _ that(4) w]) (simp add: between_calls_def pc)
    from further [OF this reconnect_worker [OF w that(4) less.prems] that(3)] show ?case .
  next
    assume m: "main_turn s = Inr (Some s')"
    have "reconnect_inv all s'" using reconnect_main [OF m less.prems] that(2) by (simp add: settle_still)
    from further [OF session_main [OF session_start m] this that(3)] show ?case .
  qed
  have got: "taken_by ?n q \<le> length (got ?n ! q)" for q by (simp add: taken_by_def received_def)
  obtain D where "session_ok D all s" using i(2) by blast
  then obtain th where "threads (running s) = [th]" by (auto simp: session_ok_def Let_def)
  then have thr: "0 < length (threads (running s))" by simp
  have six_ok: "i \<le> 6 \<Longrightarrow> session_ok {1, 2} all s \<and> taken_by ?n 1 = min i 3 \<and> taken_by ?n 2 = i - 3"
    and late: "6 < i \<Longrightarrow> session_ok {1} all s" using i(2) by auto
  consider (last) "i = 15" | (leave) "i = 6"
    | (call) k C where "k \<in> C" "session_ok C all s" "script s = Consume k # drop (Suc i) reconnect_script"
      "\<And>q. q \<in> C \<Longrightarrow> taken_by ?n k \<le> taken_by ?n q + 2"
  proof -
    have "thesis" if "i < 3" by (rule call [of 1 "{1, 2}"]) (use six_ok ops that in auto)
    moreover have "thesis" if "3 \<le> i" "i < 6" by (rule call [of 2 "{1, 2}"]) (use six_ok ops that in auto)
    moreover have "thesis" if "6 < i" "i < 15" by (rule call [of 1 "{1}"]) (use late ops that in auto)
    ultimately show thesis using last leave \<open>i < 16\<close> by linarith
  qed
  then show ?case
  proof cases
    case last
    then have "script s = after_reconnect" using i(1) by (simp add: reconnect_script_def before_reconnect_def)
    then show ?thesis using session_start less.prems by blast
  next
    case leave
    then have d: "script s = Disconnect 2 0 # drop 7 reconnect_script" using ops by simp
    have "\<exists>s1. main_turn s = Inr (Some s1) \<and> session_ok ({1, 2} - {2}) all (settle s1) \<and> left_dangling 2 (at_mem (settle s1)) \<and>
          script (settle s1) = drop 7 reconnect_script \<and> main_at (settle s1) = At_call"
      by (rule session_disconnect_ok [OF pc d, of "{1, 2}" all 1]) (use six_ok leave in auto)
    then obtain s1 where s1: "main_turn s = Inr (Some s1)" "script (settle s1) = drop 7 reconnect_script" by blast
    have "distance (settle s1) < distance s" using distance_bound(2) [of "settle s1"] distance_bound(1) [of s] s1(2) d by simp
    from further [OF session_trans [OF settle_reach session_main [OF session_start s1(1)]] reconnect_main [OF s1(1) less.prems] this]
    show ?thesis .
  next
    case (call k C)
    note k = call
    have "taken_by ?n k \<le> length (got ?n ! q) + 2" if "q \<in> C" for q using k(4) [OF that] got [of q] by linarith
    from session_goes [OF k(2) pc k(3,1) this] step thr show ?thesis by blast
  qed
qed

section \<open>Every schedule\<close>

text \<open>What no turn of another thread can disturb: the cells. Cell 1 stays connected; cell 2 until \<open>stream_disconnect\<close> frees
  it.\<close>

fun counting :: "main_pc \<Rightarrow> bool" where
  "counting (Count_test q j i) = (q = 2 \<and> j = 0)"
| "counting (Count_load q j i) = (q = 2 \<and> j = 0)"
| "counting (Count_store q j i c) = (q = 2 \<and> j = 0)"
| "counting pc = False"

definition cells_ok :: "int mem \<Rightarrow> nat set \<Rightarrow> bool" where
  "cells_ok m C \<longleftrightarrow> (\<forall>k \<in> C. k < length (streams m) \<and> linked m k [k] \<and> source_of m k = Some 0)"

definition wired_inv :: "(nat \<times> int) list \<Rightarrow> session \<Rightarrow> bool" where
  "wired_inv all s \<longleftrightarrow> (\<exists>x. threads (running s) = [Successor 0 x]) \<and>
     (\<exists>i. script s = drop i reconnect_script \<and>
       (i \<le> 6 \<and> reconnect_inv all s \<and> cells_ok (at_mem s) {1, 2} \<or>
        i = 6 \<and> counting (main_at s) \<and> cells_ok (at_mem s) {1, 2} \<and> shown s = take 6 all \<or>
        7 \<le> i \<and> i \<le> 15 \<and> main_at s = At_call \<and> cells_ok (at_mem s) {1} \<and> left_dangling 2 (at_mem s) \<and>
          prefix (take 6 all) (shown s)))"

lemma cells_ok_wiring: "wiring m' = wiring m \<Longrightarrow> cells_ok m C \<Longrightarrow> cells_ok m' C"
  using wiring_linked [of m' m] wiring_source [of m' m] wiring_length(1) [of m' m] by (simp add: cells_ok_def)

lemma session_cells: "session_ok C all s \<Longrightarrow> cells_ok (at_mem s) C"
  using cells_of_source by (auto simp: session_ok_def cells_ok_def at_mem_def Let_def)

text \<open>A turn of the successor.\<close>

lemma worker_wires:
  assumes "worker_turn t s = Inr (Some s')" "t < length (threads (running s))" "threads (running s) = [Successor 0 x]"
  shows "wiring (at_mem s') = wiring (at_mem s) \<and> script s' = script s \<and> main_at s' = main_at s \<and> shown s' = shown s \<and>
    (\<exists>y. threads (running s') = [Successor 0 y])"
proof -
  have t: "t = 0" using assms(2,3) by simp
  obtain n1 where n1: "put_next 0 x (network (running s)) = Some n1" "network (running s') = n1" "script s' = script s"
    "main_at s' = main_at s" "shown s' = shown s" "\<exists>y. threads (running s') = [Successor 0 y]"
    using assms(1,3) unfolding t by (auto simp: worker_turn_def thread_turn_def Let_def split: option.splits if_splits)
  then show ?thesis using wiring_put [OF n1(1)] by (simp add: at_mem_def)
qed

lemma wired_worker:
  assumes "worker_turn t s = Inr (Some s')" "t < length (threads (running s))" "wired_inv all s"
  shows "wired_inv all s'"
proof -
  obtain x where x: "threads (running s) = [Successor 0 x]" using assms(3) by (auto simp: wired_inv_def)
  from worker_wires [OF assms(1,2) x] have w: "wiring (at_mem s') = wiring (at_mem s)"
    and same: "script s' = script s" "main_at s' = main_at s" "shown s' = shown s"
    and thr: "\<exists>y. threads (running s') = [Successor 0 y]" by blast+
  show ?thesis
    using assms(3) thr reconnect_worker [OF assms(1,2)] cells_ok_wiring [OF w] dangling_wiring [OF w]
    unfolding wired_inv_def same by blast
qed

text \<open>The turns of \<open>stream_disconnect\<close>.\<close>

lemma wiring_streams:
  assumes "\<And>st. s_prod_head (f st) = s_prod_head st" "\<And>st. s_prod_curr (f st) = s_prod_curr st"
  shows "wiring (m\<lparr>streams := (streams m)[j := f (streams m ! j)]\<rparr>) = wiring m"
proof -
  have "map (\<lambda>st. (s_prod_head st, s_prod_curr st)) ((streams m)[j := f (streams m ! j)]) =
      map (\<lambda>st. (s_prod_head st, s_prod_curr st)) (streams m)"
    using assms by (intro map_update_same') simp
  then show ?thesis by (simp add: wiring_def)
qed

lemma wiring_counts: "wiring (leave_stream j m) = wiring m" "wiring (set_count j i c m) = wiring m"
  unfolding leave_stream_def set_count_def by (rule wiring_streams; simp)+

lemma disconnect_begins:
  assumes "main_at s = At_call" "script s = Disconnect 2 0 # ops" "cells_ok (at_mem s) {1, 2}"
  shows "main_turn s = Inr (Some (with_mem s (leave_stream 0 (at_mem s))\<lparr>main_at := Count_test 2 0 0\<rparr>))"
proof -
  have two: "linked (at_mem s) 2 [2]" "2 < length (streams (at_mem s))" "source_of (at_mem s) 2 = Some 0" using assms(3) by (simp_all add: cells_ok_def)
  obtain x where x: "prod_at (at_mem s) 2 = Inr x" "p_prev x = NULL" "p_stream x = 0"
    using linked_single(3) [OF two(1,2)] two(3) by (auto simp: source_of_def)
  moreover have "s_prod_head (streams (at_mem s) ! 2) = 2" by (rule linked_single(1) [OF two(1,2)])
  ultimately show ?thesis using assms(1,2) by (simp add: main_turn_def disconnect_turn_def unlink_prod_def Let_def)
qed

lemma cell_freed:
  assumes "cells_ok m {1, 2}"
  shows "cells_ok (m\<lparr>prods := (prods m)[2 := None]\<rparr>) {1}" "left_dangling 2 (m\<lparr>prods := (prods m)[2 := None]\<rparr>)"
proof -
  let ?m = "m\<lparr>prods := (prods m)[2 := None]\<rparr>"
  have l: "linked m 1 [1]" "1 < length (streams m)" "source_of m 1 = Some 0" "linked m 2 [2]" "2 < length (streams m)" "source_of m 2 = Some 0"
    using assms by (simp_all add: cells_ok_def)
  have one: "prod_at ?m 1 = prod_at m 1" by (simp add: prod_at_def)
  then have "linked ?m 1 [1]" using l(1) seg_cong [of "[1]" ?m m] by (simp add: linked_def del: seg.simps)
  moreover have "source_of ?m 1 = Some 0" using l(3) one by (simp add: source_of_def)
  ultimately show "cells_ok ?m {1}" using l(2) by (simp add: cells_ok_def)
  obtain x where "prod_at m 2 = Inr x" using linked_single(3) [OF l(4,5)] by blast
  moreover from this have "prod_at ?m 2 = Inl BadDeref" "2 < length (prods m)" by (auto simp: prod_at_def split: if_splits)
  ultimately show "left_dangling 2 ?m" using linked_single(1,2) [OF l(4,5)] l(5) by (simp add: left_dangling_def)
qed

lemma counting_goes:
  assumes "counting (main_at s)" "cells_ok (at_mem s) {1, 2}"
  shows "shown (count_turn s) = shown s \<and> threads (running (count_turn s)) = threads (running s) \<and>
    (counting (main_at (count_turn s)) \<and> script (count_turn s) = script s \<and> cells_ok (at_mem (count_turn s)) {1, 2} \<or>
     main_at (count_turn s) = At_call \<and> script (count_turn s) = tl (script s) \<and> cells_ok (at_mem (count_turn s)) {1} \<and>
       left_dangling 2 (at_mem (count_turn s)))"
proof -
  have slot: "shown (after_slot 2 0 i u) = shown u \<and> threads (running (after_slot 2 0 i u)) = threads (running u) \<and>
      (counting (main_at (after_slot 2 0 i u)) \<and> script (after_slot 2 0 i u) = script u \<and> cells_ok (at_mem (after_slot 2 0 i u)) {1, 2} \<or>
       main_at (after_slot 2 0 i u) = At_call \<and> script (after_slot 2 0 i u) = tl (script u) \<and> cells_ok (at_mem (after_slot 2 0 i u)) {1} \<and>
       left_dangling 2 (at_mem (after_slot 2 0 i u)))" if "cells_ok (at_mem u) {1, 2}" for u i
    using that cell_freed [OF that] by (auto simp: after_slot_def)
  have stored: "cells_ok (set_count 0 i c (at_mem s)) {1, 2}" for i c by (rule cells_ok_wiring [OF wiring_counts(2) assms(2)])
  show ?thesis
  proof (cases "main_at s")
    case (Count_test q j i)
    then show ?thesis using assms slot [OF assms(2)] by (simp add: count_turn_def)
  next
    case (Count_load q j i)
    then show ?thesis using assms by (simp add: count_turn_def)
  next
    case (Count_store q j i c)
    then show ?thesis using assms(1) slot [of "with_mem s (set_count 0 i (c - 1) (at_mem s))" i] stored by (simp add: count_turn_def)
  qed (use assms in simp_all)
qed

text \<open>A call of \<open>consume_single\<close>.\<close>

lemma consume_wires:
  assumes "main_turn s = Inr (Some s')" "main_at s = At_call" "script s = Consume k # ops"
  shows "wiring (at_mem s') = wiring (at_mem s) \<and> main_at s' = At_call \<and> threads (running s') = threads (running s) \<and>
    prefix (shown s) (shown s') \<and> (script s' = script s \<or> script s' = ops)"
proof -
  obtain n1 where n1: "get_next (s_prod_head (streams (mem (network (running s))) ! k)) (network (running s)) = Inr (Some n1)"
    "running s' = (running s)\<lparr>network := n1\<rparr>" "main_at s' = At_call"
    "if gpcs (network (running s)) ! s_prod_head (streams (mem (network (running s))) ! k) = GUnlock
     then script s' = ops \<and> shown s' = shown s @ [(k, last (got n1 ! s_prod_head (streams (mem (network (running s))) ! k)))]
     else script s' = script s \<and> shown s' = shown s"
    by (rule main_turn_consume [OF assms refl])
  then show ?thesis using wiring_get [OF n1(1)] by (auto simp: at_mem_def split: if_splits)
qed

lemma consume_no_fault:
  assumes "main_at s = At_call" "script s = Consume k # ops" "cells_ok (at_mem s) C" "k \<in> C"
  shows "main_turn s \<noteq> Inl e"
proof -
  have l: "linked (at_mem s) k [k]" "k < length (streams (at_mem s))" using assms(3,4) by (auto simp: cells_ok_def)
  obtain x where "prod_at (at_mem s) k = Inr x" "s_prod_head (streams (at_mem s) ! k) = k"
    using linked_single(1,3) [OF l] by blast
  then show ?thesis using assms(1,2)
    by (auto simp: main_turn_def consume_turn_main_def consume_single_def get_next_def at_mem_def Let_def split: option.split)
qed

lemma reconnect_index:
  assumes "script s = drop i reconnect_script" "i < 16"
  shows "script s = (if i < 3 then Consume 1 else if i < 6 then Consume 2
     else if i = 6 then Disconnect 2 0 else if i < 15 then Consume 1 else Connect 2 0) # drop (Suc i) reconnect_script"
    "script s = after_reconnect \<longleftrightarrow> i = 15"
proof -
  show "script s = (if i < 3 then Consume 1 else if i < 6 then Consume 2
     else if i = 6 then Disconnect 2 0 else if i < 15 then Consume 1 else Connect 2 0) # drop (Suc i) reconnect_script"
    using reconnect_ops [OF assms(2)] assms(1) by simp
  have len: "length reconnect_script = 32" "length after_reconnect = 17"
    by (simp_all add: reconnect_script_def before_reconnect_def after_reconnect_def)
  have "drop 15 reconnect_script = after_reconnect" by (simp add: reconnect_script_def before_reconnect_def)
  moreover have "i = 15" if "script s = after_reconnect" using arg_cong [OF that, of length] len assms by simp
  ultimately show "script s = after_reconnect \<longleftrightarrow> i = 15" using assms(1) by metis
qed

lemma reconnect_drop: "i \<le> 15 \<Longrightarrow> drop i reconnect_script = drop i before_reconnect @ after_reconnect"
proof -
  have "length before_reconnect = 15" by (simp add: before_reconnect_def)
  then show "i \<le> 15 \<Longrightarrow> drop i reconnect_script = drop i before_reconnect @ after_reconnect" by (simp add: reconnect_script_def)
qed

lemma wired_leaves:
  assumes "reconnect_inv (expected (\<lambda>k. 0) reconnect_script) s" "script s = drop 6 reconnect_script"
  shows "shown s = take 6 (expected (\<lambda>k. 0) reconnect_script)"
proof -
  let ?all = "expected (\<lambda>k. 0) reconnect_script"
  obtain C where "session_ok C ?all s" using assms(1) by (auto simp: reconnect_inv_def)
  then have shown: "shown s @ expected (taken_by (network (running s))) (drop 6 reconnect_script) = ?all"
    using session_shown assms(2) by metis
  have "length (filter is_Consume (drop 6 reconnect_script)) + 6 = length ?all" by code_simp
  then have "length (shown s) = 6" using arg_cong [OF shown, of length] length_expected by simp
  then show ?thesis using shown by (metis append_eq_conv_conj)
qed

lemma wired_main:
  assumes turn: "main_turn s = Inr (Some s')" and inv: "wired_inv (expected (\<lambda>k. 0) reconnect_script) s"
  shows "wired_inv (expected (\<lambda>k. 0) reconnect_script) s'"
proof -
  let ?all = "expected (\<lambda>k. 0) reconnect_script"
  obtain x i where x: "threads (running s) = [Successor 0 x]" and i: "script s = drop i reconnect_script"
    and cases: "i \<le> 6 \<and> reconnect_inv ?all s \<and> cells_ok (at_mem s) {1, 2} \<or>
        i = 6 \<and> counting (main_at s) \<and> cells_ok (at_mem s) {1, 2} \<and> shown s = take 6 ?all \<or>
        7 \<le> i \<and> i \<le> 15 \<and> main_at s = At_call \<and> cells_ok (at_mem s) {1} \<and> left_dangling 2 (at_mem s) \<and> prefix (take 6 ?all) (shown s)"
    using inv unfolding wired_inv_def by blast
  have "i < 16" using cases by auto
  note ops = reconnect_index(1) [OF i this]
  from cases consider (before) "i < 6" "reconnect_inv ?all s" "cells_ok (at_mem s) {1, 2}" | (leave) "i = 6" "reconnect_inv ?all s" "cells_ok (at_mem s) {1, 2}"
    | (counts) "i = 6" "counting (main_at s)" "cells_ok (at_mem s) {1, 2}" "shown s = take 6 ?all"
    | (later) "7 \<le> i" "i \<le> 15" "main_at s = At_call" "cells_ok (at_mem s) {1}" "left_dangling 2 (at_mem s)" "prefix (take 6 ?all) (shown s)"
    by linarith
  then show ?thesis
  proof cases
    case before
    have pc: "main_at s = At_call" using before(2) by (simp add: reconnect_inv_def)
    have op: "script s = Consume (if i < 3 then 1 else 2) # drop (Suc i) reconnect_script" using ops before(1) by simp
    note w = consume_wires [OF turn pc op]
    have "reconnect_inv ?all s'" using reconnect_main [OF turn before(2)] w by (simp add: settle_still)
    moreover have "cells_ok (at_mem s') {1, 2}" using cells_ok_wiring [OF _ before(3)] w by blast
    moreover have "script s' = drop i reconnect_script \<or> script s' = drop (Suc i) reconnect_script" using w i by metis
    moreover have "\<exists>x. threads (running s') = [Successor 0 x]" using w x by simp
    ultimately show ?thesis unfolding wired_inv_def using before(1) by (metis Suc_leI less_imp_le)
  next
    case leave
    have pc: "main_at s = At_call" using leave(2) by (simp add: reconnect_inv_def)
    have op: "script s = Disconnect 2 0 # drop 7 reconnect_script" using ops leave(1) by simp
    have s': "s' = with_mem s (leave_stream 0 (at_mem s))\<lparr>main_at := Count_test 2 0 0\<rparr>"
      using disconnect_begins [OF pc op leave(3)] turn by simp
    have "cells_ok (leave_stream 0 (at_mem s)) {1, 2}" by (rule cells_ok_wiring [OF wiring_counts(1) leave(3)])
    moreover have "shown s = take 6 ?all" using wired_leaves [OF leave(2)] i leave(1) by simp
    ultimately show ?thesis unfolding wired_inv_def using x i leave(1) by - (rule conjI, simp add: s', rule exI [of _ 6], simp add: s')
  next
    case counts
    have left: "turns_left (main_at s) \<noteq> 0" using counts(2) by (cases "main_at s") simp_all
    have s': "s' = count_turn s" using count_turn_main [OF left] turn by simp
    have "drop 7 reconnect_script = tl (script s)" using ops counts(1) by simp
    note c = counting_goes [OF counts(2,3)]
    have thr: "\<exists>x. threads (running (count_turn s)) = [Successor 0 x]" using c x by simp
    from c consider (on) "counting (main_at (count_turn s))" "script (count_turn s) = drop 6 reconnect_script" "cells_ok (at_mem (count_turn s)) {1, 2}"
      | (freed) "main_at (count_turn s) = At_call" "script (count_turn s) = drop 7 reconnect_script" "cells_ok (at_mem (count_turn s)) {1}"
          "left_dangling 2 (at_mem (count_turn s))" using i counts(1) \<open>drop 7 reconnect_script = tl (script s)\<close> by metis
    then show ?thesis
    proof cases
      case on
      then show ?thesis unfolding wired_inv_def s' using thr c counts(4) by - (rule conjI, simp, rule exI [of _ 6], simp)
    next
      case freed
      then show ?thesis unfolding wired_inv_def s' using thr c counts(4) by - (rule conjI, simp, rule exI [of _ 7], simp)
    qed
  next
    case later
    show ?thesis
    proof (cases "i = 15")
      case True
      then show ?thesis using turn ops later(3) dangling_connect_cell [OF later(5), of 0] by (simp add: main_turn_def)
    next
      case False
      then have op: "script s = Consume 1 # drop (Suc i) reconnect_script" using ops later(1,2) by simp
      note w = consume_wires [OF turn later(3) op]
      have "cells_ok (at_mem s') {1}" "left_dangling 2 (at_mem s')"
        using cells_ok_wiring [OF _ later(4)] dangling_wiring [OF _ later(5)] w by blast+
      moreover have "prefix (take 6 ?all) (shown s')" using later(6) w prefix_order.trans by blast
      moreover have "script s' = drop i reconnect_script \<or> script s' = drop (Suc i) reconnect_script" using w i by metis
      moreover have "i \<le> 15" "Suc i \<le> 15" "7 \<le> Suc i" using later(1,2) False by simp_all
      ultimately show ?thesis unfolding wired_inv_def using later(1) w x by metis
    qed
  qed
qed

lemma wired_reach:
  "session_reach any_time s0 s \<Longrightarrow> wired_inv (expected (\<lambda>k. 0) reconnect_script) s0 \<Longrightarrow> wired_inv (expected (\<lambda>k. 0) reconnect_script) s"
  by (induction rule: session_reach.induct) (auto intro: wired_worker wired_main)

lemma wired_start:
  assumes "reconnect_inv (expected (\<lambda>k. 0) reconnect_script) s0" "script s0 = reconnect_script"
  shows "wired_inv (expected (\<lambda>k. 0) reconnect_script) s0"
proof -
  obtain i where i: "script s0 = drop i reconnect_script" "i \<le> 15" "i \<le> 6 \<Longrightarrow> session_ok {1, 2} (expected (\<lambda>k. 0) reconnect_script) s0"
    using assms(1) by (auto simp: reconnect_inv_def)
  have "length reconnect_script = 32" by code_simp
  then have "i = 0" using i(2) arg_cong [OF i(1), of length] assms(2) by simp
  then have ok: "session_ok {1, 2} (expected (\<lambda>k. 0) reconnect_script) s0" using i(3) by simp
  then obtain th where th: "threads (running s0) = [th]" "successor_ok 0 (network (running s0)) th" by (auto simp: session_ok_def Let_def)
  then have "\<exists>x. threads (running s0) = [Successor 0 x]" by (cases th) auto
  then show ?thesis unfolding wired_inv_def using session_cells [OF ok] assms by - (rule conjI, simp, rule exI [of _ 0], simp)
qed

text \<open>Where the main thread faults.\<close>

lemma wired_faults:
  assumes "wired_inv all s"
  shows "main_turn s = Inl f \<longleftrightarrow> f = BadDeref \<and> script s = after_reconnect"
proof -
  obtain i where i: "script s = drop i reconnect_script"
    and cases: "i \<le> 6 \<and> reconnect_inv all s \<and> cells_ok (at_mem s) {1, 2} \<or>
        i = 6 \<and> counting (main_at s) \<and> cells_ok (at_mem s) {1, 2} \<and> shown s = take 6 all \<or>
        7 \<le> i \<and> i \<le> 15 \<and> main_at s = At_call \<and> cells_ok (at_mem s) {1} \<and> left_dangling 2 (at_mem s) \<and> prefix (take 6 all) (shown s)"
    using assms unfolding wired_inv_def by blast
  have "i < 16" using cases by auto
  note ops = reconnect_index [OF i this]
  show ?thesis
  proof (cases "counting (main_at s)")
    case True
    then have "turns_left (main_at s) \<noteq> 0" by (cases "main_at s") simp_all
    from count_turn_main [OF this] have "main_turn s \<noteq> Inl f" by simp
    moreover have "script s \<noteq> after_reconnect" using True cases ops(2) by (auto simp: reconnect_inv_def)
    ultimately show ?thesis by blast
  next
    case False
    then have pc: "main_at s = At_call" using cases by (auto simp: reconnect_inv_def)
    consider (call) k C where "script s = Consume k # drop (Suc i) reconnect_script" "cells_ok (at_mem s) C" "k \<in> C" "i \<noteq> 15"
      | (leave) "script s = Disconnect 2 0 # drop 7 reconnect_script" "cells_ok (at_mem s) {1, 2}" "i = 6"
      | (reconnect) "script s = Connect 2 0 # drop 16 reconnect_script" "left_dangling 2 (at_mem s)" "i = 15"
    proof -
      have thesis if "i < 6" by (rule call [of "if i < 3 then 1 else 2" "{1, 2}"]) (use ops(1) cases that in auto)
      moreover have thesis if "i = 6" by (rule leave) (use ops(1) cases that in auto)
      moreover have thesis if "6 < i" "i < 15" by (rule call [of 1 "{1}"]) (use ops(1) cases that in auto)
      moreover have thesis if "i = 15" by (rule reconnect) (use ops(1) cases that in auto)
      ultimately show thesis using \<open>i < 16\<close> by linarith
    qed
    then show ?thesis
    proof cases
      case call
      then show ?thesis using consume_no_fault [OF pc call(1-3)] ops(2) by blast
    next
      case leave
      then show ?thesis using disconnect_begins [OF pc leave(1,2)] ops(2) by simp
    next
      case reconnect
      then have "main_turn s = Inl BadDeref" using pc dangling_connect_cell [OF reconnect(2)] by (simp add: main_turn_def)
      then show ?thesis using ops(2) reconnect(3) by auto
    qed
  qed
qed

section \<open>Where the program ends\<close>

lemma quiet_prints:
  assumes "reconnect_inv (expected (\<lambda>k. 0) reconnect_script) s"
  shows "prefix (shown s) reconnect_prints" "script s = after_reconnect \<Longrightarrow> shown s = reconnect_prints"
proof -
  let ?all = "expected (\<lambda>k. 0) reconnect_script" and ?n = "network (running s)"
  have all: "?all = reconnect_prints @ drop 14 ?all" by code_simp
  obtain i C where i: "script s = drop i reconnect_script" "i \<le> 15" and ok: "session_ok C ?all s"
    using assms by (auto simp: reconnect_inv_def)
  have shown: "shown s @ expected (taken_by ?n) (script s) = ?all" by (rule session_shown [OF ok])
  have script: "script s = drop i before_reconnect @ after_reconnect" using i reconnect_drop by simp
  have "length (shown s) + length (filter is_Consume (script s)) = length reconnect_prints + length (filter is_Consume after_reconnect)"
    using arg_cong [OF shown, of length] length_expected by (simp add: reconnect_lengths)
  then have short: "length (shown s) + length (filter is_Consume (drop i before_reconnect)) = length reconnect_prints"
    by (simp add: script)
  then have "length (shown s) \<le> length reconnect_prints" by linarith
  then show pre: "prefix (shown s) reconnect_prints"
    by (rule prefix_length_prefix [OF prefixI [OF shown [symmetric]] prefixI [OF all]])
  assume "script s = after_reconnect"
  then have "drop i before_reconnect = []" using script by simp
  then have "length (shown s) = length reconnect_prints" using short by simp
  then show "shown s = reconnect_prints" using pre by (metis append_Nil2 append_eq_append_conv prefixE)
qed

lemma six_prints:
  assumes "wired_inv (expected (\<lambda>k. 0) reconnect_script) s"
  shows "prefix (shown s) (take 6 reconnect_prints) \<or> prefix (take 6 reconnect_prints) (shown s)"
proof -
  have six: "take 6 (expected (\<lambda>k. 0) reconnect_script) = take 6 reconnect_prints" by code_simp
  consider (quiet) "reconnect_inv (expected (\<lambda>k. 0) reconnect_script) s" | (later) "prefix (take 6 reconnect_prints) (shown s)"
    using assms unfolding wired_inv_def six by fastforce
  then show ?thesis
  proof cases
    case quiet
    then show ?thesis using prefix_same_cases [OF quiet_prints(1) [OF quiet] take_is_prefix] by blast
  qed blast
qed

text \<open>C27: Where \<open>disconnect_reconnect.c\<close> ends. Under every schedule of the successor, also between any two accesses of
  \<open>stream_disconnect\<close>, the first six messages are consumer 1 got 1, 2, 3 and consumer 2 got 1, 2, 3, and the main
  thread faults at the reconnection of consumer 2, where it writes through \<open>prod_curr\<close>, which still points to the freed cell, and
  nowhere else: it never gets past it. When the successor takes no turn while \<open>stream_disconnect\<close> is under way, the program can go on to
  the reconnection from every state, and has then printed, after the six, that consumer 1 got 4 to 11.\<close>

theorem reconnect_faults:
  assumes "disconnect_reconnect raw = Inr s0" "length raw = 3" "\<And>r. r \<in> set raw \<Longrightarrow> length (s_buffer r) = 5" "session_reach any_time s0 s"
  shows "suffix after_reconnect (script s) \<and> (main_turn s = Inl f \<longleftrightarrow> f = BadDeref \<and> script s = after_reconnect) \<and>
     (prefix (shown s) (take 6 reconnect_prints) \<or> prefix (take 6 reconnect_prints) (shown s)) \<and>
     (session_reach between_calls s0 s \<longrightarrow> prefix (shown s) reconnect_prints \<and>
        (\<exists>s'. session_reach between_calls s s' \<and> script s' = after_reconnect \<and> shown s' = reconnect_prints))"
proof -
  let ?all = "expected (\<lambda>k. 0) reconnect_script"
  have inv: "reconnect_inv ?all s0" by (rule reconnect_start [OF assms(1-3)])
  have script: "script s0 = reconnect_script" using assms(1)
    by (auto simp: disconnect_reconnect_def start_session_def reconnect_script_def bindE_Inr_iff)
  have wired: "wired_inv ?all s" by (rule wired_reach [OF assms(4) wired_start [OF inv script]])
  obtain i where "script s = drop i reconnect_script" "i \<le> 15" using wired by (auto simp: wired_inv_def)
  then have "script s = drop i before_reconnect @ after_reconnect" using reconnect_drop by simp
  then have "suffix after_reconnect (script s)" by (rule suffixI)
  moreover have "prefix (shown s) reconnect_prints \<and>
      (\<exists>s'. session_reach between_calls s s' \<and> script s' = after_reconnect \<and> shown s' = reconnect_prints)" if q: "session_reach between_calls s0 s"
  proof -
    have start: "settle s0 = s0" using inv by (intro settle_still) (simp add: reconnect_inv_def)
    have here: "reconnect_inv ?all (settle s)" using reconnect_quiet [OF q] inv start by simp
    obtain s' where s': "session_reach between_calls (settle s) s'" "reconnect_inv ?all s'"
      "script s' = after_reconnect" using reconnect_goes [OF here] by blast
    have "session_reach between_calls s s'" by (rule session_trans [OF s'(1) settle_reach])
    then show ?thesis using quiet_prints(1) [OF here] settle_shown quiet_prints(2) [OF s'(2,3)] s'(3) by metis
  qed
  ultimately show ?thesis using wired_faults [OF wired] six_prints [OF wired] by blast
qed

definition reconnect_session :: session where
  "reconnect_session = (case disconnect_reconnect (replicate 3 raw_stream) of Inr s \<Rightarrow> s)"

theorem reconnect_faults_witness:
  "\<exists>s. session_reach between_calls reconnect_session s \<and> shown s = reconnect_prints \<and> main_turn s = Inl BadDeref"
proof -
  have start: "disconnect_reconnect (replicate 3 raw_stream) = Inr reconnect_session" by code_simp
  let ?s = "successor_first between_calls 200 reconnect_session"
  have fin: "script ?s = after_reconnect" "shown ?s = reconnect_prints" by code_simp+
  have reach: "session_reach between_calls reconnect_session ?s" by (rule successor_first_reach [OF session_start])
  have buf: "length (s_buffer r) = 5" if "r \<in> set (replicate 3 raw_stream)" for r using that by (simp add: raw_stream_def)
  have "length (replicate 3 raw_stream) = 3" by simp
  from reconnect_faults [OF start this buf session_any [OF reach]] fin reach show ?thesis by blast
qed

section \<open>A token put during the disconnect\<close>

text \<open>A schedule: \<open>True\<close> is a turn of the main thread.\<close>

fun session_play :: "bool list \<Rightarrow> session \<Rightarrow> session option" where
  "session_play [] s = Some s"
| "session_play (b # bs) s = (if threads (running s) = [] then None
     else case (if b then main_turn s else worker_turn 0 s) of Inr (Some s1) \<Rightarrow> session_play bs s1 | _ \<Rightarrow> None)"

lemma session_play_reach: "session_play bs s = Some s' \<Longrightarrow> session_reach any_time s0 s \<Longrightarrow> session_reach any_time s0 s'"
proof (induction bs arbitrary: s)
  case (Cons b bs)
  then obtain s1 where s1: "(if b then main_turn s else worker_turn 0 s) = Inr (Some s1)" "session_play bs s1 = Some s'" "threads (running s) \<noteq> []"
    by (auto split: if_splits sum.splits option.splits)
  have "session_reach any_time s0 s1"
  proof (cases b)
    case True
    then show ?thesis using session_main [OF Cons.prems(2)] s1(1) by simp
  next
    case False
    have "any_time s" by (simp add: any_time_def)
    from session_worker [OF Cons.prems(2) this, of 0] s1(1,3) False show ?thesis by simp
  qed
  then show ?case by (rule Cons.IH [OF s1(2)])
qed simp

text \<open>The successor puts four tokens and goes on to the body of \<open>put\<close> for the fifth; the consumers read three each; the disconnect
  goes on to the last slot and loads its count, 9999; the token enters that slot and resets the count; the disconnect stores 9998.\<close>

definition racing :: "bool list" where
  "racing = replicate 26 False @ replicate 36 True @ replicate 2 False @ replicate 13 True @ [False, True]"

definition raced_session :: session where
  "raced_session = (case session_play racing reconnect_session of Some s \<Rightarrow> s)"

lemma raced_run: "case session_play racing reconnect_session of None \<Rightarrow> False | Some s \<Rightarrow> True"
  by code_simp

text \<open>Stream 0 from then on: the fifth slot counts as read by everybody. The consumer gets the token before it; then no token can enter
  that slot, because the producer would need more empty slots than the semaphore counts.\<close>

definition mute_ok :: "int stream \<Rightarrow> nat \<Rightarrow> get_pc \<Rightarrow> int put_pc \<Rightarrow> int list \<Rightarrow> int list \<Rightarrow> bool" where
  "mute_ok st i g pp snt gt \<longleftrightarrow> s_consumers st = 1 \<and> length (s_read_count st) = 5 \<and> length (s_buffer st) = 5 \<and> 1 \<le> s_read_count st ! 4 \<and>
     5 \<le> length snt \<and> length snt \<le> 9 \<and> s_put_idx st = length snt mod 5 \<and> s_empty st + holds_slot pp + length snt \<le> 5 + length gt \<and> i = length gt \<and>
     (length gt = 3 \<and> s_buffer st ! 3 = 4 \<and> g \<noteq> GUnlock \<or> length gt = 4 \<and> last gt = 4 \<and> g \<noteq> GBody)"

lemma mute_get:
  assumes "mute_ok st i g pp snt gt" "get_turn p st i g = Some (st', i', g', out)"
  shows "mute_ok st' i' g' pp snt (gt @ out)"
  using assms
  by (cases g) (auto simp: mute_ok_def get_turn_def get_waits2_def get_body_def BUFFER_SIZE_def Let_def split: if_splits)

lemma mute_put:
  assumes "mute_ok st i g pp snt gt" "put_turn j v st pp = Some (st', pp', ins)"
  shows "mute_ok st' i g pp' (snt @ ins) gt"
proof (cases "\<exists>x. pp = PBody x")
  case True
  then obtain x where x: "pp = PBody x" "st' = put_body x st" "pp' = PUnlock" "ins = [x]" using assms(2) by (auto simp: put_turn_def)
  have b: "length snt \<le> 4 + length gt" "5 \<le> length snt" "length gt \<le> 4" using assms(1) x(1) by (auto simp: mute_ok_def)
  then consider "length snt = 5" | "length snt = 6" | "length snt = 7" | "length snt = 8" "length gt = 4" by linarith
  then show ?thesis using assms(1) x b by cases (simp_all add: mute_ok_def put_body_def BUFFER_SIZE_def)
next
  case False
  then show ?thesis using assms by (cases pp) (auto simp: mute_ok_def put_turn_def split: if_splits)
qed

definition mute :: "session \<Rightarrow> bool" where
  "mute s \<longleftrightarrow> (let n = network (running s); st = streams (mem n) ! 0 in
     main_at s = At_call \<and> (\<exists>x. threads (running s) = [Successor 0 x]) \<and>
     (\<exists>x. prod_at (mem n) 1 = Inr x \<and> p_stream x = 0 \<and> mute_ok st (p_idx x) (gpcs n ! 1) (ppcs n ! 0) (sent n ! 0) (got n ! 1)) \<and>
     1 < length (streams (mem n)) \<and> s_prod_head (streams (mem n) ! 1) = 1 \<and>
     1 < length (gpcs n) \<and> 1 < length (got n) \<and> 0 < length (ppcs n) \<and> 0 < length (sent n) \<and>
     (script s = drop 7 reconnect_script \<and> shown s = take 6 reconnect_prints \<and> (length (got n ! 1) = 3 \<or> gpcs n ! 1 = GUnlock) \<or>
      script s = drop 8 reconnect_script \<and> shown s = take 7 reconnect_prints \<and> length (got n ! 1) = 4 \<and> gpcs n ! 1 \<noteq> GUnlock))"

lemma mute_worker:
  assumes "worker_turn t s = Inr (Some s')" "t < length (threads (running s))" "mute s"
  shows "mute s'"
proof -
  let ?n = "network (running s)"
  obtain x where x: "threads (running s) = [Successor 0 x]" using assms(3) by (auto simp: mute_def Let_def)
  have same: "wiring (at_mem s') = wiring (at_mem s)" "script s' = script s" "main_at s' = main_at s" "shown s' = shown s"
    "\<exists>y. threads (running s') = [Successor 0 y]" using worker_wires [OF assms(1,2) x] by blast+
  obtain n1 where n1: "put_next 0 x ?n = Some n1" "network (running s') = n1"
    using assms(1,2) x by (auto simp: worker_turn_def thread_turn_def Let_def split: option.splits if_splits)
  obtain st pc ins where t: "put_turn 0 x (streams (mem ?n) ! 0) (ppcs ?n ! 0) = Some (st, pc, ins)"
    and n': "n1 = ?n\<lparr>mem := (mem ?n)\<lparr>streams := (streams (mem ?n))[0 := st]\<rparr>,
         ppcs := (ppcs ?n)[0 := pc], sent := (sent ?n)[0 := sent ?n ! 0 @ ins]\<rparr>"
    using n1(1) by (auto simp: put_next_def split: option.splits)
  obtain y where y: "prod_at (mem ?n) 1 = Inr y" "p_stream y = 0"
    and ok: "mute_ok (streams (mem ?n) ! 0) (p_idx y) (gpcs ?n ! 1) (ppcs ?n ! 0) (sent ?n ! 0) (got ?n ! 1)"
    using assms(3) by (auto simp: mute_def Let_def)
  have "prod_at (mem n1) 1 = prod_at (mem ?n) 1" by (simp add: n' prod_at_def)
  then have "prod_at (mem n1) 1 = Inr y" using y(1) by simp
  moreover have "0 < length (streams (mem ?n))" using assms(3) by (auto simp: mute_def Let_def)
  ultimately show ?thesis using assms(3) mute_put [OF ok t] y(2) same(2-5) unfolding mute_def Let_def n1(2)
    by (simp add: n')
qed

lemma mute_main:
  assumes "main_turn s = Inr (Some s')" "mute s"
  shows "mute s'"
proof -
  let ?n = "network (running s)"
  have pc: "main_at s = At_call" and head: "s_prod_head (streams (mem ?n) ! 1) = 1" and len: "0 < length (streams (mem ?n))" "1 < length (streams (mem ?n))"
    "1 < length (gpcs ?n)" "1 < length (got ?n)" using assms(2) by (auto simp: mute_def Let_def)
  have where_at: "script s = drop 7 reconnect_script \<and> shown s = take 6 reconnect_prints \<and> (length (got ?n ! 1) = 3 \<or> gpcs ?n ! 1 = GUnlock) \<or>
      script s = drop 8 reconnect_script \<and> shown s = take 7 reconnect_prints \<and> length (got ?n ! 1) = 4 \<and> gpcs ?n ! 1 \<noteq> GUnlock"
    using assms(2) by (simp add: mute_def Let_def)
  have ops: "drop 7 reconnect_script = Consume 1 # drop 8 reconnect_script" "drop 8 reconnect_script = Consume 1 # drop 9 reconnect_script"
    by code_simp+
  obtain ops where op: "script s = Consume 1 # ops" "ops = (if script s = drop 7 reconnect_script then drop 8 reconnect_script else drop 9 reconnect_script)"
    using where_at ops by auto
  from main_turn_consume [OF assms(1) pc op(1) head] obtain n1 where nx: "get_next 1 ?n = Inr (Some n1)" and s': "running s' = (running s)\<lparr>network := n1\<rparr>"
    "main_at s' = At_call" "if gpcs ?n ! 1 = GUnlock then script s' = ops \<and> shown s' = shown s @ [(1, last (got n1 ! 1))]
     else script s' = script s \<and> shown s' = shown s" by blast
  obtain y where y: "prod_at (mem ?n) 1 = Inr y" "p_stream y = 0"
    and ok: "mute_ok (streams (mem ?n) ! 0) (p_idx y) (gpcs ?n ! 1) (ppcs ?n ! 0) (sent ?n ! 0) (got ?n ! 1)"
    using assms(2) by (auto simp: mute_def Let_def)
  obtain st i g out where t: "get_turn 1 (streams (mem ?n) ! 0) (p_idx y) (gpcs ?n ! 1) = Some (st, i, g, out)"
    and n1: "n1 = ?n\<lparr>mem := (mem ?n)\<lparr>streams := (streams (mem ?n))[0 := st], prods := (prods (mem ?n))[1 := Some (y\<lparr>p_idx := i\<rparr>)]\<rparr>,
         gpcs := (gpcs ?n)[1 := g], got := (got ?n)[1 := got ?n ! 1 @ out]\<rparr>"
    using nx y by (auto simp: get_next_def split: option.splits)
  have ok1: "mute_ok st i g (ppcs ?n ! 0) (sent ?n ! 0) (got ?n ! 1 @ out)" by (rule mute_get [OF ok t])
  have cell: "prod_at (mem n1) 1 = Inr (y\<lparr>p_idx := i\<rparr>)" using y(1) by (simp add: n1 prod_at_def split: if_splits)
  have links: "s_prod_head (streams (mem n1) ! 1) = 1" using head by (simp add: n1)
  have step: "gpcs ?n ! 1 = GUnlock \<Longrightarrow> g = GIdle \<and> out = []" "gpcs ?n ! 1 \<noteq> GBody \<Longrightarrow> out = []" "gpcs ?n ! 1 = GBody \<Longrightarrow> g = GUnlock"
    "gpcs ?n ! 1 \<noteq> GBody \<Longrightarrow> g \<noteq> GUnlock"
    using t by (auto simp: get_turn_def split: get_pc.splits if_splits prod.splits)
  have "script s' = drop 7 reconnect_script \<and> shown s' = take 6 reconnect_prints \<and> (length (got n1 ! 1) = 3 \<or> gpcs n1 ! 1 = GUnlock) \<or>
      script s' = drop 8 reconnect_script \<and> shown s' = take 7 reconnect_prints \<and> length (got n1 ! 1) = 4 \<and> gpcs n1 ! 1 \<noteq> GUnlock"
  proof (cases "gpcs ?n ! 1 = GUnlock")
    case True
    then have w: "script s = drop 7 reconnect_script" "shown s = take 6 reconnect_prints" using where_at by auto
    have "length (got ?n ! 1) = 4" "last (got ?n ! 1) = 4" using ok True by (auto simp: mute_ok_def)
    moreover have "take 7 reconnect_prints = take 6 reconnect_prints @ [(1, 4)]" by code_simp
    ultimately show ?thesis using True s'(3) step(1) op(2) w len by (simp add: n1)
  next
    case False
    then have same: "script s' = script s" "shown s' = shown s" using s'(3) by simp_all
    show ?thesis
    proof (cases "gpcs ?n ! 1 = GBody")
      case True
      then show ?thesis using same where_at step(3) len ok by (auto simp: n1 mute_ok_def)
    next
      case body: False
      then show ?thesis using same where_at step(2,4) False len by (simp add: n1)
    qed
  qed
  then show ?thesis using assms(2) ok1 cell links y(2) s'(1,2) len by (simp add: mute_def Let_def) (simp add: n1)
qed

lemma mute_reach: "session_reach any_time s0 s \<Longrightarrow> mute s0 \<Longrightarrow> mute s"
  by (induction rule: session_reach.induct) (auto intro: mute_worker mute_main)

lemma raced_mute: "mute raced_session"
proof -
  let ?n = "network (running raced_session)" and ?x = "\<lparr>p_idx = 3, p_stream = 0, p_next = NULL, p_prev = NULL\<rparr>"
  have "threads (running raced_session) = [Successor 0 5]" "prod_at (mem ?n) 1 = Inr ?x"
    "mute_ok (streams (mem ?n) ! 0) (p_idx ?x) (gpcs ?n ! 1) (ppcs ?n ! 0) (sent ?n ! 0) (got ?n ! 1)"
    "s_prod_head (streams (mem ?n) ! 1) = 1" "script raced_session = drop 7 reconnect_script" "shown raced_session = take 6 reconnect_prints"
    by code_simp+
  moreover have "main_at raced_session = At_call \<and> 1 < length (streams (mem ?n)) \<and> 1 < length (gpcs ?n) \<and> 1 < length (got ?n) \<and>
      0 < length (ppcs ?n) \<and> 0 < length (sent ?n) \<and> length (got ?n ! 1) = 3" by code_simp
  ultimately show ?thesis by (simp add: mute_def Let_def)
qed

text \<open>C28: \<open>stream_disconnect\<close> takes no lock, and a token that is put while it is in its loop over the read counts can stop
  the stream for good. There is a run of \<open>disconnect_reconnect.c\<close> in which the fifth token enters its slot between the load and the store of
  that slot's count: the token then counts as read 9998 times, and under every schedule from there on consumer 1 gets at most one more
  token, its fourth, and the program never gets to the reconnection.\<close>

theorem disconnect_race:
  assumes "session_reach any_time raced_session s"
  shows "session_reach any_time reconnect_session raced_session \<and> script raced_session = drop 7 reconnect_script \<and>
     sent (network (running raced_session)) ! 0 = [1, 2, 3, 4, 5] \<and> got (network (running raced_session)) ! 1 = [1, 2, 3] \<and>
     s_read_count (streams (at_mem raced_session) ! 0) = [1, 1, 1, 0, 9998] \<and>
     (shown s = take 6 reconnect_prints \<or> shown s = take 7 reconnect_prints) \<and> script s \<noteq> after_reconnect"
proof -
  have "session_play racing reconnect_session = Some raced_session" using raced_run by (auto simp: raced_session_def split: option.splits)
  then have reach: "session_reach any_time reconnect_session raced_session" by (rule session_play_reach [OF _ session_start])
  have "script raced_session = drop 7 reconnect_script" "sent (network (running raced_session)) ! 0 = [1, 2, 3, 4, 5]"
    "got (network (running raced_session)) ! 1 = [1, 2, 3]" "s_read_count (streams (at_mem raced_session) ! 0) = [1, 1, 1, 0, 9998]" by code_simp+
  moreover have "drop 7 reconnect_script \<noteq> after_reconnect" "drop 8 reconnect_script \<noteq> after_reconnect" by code_simp+
  ultimately show ?thesis using reach mute_reach [OF assms raced_mute] unfolding mute_def Let_def by metis
qed

theorem disconnect_race_witness:
  "\<exists>s. session_reach any_time raced_session s \<and> shown s = take 7 reconnect_prints \<and> script s \<noteq> after_reconnect"
proof -
  let ?s = "successor_first any_time 40 raced_session"
  have reach: "session_reach any_time raced_session ?s" by (rule successor_first_reach [OF session_start])
  have "shown ?s = take 7 reconnect_prints" by code_simp
  with disconnect_race [OF reach] reach show ?thesis by blast
qed

end
