(* ===== verification/Streams_Strands.thy ===== *)
theory Streams_Strands
  imports Streams_Sessions
begin

text \<open>
  A consumer that leaves a stream while it is behind another one and the buffer is full: \<open>stream_disconnect\<close> takes back the reads of the
  consumer that stays, and the stream stops.
\<close>

section \<open>A stream without an empty slot\<close>

text \<open>All the tokens in the buffer count as unread, the producer has no slot, and the only reader \<open>p\<close> has read the oldest of them: its
  slot is never read again.\<close>

definition strand_ok :: "'v list \<Rightarrow> 'v stream \<Rightarrow> nat \<Rightarrow> get_pc \<Rightarrow> 'v put_pc \<Rightarrow> 'v list \<Rightarrow> bool" where
  "strand_ok snt st i g pp gt \<longleftrightarrow> s_consumers st = 1 \<and> length (s_read_count st) = 5 \<and> s_put_idx st = length snt mod 5 \<and>
     s_read_count st ! (length snt mod 5) = 0 \<and>
     (\<forall>t < length snt. length snt \<le> t + 5 \<longrightarrow> s_buffer st ! (t mod 5) = snt ! t) \<and>
     length gt < length snt \<and> length snt < length gt + 5 \<and> i = length gt mod 5 \<and> gt = take (length gt) snt \<and>
     (g \<in> {GTest2, GWait2, GBody} \<longrightarrow> length gt + 2 \<le> length snt) \<and> (\<forall>x. pp \<noteq> PBody x)"

lemma strand_waits:
  assumes "strand_ok snt st i g pp gt"
  shows "get_waits1 st i \<longleftrightarrow> length snt = length gt + 1"
proof -
  have "length gt \<le> length snt" "length snt \<le> length gt + 5" "i = length gt mod 5" "s_put_idx st = length snt mod 5"
    using assms unfolding strand_ok_def by linarith+
  then show ?thesis using waits1_iff by (simp only: get_waits1_def BUFFER_SIZE_def)
qed

lemma strand_body:
  assumes ok: "strand_ok snt st i GBody pp gt" and body: "get_body st i = (v, st', i')"
  shows "strand_ok snt st' i' GUnlock pp (gt @ [v])"
proof -
  let ?k = "length gt"
  have k: "?k + 2 \<le> length snt" "length snt < ?k + 5" "i = ?k mod 5" "gt = take ?k snt" "s_put_idx st = length snt mod 5"
    "length (s_read_count st) = 5" "s_read_count st ! (length snt mod 5) = 0" "s_consumers st = 1"
    and buf: "\<And>t. t < length snt \<Longrightarrow> length snt \<le> t + 5 \<Longrightarrow> s_buffer st ! (t mod 5) = snt ! t" and pp: "\<And>x. pp \<noteq> PBody x"
    using ok by (auto simp: strand_ok_def)
  have v: "v = snt ! ?k" "i' = Suc ?k mod 5" "s_buffer st' = s_buffer st" "s_consumers st' = 1" "s_put_idx st' = length snt mod 5"
    "s_read_count st' = (s_read_count st)[i := s_read_count st ! i + 1]"
    using body k buf [of ?k] by (auto simp: get_body_def BUFFER_SIZE_def Let_def mod_Suc_eq split: if_splits)
  have "?k mod 5 \<noteq> (length snt - 5) mod 5" if "5 \<le> length snt"
    by (rule slot_distinct [of _ "length snt"]) (use k that in auto)
  moreover have "length snt mod 5 = (length snt - 5) mod 5" if "5 \<le> length snt" using that by (metis le_mod_geq)
  moreover have "?k mod 5 \<noteq> length snt mod 5" if "length snt < 5" using k that by simp
  ultimately have other: "i \<noteq> length snt mod 5" using k(3) by (metis not_le)
  then have "s_read_count st' ! (length snt mod 5) = 0" using k(7) v(6) by simp
  moreover have "gt @ [v] = take (Suc ?k) snt"
  proof -
    have "take (Suc ?k) snt = take ?k snt @ [snt ! ?k]" using k(1) by (simp add: take_Suc_conv_app_nth)
    then show ?thesis by (simp only: v(1) k(4) [symmetric])
  qed
  moreover have "length (s_read_count st') = 5" using k(6) v(6) by simp
  ultimately show ?thesis unfolding strand_ok_def length_append using k(1,2) v(2-5) buf pp by simp
qed

lemma strand_get:
  assumes "strand_ok snt st i g pp gt" "get_turn p st i g = Some (st', i', g', out)"
  shows "strand_ok snt st' i' g' pp (gt @ out)"
proof (cases g)
  case GBody
  then obtain v where "get_body st i = (v, st', i')" "g' = GUnlock" "out = [v]" using assms(2) by (auto simp: get_turn_def split: prod.splits)
  then show ?thesis using strand_body [of snt st i pp gt v st' i'] assms(1) GBody by simp
next
  case GTest1
  then show ?thesis using assms strand_waits [OF assms(1)] by (auto simp: get_turn_def strand_ok_def split: if_splits)
qed (use assms in \<open>auto simp: get_turn_def strand_ok_def split: if_splits\<close>)

lemma strand_put:
  assumes "strand_ok snt st i g pp gt" "put_turn j v st pp = Some (st', pp', ins)"
  shows "strand_ok snt st' i g pp' gt \<and> ins = []"
  using assms by (cases pp) (auto simp: put_turn_def strand_ok_def put_waits_def split: if_splits)

section \<open>In a running program\<close>

definition strand :: "nat \<Rightarrow> ptr \<Rightarrow> 'v list \<Rightarrow> 'v net \<Rightarrow> bool" where
  "strand s p snt n \<longleftrightarrow> s < length (streams (mem n)) \<and> length (gpcs n) = length (prods (mem n)) \<and>
     length (got n) = length (prods (mem n)) \<and> length (ppcs n) = length (streams (mem n)) \<and>
     length (sent n) = length (streams (mem n)) \<and> cells_of s (mem n) = {p} \<and> sent n ! s = snt \<and>
     strand_ok snt (streams (mem n) ! s) (p_idx (the (prods (mem n) ! p))) (gpcs n ! p) (ppcs n ! s) (got n ! p)"

lemma strand_get_next:
  assumes "get_next q n = Inr (Some n')" "q < length (gpcs n)" "strand s p snt n"
  shows "strand s p snt n'"
proof -
  have len: "length (gpcs n) = length (prods (mem n))" "length (got n) = length (prods (mem n))" "s < length (streams (mem n))"
    "cells_of s (mem n) = {p}" using assms(3) by (simp_all add: strand_def)
  show ?thesis
  proof (rule get_next_cases [OF assms(1,2) len(1)])
    fix y st i pc out
    assume y: "q \<noteq> NULL" "prods (mem n) ! q = Some y"
      "get_turn q (streams (mem n) ! p_stream y) (p_idx y) (gpcs n ! q) = Some (st, i, pc, out)"
      and n': "n' = n\<lparr>mem := (mem n)\<lparr>streams := (streams (mem n))[p_stream y := st],
                        prods := (prods (mem n))[q := Some (y\<lparr>p_idx := i\<rparr>)]\<rparr>,
         gpcs := (gpcs n)[q := pc], got := (got n)[q := got n ! q @ out]\<rparr>"
    have ql: "q < length (prods (mem n))" using assms(2) len by simp
    have cells: "cells_of s (mem n') = {p}" using y(2) len(4) by (simp add: n' cells_of_update)
    have ok: "strand_ok snt (streams (mem n) ! s) (p_idx (the (prods (mem n) ! p))) (gpcs n ! p) (ppcs n ! s) (got n ! p)"
      using assms(3) by (simp add: strand_def)
    have own: "p_stream y = s \<longleftrightarrow> q = p"
    proof -
      have "q \<in> cells_of s (mem n) \<longleftrightarrow> p_stream y = s" using y(1,2) ql by (simp add: cells_of_def)
      then show ?thesis using len(4) by auto
    qed
    show ?thesis
    proof (cases "q = p")
      case True
      then have s: "p_stream y = s" using own by simp
      have "strand_ok snt st i pc (ppcs n ! s) (got n ! p @ out)"
        by (rule strand_get [of _ "streams (mem n) ! s" "p_idx y" "gpcs n ! p" _ _ p]) (use ok y(2,3) s True in simp_all)
      then show ?thesis using assms(3) cells True s ql len unfolding strand_def cells by (simp add: n')
    next
      case False
      then show ?thesis using assms(3) cells own len unfolding strand_def cells by (simp add: n')
    qed
  qed
qed

lemma strand_put_next:
  assumes "put_next j v n = Some n'" "j < length (ppcs n)" "strand s p snt n"
  shows "strand s p snt n'"
proof -
  obtain st pc ins where t: "put_turn j v (streams (mem n) ! j) (ppcs n ! j) = Some (st, pc, ins)"
    and n': "n' = n\<lparr>mem := (mem n)\<lparr>streams := (streams (mem n))[j := st]\<rparr>,
         ppcs := (ppcs n)[j := pc], sent := (sent n)[j := sent n ! j @ ins]\<rparr>"
    using assms(1) by (auto simp: put_next_def split: option.splits)
  have cells: "cells_of s (mem n') = cells_of s (mem n)" by (simp add: n' cells_of_def)
  have len: "s < length (streams (mem n))" "length (ppcs n) = length (streams (mem n))" "length (sent n) = length (streams (mem n))"
    using assms(3) by (simp_all add: strand_def)
  have ok: "strand_ok snt (streams (mem n) ! s) (p_idx (the (prods (mem n) ! p))) (gpcs n ! p) (ppcs n ! s) (got n ! p)"
    using assms(3) by (simp add: strand_def)
  show ?thesis
  proof (cases "j = s")
    case True
    from strand_put [OF ok] t True have "strand_ok snt st (p_idx (the (prods (mem n) ! p))) (gpcs n ! p) pc (got n ! p)" "ins = []" by blast+
    then show ?thesis using assms(3) True len unfolding strand_def cells by (simp add: n')
  next
    case False
    then show ?thesis using assms(3) unfolding strand_def cells by (simp add: n')
  qed
qed

lemma strand_reach: "net_reach n0 n \<Longrightarrow> strand s p snt n0 \<Longrightarrow> strand s p snt n"
proof (induction rule: net_reach.induct)
  case (getter n0 n q n')
  from strand_get_next [OF getter.hyps(3,2)] getter.IH getter.prems show ?case by blast
next
  case (putter n0 n j v n')
  from strand_put_next [OF putter.hyps(3,2)] putter.IH putter.prems show ?case by blast
qed simp

section \<open>The disconnect\<close>

text \<open>Where the cells of the other consumers read is not changed.\<close>

definition reads :: "producer option list \<Rightarrow> (nat \<times> nat) option list" where
  "reads ps = map (map_option (\<lambda>x. (p_idx x, p_stream x))) ps"

lemma reads_set:
  assumes "prod_set m p f = Inr m'" "\<And>x. p_idx (f x) = p_idx x \<and> p_stream (f x) = p_stream x"
  shows "reads (prods m') = reads (prods m)"
proof -
  obtain x where x: "prod_at m p = Inr x" "m' = m\<lparr>prods := (prods m)[p := Some (f x)]\<rparr>"
    using assms(1) by (auto simp: prod_set_def bindE_Inr_iff)
  then show ?thesis using assms(2) [of x] unfolding reads_def by (simp add: map_update_same' prod_at_Inr)
qed

lemma reads_unlink: "unlink_prod q m = Inr m' \<Longrightarrow> reads (prods m') = reads (prods m)"
  by (auto simp: unlink_prod_def bindE_Inr_iff dest!: reads_set split: if_splits)

lemma reads_cell:
  assumes "reads ps' = reads ps" "ps ! p = Some x" "p < length ps"
  shows "\<exists>x'. ps' ! p = Some x' \<and> p_idx x' = p_idx x \<and> p_stream x' = p_stream x"
proof -
  have "length ps' = length ps" using assms(1) by (auto simp: reads_def dest: map_eq_imp_length_eq)
  moreover have "reads ps' ! p = reads ps ! p" by (simp add: assms(1))
  ultimately show ?thesis using assms(2,3) by (auto simp: reads_def)
qed

lemma disconnect_effect:
  assumes "stream_disconnect k s m = Inr m'" "cells_of s m' \<noteq> cells_of s m"
  obtains q ps where "streams m' = (streams m)[s := forget_consumer (streams m ! s)]" "length (prods m') = length (prods m)"
    "reads ps = reads (prods m)" "prods m' = ps[q := None]"
proof -
  obtain q where "(if q = NULL then Inr m else bindE (unlink_prod q m) (\<lambda>m. Inr (m\<lparr>streams := (streams m)[s := forget_consumer (streams m ! s)],
       prods := (prods m)[q := None]\<rparr>))) = Inr m'"
    using assms(1) unfolding stream_disconnect_def disconnect_parts bindE_Inr_iff by blast
  moreover have "q \<noteq> NULL" using calculation assms(2) by auto
  ultimately obtain m1 where m1: "unlink_prod q m = Inr m1"
    "m' = m1\<lparr>streams := (streams m1)[s := forget_consumer (streams m1 ! s)], prods := (prods m1)[q := None]\<rparr>" by (auto simp: bindE_Inr_iff)
  show thesis by (rule that [of "prods m1" q]) (use unlink_keeps [OF m1(1)] reads_unlink [OF m1(1)] m1(2) in auto)
qed

lemma strand_start:
  assumes inv: "many_inv s n" and calm: "calm s n" and cells: "cells_of s (mem n) = {p, q}" "p \<noteq> q" and idle: "gpcs n ! p = GIdle"
    and behind: "length (got n ! q) < length (got n ! p)" and full: "length (sent n ! s) = length (got n ! q) + 5"
    and disc: "stream_disconnect k s (mem n) = Inr m'" "cells_of s m' = {p}"
  shows "strand s p (sent n ! s) (n\<lparr>mem := m'\<rparr>)"
proof -
  let ?st = "streams (mem n) ! s" and ?gt = "\<lambda>p. got n ! p" and ?snt = "sent n ! s"
  have len: "s < length (streams (mem n))" "length (gpcs n) = length (prods (mem n))" "length (got n) = length (prods (mem n))"
    "length (ppcs n) = length (streams (mem n))" "length (sent n) = length (streams (mem n))" using inv by (simp_all add: many_inv_def)
  have ok: "many_ok s {p, q} ?st (\<lambda>p. p_idx (the (prods (mem n) ! p))) (\<lambda>p. gpcs n ! p) (ppcs n ! s) ?snt ?gt"
    using inv cells(1) by (simp add: many_inv_def)
  have ring: "ring_ok ?st ?snt (readers_of {p, q} ?gt)" "s_consumers ?st = 2" using ok cells(2) by (simp_all add: many_ok_def)
  have rd: "reader_ok p (s_lock ?st) (p_idx (the (prods (mem n) ! p))) (gpcs n ! p) ?snt (got n ! p)" using ok by (simp add: many_ok_def)
  have near: "length (got n ! p) < length (got n ! q) + 5" using calm cells(1) by (simp add: calm_def close_def)
  obtain lo where lo: "slowest {p, q} ?gt lo" "s_empty ?st + (length ?snt - lo) + holds_slot (ppcs n ! s) = 5" using ok by (auto simp: many_ok_def)
  then have "lo = length (got n ! q)" using behind by (auto simp: slowest_def)
  then have "holds_slot (ppcs n ! s) = 0" using lo(2) full by simp
  then have pp: "ppcs n ! s \<noteq> PBody x" for x by auto
  let ?t = "length (got n ! q)"
  have "{r \<in> {p, q}. ?t < length (got n ! r)} = {p}" using behind by auto
  then have "s_read_count ?st ! (?t mod 5) = 1" using ring(1) full by (simp add: ring_ok_def readers_of_def)
  moreover have "?t mod 5 = length ?snt mod 5" using full by simp
  ultimately have count: "s_read_count ?st ! (length ?snt mod 5) = 1" by simp
  have changed: "cells_of s m' \<noteq> cells_of s (mem n)" using cells disc(2) by auto
  obtain c ps where m': "streams m' = (streams (mem n))[s := forget_consumer ?st]" "length (prods m') = length (prods (mem n))"
    "reads ps = reads (prods (mem n))" "prods m' = ps[c := None]"
    by (rule disconnect_effect [OF disc(1) changed])
  have p: "p < length (prods (mem n))" "p \<noteq> NULL" "p \<in> cells_of s m'" using cells(1) disc(2) by (auto simp: cells_of_def)
  obtain x where x: "prods (mem n) ! p = Some x" using cells(1) by (auto simp: cells_of_def)
  obtain x1 where x1: "ps ! p = Some x1" "p_idx x1 = p_idx x" using reads_cell [OF m'(3) x p(1)] by blast
  have "prods m' ! p \<noteq> None" using p(3) by (auto simp: cells_of_def)
  then have "prods m' ! p = Some x1" using m'(2,4) x1(1) p(1) by (cases "c = p") auto
  then have idx: "p_idx (the (prods m' ! p)) = p_idx (the (prods (mem n) ! p))" using x x1(2) by simp
  have "strand_ok ?snt (forget_consumer ?st) (p_idx (the (prods (mem n) ! p))) GIdle (ppcs n ! s) (got n ! p)"
  proof -
    let ?f = "forget_consumer ?st"
    have f: "s_consumers ?f = 1" "length (s_read_count ?f) = 5" "s_put_idx ?f = length ?snt mod 5" "s_read_count ?f ! (length ?snt mod 5) = 0"
      "\<And>t. t < length ?snt \<Longrightarrow> length ?snt \<le> t + 5 \<Longrightarrow> s_buffer ?f ! (t mod 5) = ?snt ! t"
      using ring count by (simp_all add: forget_consumer_def ring_ok_def)
    have idx: "p_idx (the (prods (mem n) ! p)) = length (got n ! p) mod 5" and pref: "got n ! p = take (length (got n ! p)) ?snt"
      using rd unfolding reader_ok_def by blast+
    show ?thesis unfolding strand_ok_def using f idx near full behind pp by (intro conjI pref) auto
  qed
  then show ?thesis using len m'(1,2) disc(2) idle by (simp add: strand_def idx)
qed

text \<open>C29: Disconnecting a consumer that is behind another one stops a full stream for good. On a stream whose two consumers were connected
  before the first token, when the consumer that is behind is disconnected with the buffer full, by a call of \<open>stream_disconnect\<close> that nothing
  disturbs and while the other one is between two calls, then whatever turns any threads take from there on the producer never puts
  another token, and the other consumer never gets the last one that is in the buffer.\<close>

theorem disconnect_strands:
  assumes "connected_all s m" "calm_reach s (idle_net m) n" "calm s n" "cells_of s (mem n) = {p, q}" "p \<noteq> q" "gpcs n ! p = GIdle"
    "length (got n ! q) < length (got n ! p)" "length (sent n ! s) = length (got n ! q) + 5"
    "stream_disconnect k s (mem n) = Inr m'" "cells_of s m' = {p}" "net_reach (n\<lparr>mem := m'\<rparr>) n'"
  shows "sent n' ! s = sent n ! s \<and> prefix (got n' ! p) (sent n ! s) \<and> length (got n' ! p) < length (sent n ! s)"
proof -
  have inv: "many_inv s n" by (rule many_inv_reach [OF assms(2) many_inv_idle [OF assms(1)]])
  from strand_reach [OF assms(11) strand_start [OF inv assms(3-10)]]
  have "strand s p (sent n ! s) n'" .
  then show ?thesis unfolding strand_def strand_ok_def by (metis take_is_prefix)
qed

text \<open>The first consumer has read two tokens, the second one none, and the producer has filled the buffer: the first one gets two more.\<close>

definition second_behind :: "int turn list" where
  "second_behind = concat (map (put_one 0) [1, 2, 3, 4, 5]) @ concat (replicate 2 (replicate 6 (Get 1)))"

definition behind_net :: "int net" where
  "behind_net = (case short_play second_behind (idle_net two_consumers) of Some n \<Rightarrow> n)"

definition stranded_net :: "int net" where
  "stranded_net = (case stream_disconnect 2 0 (mem behind_net) of Inr m \<Rightarrow> behind_net\<lparr>mem := m\<rparr>)"

theorem disconnect_strands_witness:
  "\<exists>n. net_reach stranded_net n \<and> got stranded_net ! 1 = [1, 2] \<and> got n ! 1 = [1, 2, 3, 4] \<and> sent n ! 0 = [1, 2, 3, 4, 5]"
proof -
  have "case short_play second_behind (idle_net two_consumers) of None \<Rightarrow> False | Some n \<Rightarrow> True" by code_simp
  then have "short_play second_behind (idle_net two_consumers) = Some behind_net" by (auto simp: behind_net_def split: option.splits)
  then have reach: "calm_reach 0 (idle_net two_consumers) behind_net" by (rule short_play_reach [OF _ calm_start])
  have "short behind_net" by code_simp
  then have calm: "calm 0 behind_net" by (rule short_calm)
  have cells: "cells_of 0 (mem behind_net) = {1, 2}" using calm_cells [OF reach] cells_of_two by (simp add: idle_net_def)
  have st: "gpcs behind_net ! 1 = GIdle" "got behind_net ! 1 = [1, 2]" "got behind_net ! 2 = []" "sent behind_net ! 0 = [1, 2, 3, 4, 5]"
    "got stranded_net ! 1 = [1, 2]" by code_simp+
  have "case stream_disconnect 2 0 (mem behind_net) of Inl e \<Rightarrow> False | Inr m \<Rightarrow> True" by code_simp
  then have disc: "stream_disconnect 2 0 (mem behind_net) = Inr (mem stranded_net)" "stranded_net = behind_net\<lparr>mem := mem stranded_net\<rparr>"
    by (auto simp: stranded_net_def split: sum.splits)
  have "map (map_option p_stream) (prods (mem stranded_net)) = [None, Some 0, None]" by code_simp
  then have left: "cells_of 0 (mem stranded_net) = {1}" by (auto simp: cells_of_def map_eq_Cons_conv nth_Cons' split: if_splits)
  let ?ts = "replicate 12 (Get 1) @ replicate 5 (Put 0 6)"
  have "case play ?ts stranded_net of None \<Rightarrow> False | Some n \<Rightarrow> got n ! 1 = [1, 2, 3, 4]" by code_simp
  then obtain n where n: "play ?ts stranded_net = Some n" "got n ! 1 = [1, 2, 3, 4]" by (auto split: option.splits)
  have run: "net_reach stranded_net n" by (rule play_reach [OF n(1) net_reach.start])
  have two: "(1 :: nat) \<noteq> 2" by simp
  have "length (got behind_net ! 2) < length (got behind_net ! 1)" "length (sent behind_net ! 0) = length (got behind_net ! 2) + 5" using st by simp_all
  from disconnect_strands [OF two_consumers_connected reach calm cells two st(1) this disc(1) left, of n] run disc(2) st n(2)
  show ?thesis by metis
qed

end
