(* ===== verification/Gui.thy ===== *)
theory Gui
  imports Streams_Threads
begin

text \<open>
  The window of \<open>hw3_pthreads/gui/gui.c\<close>: one successor whose tokens the buttons "Consume A" and "Consume B" take
  from it one at a time, with the text entries that show what came. Two threads run: GTK's main loop, which
  calls the handler of the button that was clicked and does nothing else until the handler returns, and
  \<open>successor_thread\<close>. The widgets themselves are only what they show.
\<close>

datatype button = Connect_A | Connect_B | Connect_C | Connect_D | Consume_A | Consume_B | Consume_C | Consume_D

text \<open>Where GTK's thread is: in its main loop, or in a handler's call of \<open>consume_single\<close>.\<close>

datatype gtk_pc = In_main | In_consume_a | In_consume_b

text \<open>Where \<open>successor_thread\<close> is: at its \<open>put\<close>, or about to draw the buffer.\<close>

datatype suc_pc = At_put | At_draw

record gui =
  g_net :: "int net"
  gtk :: gtk_pc
  suc :: suc_pc
  g_count :: int
  text_a :: string
  text_b :: string
  output_a :: string
  output_b :: string
  output_suc :: string

text \<open>Both texts are \<open>static char[100]\<close>, the successor's is a local one.\<close>

definition TEXT_SIZE :: nat where "TEXT_SIZE = 100"

section \<open>The handlers\<close>

text \<open>What a click starts; the handlers of the other six buttons are empty.\<close>

fun clicked :: "button \<Rightarrow> gui \<Rightarrow> gui" where
  "clicked Consume_A g = g\<lparr>gtk := In_consume_a\<rparr>"
| "clicked Consume_B g = g\<lparr>gtk := In_consume_b\<rparr>"
| "clicked _ g = g"

text \<open>One turn of \<open>consume_single\<close> on stream \<open>k\<close> by the handler with the static \<open>text\<close>; when the call has returned, the
  new text.\<close>

definition consume_turn :: "nat \<Rightarrow> string \<Rightarrow> int net \<Rightarrow> fault + (int net \<times> string option) option" where
  "consume_turn k text n = (case consume_single (mem n) k of
     CGet p \<Rightarrow> bindE (get_next p n) (\<lambda>r. case r of
         None \<Rightarrow> Inr None
       | Some n1 \<Rightarrow> if gpcs n ! p = GUnlock
           then bindE (buf_print TEXT_SIZE (text @ '' '' @ fmt_d (last (got n1 ! p)))) (\<lambda>t. Inr (Some (n1, Some t)))
           else Inr (Some (n1, None)))
   | _ \<Rightarrow> Inr None)"

definition consume_a :: "gui \<Rightarrow> fault + gui option" where
  "consume_a g = bindE (consume_turn 1 (text_a g) (g_net g)) (\<lambda>r. Inr (case r of
     None \<Rightarrow> None
   | Some (n, None) \<Rightarrow> Some (g\<lparr>g_net := n\<rparr>)
   | Some (n, Some t) \<Rightarrow> Some (g\<lparr>g_net := n, text_a := t, output_a := t, gtk := In_main\<rparr>)))"

definition consume_b :: "gui \<Rightarrow> fault + gui option" where
  "consume_b g = bindE (consume_turn 2 (text_b g) (g_net g)) (\<lambda>r. Inr (case r of
     None \<Rightarrow> None
   | Some (n, None) \<Rightarrow> Some (g\<lparr>g_net := n\<rparr>)
   | Some (n, Some t) \<Rightarrow> Some (g\<lparr>g_net := n, text_b := t, output_b := t, gtk := In_main\<rparr>)))"

definition gtk_turn :: "gui \<Rightarrow> fault + gui option" where
  "gtk_turn g = (case gtk g of In_main \<Rightarrow> Inr None | In_consume_a \<Rightarrow> consume_a g | In_consume_b \<Rightarrow> consume_b g)"

section \<open>The successor\<close>

fun draw_loop :: "int list \<Rightarrow> string \<Rightarrow> fault + string" where
  "draw_loop [] text = Inr text"
| "draw_loop (v # vs) text = bindE (buf_print TEXT_SIZE (text @ '' '' @ fmt_d v @ '' '')) (draw_loop vs)"

definition successor_turn :: "gui \<Rightarrow> fault + gui option" where
  "successor_turn g = (let n = g_net g in case suc g of
     At_put \<Rightarrow> (case put_next 0 (g_count g) n of
         None \<Rightarrow> Inr None
       | Some n1 \<Rightarrow> if ppcs n ! 0 = PUnlock
           then let count = g_count g + 1 in
             Inr (Some (g\<lparr>g_net := n1, g_count := count, suc := if count > 4 then At_draw else At_put\<rparr>))
           else Inr (Some (g\<lparr>g_net := n1\<rparr>)))
   | At_draw \<Rightarrow> bindE (draw_loop (s_buffer (streams (mem n) ! 0)) '''') (\<lambda>text.
       Inr (Some (g\<lparr>output_suc := text, suc := At_put\<rparr>))))"

section \<open>The program\<close>

text \<open>Stream 0 is \<open>suc1\<close>, streams 1 to 4 are \<open>cons1\<close> to \<open>cons4\<close>.\<close>

definition gui_start :: "int stream list \<Rightarrow> fault + gui" where
  "gui_start raw = bindE (stream_connect 1 0 \<lparr>streams = map init_stream raw, prods = [None]\<rparr>) (\<lambda>m.
     bindE (stream_connect 2 0 m) (\<lambda>m.
     Inr \<lparr>g_net = idle_net m, gtk = In_main, suc = At_put, g_count = 0, text_a = '''', text_b = '''', output_a = '''',
       output_b = '''', output_suc = ''''\<rparr>))"

text \<open>Runs whose steps all start in a state with property \<open>P\<close>.\<close>

inductive gui_reach :: "(gui \<Rightarrow> bool) \<Rightarrow> gui \<Rightarrow> gui \<Rightarrow> bool" for P where
  gui_begin: "gui_reach P g g"
| gui_click: "gui_reach P g0 g \<Longrightarrow> P g \<Longrightarrow> gtk g = In_main \<Longrightarrow> gui_reach P g0 (clicked b g)"
| gui_gtk: "gui_reach P g0 g \<Longrightarrow> P g \<Longrightarrow> gtk_turn g = Inr (Some g') \<Longrightarrow> gui_reach P g0 g'"
| gui_suc: "gui_reach P g0 g \<Longrightarrow> P g \<Longrightarrow> successor_turn g = Inr (Some g') \<Longrightarrow> gui_reach P g0 g'"

end
