(* ===== verification/Gui_Props.thy ===== *)
theory Gui_Props
  imports Gui Streams_Main
begin

text \<open>
  Properties of \<open>hw3_pthreads/gui/gui.c\<close>: what the text entries show in every run, and how many tokens fit in
  their buffers.
\<close>

section \<open>The network of the window\<close>

definition gui_shape :: "int net \<Rightarrow> bool" where
  "gui_shape n \<longleftrightarrow> length (gpcs n) = 3 \<and> length (got n) = 3 \<and> length (prods (mem n)) = 3 \<and>
     length (ppcs n) = 5 \<and> length (sent n) = 5 \<and> length (streams (mem n)) = 5 \<and>
     map (map_option p_stream) (prods (mem n)) = [None, Some 0, Some 0] \<and>
     s_prod_head (streams (mem n) ! 1) = 1 \<and> s_prod_head (streams (mem n) ! 2) = 2"

text \<open>The slots of the successor's buffer that have been written hold tokens.\<close>

definition buffer_ok :: "'v stream \<Rightarrow> 'v list \<Rightarrow> bool" where
  "buffer_ok st snt \<longleftrightarrow> length (s_buffer st) = 5 \<and> s_put_idx st = length snt mod 5 \<and>
     (\<forall>i < 5. i < length snt \<longrightarrow> s_buffer st ! i \<in> set snt)"

lemma buffer_put: "buffer_ok st snt \<Longrightarrow> buffer_ok (put_body v st) (snt @ [v])"
proof -
  assume ok: "buffer_ok st snt"
  have "(s_buffer st)[length snt mod 5 := v] ! i \<in> set (snt @ [v])" if "i < 5" "i < length snt + 1" for i
  proof (cases "i = length snt mod 5")
    case False
    then have "i < length snt" using that by (cases "i = length snt") auto
    with ok that False show ?thesis by (simp add: buffer_ok_def)
  qed (use ok that in \<open>simp add: buffer_ok_def\<close>)
  then show ?thesis using ok by (simp add: buffer_ok_def put_body_def BUFFER_SIZE_def mod_Suc_eq)
qed

lemma get_turn_keeps:
  "get_turn p st i g = Some (st', i', g', out) \<Longrightarrow> s_buffer st' = s_buffer st \<and> s_put_idx st' = s_put_idx st"
  by (cases g) (auto simp: get_turn_def get_body_def Let_def split: if_splits)

lemma put_turn_buffer:
  "put_turn j v st pp = Some (st', pp', ins) \<Longrightarrow> buffer_ok st snt \<Longrightarrow> buffer_ok st' (snt @ ins)"
proof (cases pp)
  case (PBody x)
  assume "put_turn j v st pp = Some (st', pp', ins)" "buffer_ok st snt"
  with PBody buffer_put [of st snt x] show ?thesis by (simp add: put_turn_def)
qed (auto simp: put_turn_def buffer_ok_def split: if_splits)

definition gui_net_ok :: "int net \<Rightarrow> bool" where
  "gui_net_ok n \<longleftrightarrow> gui_shape n \<and> buffer_ok (streams (mem n) ! 0) (sent n ! 0)"

lemma gui_net_get:
  assumes "get_next p n = Inr (Some n')" "p < 3" "gui_net_ok n"
  shows "gui_net_ok n'"
proof (rule get_next_cases [OF assms(1)])
  show "p < length (gpcs n)" "length (gpcs n) = length (prods (mem n))" using assms(2,3) by (simp_all add: gui_net_ok_def gui_shape_def)
  fix y st i pc out
  assume y: "prods (mem n) ! p = Some y"
    "get_turn p (streams (mem n) ! p_stream y) (p_idx y) (gpcs n ! p) = Some (st, i, pc, out)"
    and n': "n' = n\<lparr>mem := (mem n)\<lparr>streams := (streams (mem n))[p_stream y := st],
                      prods := (prods (mem n))[p := Some (y\<lparr>p_idx := i\<rparr>)]\<rparr>,
       gpcs := (gpcs n)[p := pc], got := (got n)[p := got n ! p @ out]\<rparr>"
  let ?f = "map_option p_stream"
  have pl: "p < length (prods (mem n))" using assms(2,3) by (simp add: gui_net_ok_def gui_shape_def)
  have links: "map ?f ((prods (mem n))[p := Some (y\<lparr>p_idx := i\<rparr>)]) = map ?f (prods (mem n))"
    using y(1) pl by (intro nth_equalityI) (auto simp: nth_list_update)
  have "s_prod_head ((streams (mem n))[p_stream y := st] ! k) = s_prod_head (streams (mem n) ! k) \<and>
      s_buffer ((streams (mem n))[p_stream y := st] ! k) = s_buffer (streams (mem n) ! k) \<and>
      s_put_idx ((streams (mem n))[p_stream y := st] ! k) = s_put_idx (streams (mem n) ! k)" for k
    using get_turn_links [OF y(2)] get_turn_keeps [OF y(2)]
    by (cases "p_stream y = k"; cases "k < length (streams (mem n))") (simp_all add: list_update_beyond)
  then show ?thesis using assms(3) links by (simp add: n' gui_net_ok_def gui_shape_def buffer_ok_def)
qed

lemma gui_net_put:
  assumes "put_next 0 v n = Some n'" "gui_net_ok n"
  shows "gui_net_ok n'"
proof -
  obtain st pc ins where t: "put_turn 0 v (streams (mem n) ! 0) (ppcs n ! 0) = Some (st, pc, ins)"
    and n': "n' = n\<lparr>mem := (mem n)\<lparr>streams := (streams (mem n))[0 := st]\<rparr>,
         ppcs := (ppcs n)[0 := pc], sent := (sent n)[0 := sent n ! 0 @ ins]\<rparr>"
    using assms(1) by (auto simp: put_next_def split: option.splits)
  show ?thesis using assms(2) put_turn_buffer [OF t, of "sent n ! 0"] by (simp add: n' gui_net_ok_def gui_shape_def)
qed

section \<open>The invariant\<close>

definition entry :: "int list \<Rightarrow> string" where
  "entry vs = concat (map (\<lambda>v. '' '' @ fmt_d v) vs)"

lemma entry_snoc: "entry (vs @ [v]) = entry vs @ '' '' @ fmt_d v"
  by (simp add: entry_def)

text \<open>What button \<open>p\<close> has taken, with the text it shows.\<close>

definition taker_ok :: "ptr \<Rightarrow> string \<Rightarrow> int net \<Rightarrow> bool" where
  "taker_ok p text n \<longleftrightarrow> in_get (gpcs n ! p) (got n ! p) \<and> text = entry (received (gpcs n ! p) (got n ! p)) \<and>
     length text < TEXT_SIZE"

definition suc_ok :: "int \<Rightarrow> int net \<Rightarrow> bool" where
  "suc_ok count n \<longleftrightarrow> 0 \<le> count \<and> in_put (ppcs n ! 0) (sent n ! 0) count \<and> entered (ppcs n ! 0) (sent n ! 0) = [0..count - 1]"

definition gui_inv :: "gui \<Rightarrow> bool" where
  "gui_inv g \<longleftrightarrow> gui_net_ok (g_net g) \<and> taker_ok 1 (text_a g) (g_net g) \<and> taker_ok 2 (text_b g) (g_net g) \<and>
     output_a g = text_a g \<and> output_b g = text_b g \<and>
     (gtk g \<noteq> In_consume_a \<longrightarrow> gpcs (g_net g) ! 1 = GIdle) \<and> (gtk g \<noteq> In_consume_b \<longrightarrow> gpcs (g_net g) ! 2 = GIdle) \<and>
     suc_ok (g_count g) (g_net g) \<and> (suc g = At_draw \<longrightarrow> ppcs (g_net g) ! 0 = PIdle \<and> 4 < g_count g)"

lemma consume_turn_cases:
  assumes "consume_turn k text n = Inr (Some (n1, r))" "s_prod_head (streams (mem n) ! k) = p"
  shows "get_next p n = Inr (Some n1) \<and>
    (if gpcs n ! p = GUnlock
     then r = Some (text @ '' '' @ fmt_d (last (got n1 ! p))) \<and> length (text @ '' '' @ fmt_d (last (got n1 ! p))) < TEXT_SIZE
     else r = None)"
proof -
  obtain n2 where n2: "get_next p n = Inr (Some n2)"
    using assms by (cases "get_next p n") (auto simp: consume_turn_def consume_single_def split: option.splits)
  with assms show ?thesis
    by (cases "gpcs n ! p = GUnlock") (auto simp: consume_turn_def consume_single_def buf_print_def bindE_Inr_iff split: if_splits)
qed

lemma consume_turn_taker:
  assumes turn: "consume_turn k text n = Inr (Some (n1, r))" "s_prod_head (streams (mem n) ! k) = p"
    and ok: "gui_net_ok n" "p < 3" "taker_ok p text n"
  shows "gui_net_ok n1 \<and> ppcs n1 = ppcs n \<and> sent n1 = sent n \<and>
    (\<forall>q. q \<noteq> p \<longrightarrow> gpcs n1 ! q = gpcs n ! q \<and> got n1 ! q = got n ! q) \<and>
    (case r of None \<Rightarrow> taker_ok p text n1 | Some t \<Rightarrow> taker_ok p t n1 \<and> gpcs n1 ! p = GIdle)"
proof -
  note t = consume_turn_cases [OF turn]
  have lens: "p < length (gpcs n)" "length (gpcs n) = length (prods (mem n))" "length (got n) = length (prods (mem n))"
    using ok(1,2) by (simp_all add: gui_net_ok_def gui_shape_def)
  have g: "in_get (gpcs n ! p) (got n ! p)" using ok(3) by (simp add: taker_ok_def)
  have step: "get_step p n n1" unfolding get_step_def by (rule get_next_call [OF conjunct1 [OF t] lens g])
  have "case r of None \<Rightarrow> taker_ok p text n1 | Some t \<Rightarrow> taker_ok p t n1 \<and> gpcs n1 ! p = GIdle"
  proof (cases "gpcs n ! p = GUnlock")
    case True
    then have "gpcs n1 ! p = GIdle" "got n1 ! p = received (gpcs n ! p) (got n ! p) @ [last (got n1 ! p)]"
      using step by (simp_all add: get_step_def)
    then have "entry (got n1 ! p) = text @ '' '' @ fmt_d (last (got n1 ! p))"
      using ok(3) entry_snoc by (metis taker_ok_def)
    then show ?thesis using t True \<open>gpcs n1 ! p = GIdle\<close> by (simp add: taker_ok_def)
  next
    case False
    then show ?thesis using step t ok(3) by (auto simp: get_step_def taker_ok_def)
  qed
  then show ?thesis using step gui_net_get [OF conjunct1 [OF t] ok(2,1)] by (simp add: get_step_def)
qed

lemma taker_frame: "gpcs n' ! p = gpcs n ! p \<Longrightarrow> got n' ! p = got n ! p \<Longrightarrow> taker_ok p t n' = taker_ok p t n"
  by (simp add: taker_ok_def)

lemma suc_frame: "ppcs n' = ppcs n \<Longrightarrow> sent n' = sent n \<Longrightarrow> suc_ok c n' = suc_ok c n"
  by (simp add: suc_ok_def)

lemma handler_result:
  assumes "bindE m (\<lambda>r. Inr (case r of None \<Rightarrow> None | Some (n, None) \<Rightarrow> Some (f n) | Some (n, Some t) \<Rightarrow> Some (h n t))) =
    Inr (Some x)"
  obtains n r where "m = Inr (Some (n, r))" "x = (case r of None \<Rightarrow> f n | Some t \<Rightarrow> h n t)"
proof -
  obtain q where q: "m = Inr (Some q)" using assms by (cases m) (auto split: option.splits)
  obtain n r where "q = (n, r)" by (cases q)
  with q assms that show thesis by (cases r) simp_all
qed

lemma gui_inv_gtk:
  assumes "gtk_turn g = Inr (Some g')" "gui_inv g"
  shows "gui_inv g'"
proof (cases "gtk g")
  case In_consume_a
  then have call: "consume_a g = Inr (Some g')" using assms(1) by (simp add: gtk_turn_def)
  obtain n1 r where turn: "consume_turn 1 (text_a g) (g_net g) = Inr (Some (n1, r))"
    and g': "g' = (case r of None \<Rightarrow> g\<lparr>g_net := n1\<rparr>
      | Some t \<Rightarrow> g\<lparr>g_net := n1, text_a := t, output_a := t, gtk := In_main\<rparr>)"
    by (rule handler_result [OF call [unfolded consume_a_def]])
  have "s_prod_head (streams (mem (g_net g)) ! 1) = 1" using assms(2) by (simp add: gui_inv_def gui_net_ok_def gui_shape_def)
  from consume_turn_taker [OF turn this] show ?thesis
    using assms(2) In_consume_a by (cases r) (auto simp: g' gui_inv_def taker_frame [of n1 _ "g_net g"] suc_frame [of n1 "g_net g"])
next
  case In_consume_b
  then have call: "consume_b g = Inr (Some g')" using assms(1) by (simp add: gtk_turn_def)
  obtain n1 r where turn: "consume_turn 2 (text_b g) (g_net g) = Inr (Some (n1, r))"
    and g': "g' = (case r of None \<Rightarrow> g\<lparr>g_net := n1\<rparr>
      | Some t \<Rightarrow> g\<lparr>g_net := n1, text_b := t, output_b := t, gtk := In_main\<rparr>)"
    by (rule handler_result [OF call [unfolded consume_b_def]])
  have "s_prod_head (streams (mem (g_net g)) ! 2) = 2" using assms(2) by (simp add: gui_inv_def gui_net_ok_def gui_shape_def)
  from consume_turn_taker [OF turn this] show ?thesis
    using assms(2) In_consume_b by (cases r) (auto simp: g' gui_inv_def taker_frame [of n1 _ "g_net g"] suc_frame [of n1 "g_net g"])
qed (use assms(1) in \<open>simp add: gtk_turn_def\<close>)

lemma gui_inv_suc:
  assumes "successor_turn g = Inr (Some g')" "gui_inv g"
  shows "gui_inv g'"
proof (cases "suc g")
  case At_put
  let ?n = "g_net g"
  obtain n1 where n1: "put_next 0 (g_count g) ?n = Some n1"
    using assms(1) At_put by (auto simp: successor_turn_def Let_def split: option.splits)
  have ok: "suc_ok (g_count g) ?n" "gui_net_ok ?n" using assms(2) by (simp_all add: gui_inv_def)
  have lens: "0 < length (ppcs ?n)" "0 < length (sent ?n)" using ok(2) by (simp_all add: gui_net_ok_def gui_shape_def)
  have step: "put_step 0 (g_count g) ?n n1"
    unfolding put_step_def by (rule put_next_call [OF n1 lens]) (use ok(1) in \<open>simp add: suc_ok_def\<close>)
  have net: "gui_net_ok n1" by (rule gui_net_put [OF n1 ok(2)])
  have "suc_ok (if ppcs ?n ! 0 = PUnlock then g_count g + 1 else g_count g) n1"
    using step ok(1) upto_rec2 [of 0 "g_count g"] by (auto simp: put_step_def suc_ok_def)
  moreover have "taker_ok p t n1 = taker_ok p t ?n" "gpcs n1 ! p = gpcs ?n ! p" for p t
    using step by (simp_all add: put_step_def taker_ok_def)
  moreover have "ppcs ?n ! 0 = PUnlock \<Longrightarrow> ppcs n1 ! 0 = PIdle" using step by (simp add: put_step_def)
  moreover have "g' = (if ppcs ?n ! 0 = PUnlock
      then g\<lparr>g_net := n1, g_count := g_count g + 1, suc := if g_count g + 1 > 4 then At_draw else At_put\<rparr> else g\<lparr>g_net := n1\<rparr>)"
    using assms(1) At_put n1 by (simp add: successor_turn_def Let_def split: if_splits)
  ultimately show ?thesis using assms(2) At_put net by (cases "ppcs ?n ! 0 = PUnlock") (simp_all add: gui_inv_def)
next
  case At_draw
  then show ?thesis using assms by (auto simp: successor_turn_def gui_inv_def bindE_Inr_iff Let_def)
qed

lemma gui_inv_reach: "gui_reach P g0 g \<Longrightarrow> gui_inv g0 \<Longrightarrow> gui_inv g"
proof (induction rule: gui_reach.induct)
  case (gui_click g0 g b)
  then show ?case by (cases b) (simp_all add: gui_inv_def)
qed (auto intro: gui_inv_gtk gui_inv_suc)

definition gui_built :: "int stream list \<Rightarrow> int mem" where
  "gui_built raw = \<lparr>streams = [init_stream (raw ! 0)\<lparr>s_consumers := 2\<rparr>,
       init_stream (raw ! 1)\<lparr>s_prod_head := 1, s_prod_curr := 1\<rparr>, init_stream (raw ! 2)\<lparr>s_prod_head := 2, s_prod_curr := 2\<rparr>,
       init_stream (raw ! 3), init_stream (raw ! 4)],
     prods = [None, Some \<lparr>p_idx = 0, p_stream = 0, p_next = 0, p_prev = 0\<rparr>, Some \<lparr>p_idx = 0, p_stream = 0, p_next = 0, p_prev = 0\<rparr>]\<rparr>"

lemma gui_start_built:
  assumes "length raw = 5"
  shows "gui_start raw = Inr \<lparr>g_net = idle_net (gui_built raw), gtk = In_main, suc = At_put, g_count = 0, text_a = '''',
    text_b = '''', output_a = '''', output_b = '''', output_suc = ''''\<rparr>"
proof -
  obtain r0 r1 r2 r3 r4 where "raw = [r0, r1, r2, r3, r4]"
    using assms by (auto simp: length_Suc_conv eval_nat_numeral)
  then show ?thesis
    by (simp add: gui_start_def gui_built_def stream_connect_def prod_set_def prod_at_def init_stream_def Let_def numeral_2_eq_2)
qed

lemma gui_start_inv:
  assumes "gui_start raw = Inr g0" "length raw = 5" "\<And>r. r \<in> set raw \<Longrightarrow> length (s_buffer r) = 5"
  shows "gui_inv g0"
proof -
  have "length (s_buffer (raw ! 0)) = 5" using assms(2,3) by simp
  then show ?thesis using assms(1) gui_start_built [OF assms(2)]
    by (auto simp: gui_inv_def gui_net_ok_def gui_shape_def buffer_ok_def taker_ok_def suc_ok_def idle_net_def gui_built_def
        init_stream_def entry_def TEXT_SIZE_def)
qed

section \<open>What the entries show\<close>

lemma draw_loop_fits:
  "(\<And>v. v \<in> set vs \<Longrightarrow> length (fmt_d v) \<le> 10) \<Longrightarrow> length tx + 12 * length vs < TEXT_SIZE \<Longrightarrow> \<exists>t. draw_loop vs tx = Inr t"
proof (induction vs arbitrary: tx)
  case (Cons v vs)
  have "length (fmt_d v) \<le> 10" using Cons.prems(1) by simp
  then have "length (tx @ '' '' @ fmt_d v @ '' '') + 12 * length vs < TEXT_SIZE" using Cons.prems(2) by simp
  from Cons.IH [OF Cons.prems(1) this] \<open>length (fmt_d v) \<le> 10\<close> Cons.prems(2) show ?case by (simp add: buf_print_def)
qed simp

lemma fmt_d_short: "0 \<le> v \<Longrightarrow> v < INT_MAX \<Longrightarrow> length (fmt_d v) \<le> 10"
  using length_digits_of [of "nat v" 9] by (simp add: fmt_d_def INT_MAX_def)

lemma successor_draws:
  assumes "gui_inv g" "g_count g \<le> INT_MAX"
  shows "\<exists>r. successor_turn g = Inr r"
proof (cases "suc g")
  case At_put
  then show ?thesis by (simp add: successor_turn_def Let_def split: option.split)
next
  case At_draw
  let ?st = "streams (mem (g_net g)) ! 0" and ?sent = "sent (g_net g) ! 0"
  have inv: "buffer_ok ?st ?sent" "?sent = [0..g_count g - 1]" "4 < g_count g"
    using assms(1) At_draw by (auto simp: gui_inv_def gui_net_ok_def suc_ok_def)
  have "length ?sent = nat (g_count g)" using inv(2) by simp
  then have full: "length (s_buffer ?st) = 5" "\<forall>i < 5. s_buffer ?st ! i \<in> set ?sent"
    using inv(1,3) by (auto simp: buffer_ok_def)
  have "length (fmt_d v) \<le> 10" if v: "v \<in> set (s_buffer ?st)" for v
  proof -
    have "v \<in> set ?sent" using v full by (metis in_set_conv_nth)
    then have "0 \<le> v" "v < INT_MAX" using inv(2) assms(2) by simp_all
    then show ?thesis by (rule fmt_d_short)
  qed
  from draw_loop_fits [of "s_buffer ?st" "''''", OF this] obtain t where "draw_loop (s_buffer ?st) '''' = Inr t"
    using full(1) by (auto simp: TEXT_SIZE_def)
  then show ?thesis using At_draw by (simp add: successor_turn_def Let_def)
qed

text \<open>In every run of the window, whatever is clicked and however the two threads interleave, each entry shows exactly
  the tokens its button has taken, in order, within the 100 bytes of its text, and drawing the
  successor's buffer never leaves the 100 bytes of the local text as long as the count is an \<open>int\<close>.\<close>

theorem gui_entries:
  assumes "gui_start raw = Inr g0" "length raw = 5" "\<And>r. r \<in> set raw \<Longrightarrow> length (s_buffer r) = 5" "gui_reach P g0 g"
  shows "output_a g = entry (received (gpcs (g_net g) ! 1) (got (g_net g) ! 1)) \<and> length (output_a g) < TEXT_SIZE \<and>
     output_b g = entry (received (gpcs (g_net g) ! 2) (got (g_net g) ! 2)) \<and> length (output_b g) < TEXT_SIZE \<and>
     (g_count g \<le> INT_MAX \<longrightarrow> (\<exists>r. successor_turn g = Inr r))"
proof -
  have inv: "gui_inv g" by (rule gui_inv_reach [OF assms(4) gui_start_inv [OF assms(1-3)]])
  then show ?thesis using successor_draws by (auto simp: gui_inv_def taker_ok_def)
qed

section \<open>How much fits\<close>

definition gui_many :: "gui \<Rightarrow> bool" where
  "gui_many g \<longleftrightarrow> gui_inv g \<and> many_inv 0 (g_net g)"

lemma gui_many_gtk:
  assumes "gtk_turn g = Inr (Some g')" "calm 0 (g_net g)" "gui_many g"
  shows "gui_many g'"
proof -
  have inv: "gui_inv g" "many_inv 0 (g_net g)" using assms(3) by (simp_all add: gui_many_def)
  have heads: "s_prod_head (streams (mem (g_net g)) ! 1) = 1" "s_prod_head (streams (mem (g_net g)) ! 2) = 2"
    "length (gpcs (g_net g)) = 3" using inv(1) by (simp_all add: gui_inv_def gui_net_ok_def gui_shape_def)
  have "\<exists>k p text n1 r. consume_turn k text (g_net g) = Inr (Some (n1, r)) \<and> s_prod_head (streams (mem (g_net g)) ! k) = p \<and>
      p < length (gpcs (g_net g)) \<and> g_net g' = n1"
  proof (cases "gtk g")
    case In_consume_a
    then have call: "consume_a g = Inr (Some g')" using assms(1) by (simp add: gtk_turn_def)
    obtain n1 r where "consume_turn 1 (text_a g) (g_net g) = Inr (Some (n1, r))" "g' = (case r of None \<Rightarrow> g\<lparr>g_net := n1\<rparr>
        | Some t \<Rightarrow> g\<lparr>g_net := n1, text_a := t, output_a := t, gtk := In_main\<rparr>)"
      by (rule handler_result [OF call [unfolded consume_a_def]])
    with heads show ?thesis by (intro exI [of _ 1] exI [of _ "text_a g"] exI [of _ n1] exI [of _ r]) (auto split: option.split)
  next
    case In_consume_b
    then have call: "consume_b g = Inr (Some g')" using assms(1) by (simp add: gtk_turn_def)
    obtain n1 r where "consume_turn 2 (text_b g) (g_net g) = Inr (Some (n1, r))" "g' = (case r of None \<Rightarrow> g\<lparr>g_net := n1\<rparr>
        | Some t \<Rightarrow> g\<lparr>g_net := n1, text_b := t, output_b := t, gtk := In_main\<rparr>)"
      by (rule handler_result [OF call [unfolded consume_b_def]])
    with heads show ?thesis by (intro exI [of _ 2] exI [of _ "text_b g"] exI [of _ n1] exI [of _ r]) (auto split: option.split)
  qed (use assms(1) in \<open>simp add: gtk_turn_def\<close>)
  then obtain k p tx n1 r where t: "consume_turn k tx (g_net g) = Inr (Some (n1, r))"
    "s_prod_head (streams (mem (g_net g)) ! k) = p" "p < length (gpcs (g_net g))" "g_net g' = n1" by blast
  from many_inv_get [OF conjunct1 [OF consume_turn_cases [OF t(1,2)]] t(3) inv(2) assms(2)]
  show ?thesis using gui_inv_gtk [OF assms(1) inv(1)] t(4) by (simp add: gui_many_def)
qed

lemma gui_many_suc:
  assumes "successor_turn g = Inr (Some g')" "gui_many g"
  shows "gui_many g'"
proof -
  have inv: "gui_inv g" "many_inv 0 (g_net g)" using assms(2) by (simp_all add: gui_many_def)
  have "0 < length (ppcs (g_net g))" using inv(1) by (simp add: gui_inv_def gui_net_ok_def gui_shape_def)
  then have "put_next 0 (g_count g) (g_net g) = Some n1 \<Longrightarrow> many_inv 0 n1" for n1
    using many_inv_put [OF _ _ inv(2)] by blast
  then have "many_inv 0 (g_net g')"
    using assms(1) inv(2) by (auto simp: successor_turn_def Let_def bindE_Inr_iff split: suc_pc.splits option.splits if_splits)
  then show ?thesis using gui_inv_suc [OF assms(1) inv(1)] by (simp add: gui_many_def)
qed

lemma gui_many_reach: "gui_reach (\<lambda>g. calm 0 (g_net g)) g0 g \<Longrightarrow> gui_many g0 \<Longrightarrow> gui_many g"
proof (induction rule: gui_reach.induct)
  case (gui_click g0 g b)
  then show ?case by (cases b) (simp_all add: gui_many_def gui_inv_def)
qed (auto intro: gui_many_gtk gui_many_suc)

lemma gui_cells: "gui_shape n \<Longrightarrow> cells_of 0 (mem n) = {1, 2}"
proof -
  assume "gui_shape n"
  then obtain b c where ps: "prods (mem n) = [None, Some b, Some c]" and src: "p_stream b = 0" "p_stream c = 0"
    by (auto simp: gui_shape_def map_eq_Cons_conv)
  show ?thesis unfolding cells_of_filter ps by (simp add: upt_rec src numeral_eq_Suc)
qed

lemma gui_start_many:
  assumes "gui_start raw = Inr g0" "length raw = 5" "\<And>r. r \<in> set raw \<Longrightarrow> length (s_buffer r) = 5"
  shows "gui_many g0"
proof -
  have inv: "gui_inv g0" by (rule gui_start_inv [OF assms])
  have net: "g_net g0 = idle_net (gui_built raw)" using assms(1) gui_start_built [OF assms(2)] by auto
  have "gui_shape (g_net g0)" using inv by (simp add: gui_inv_def gui_net_ok_def)
  then have cells: "cells_of 0 (gui_built raw) = {1, 2}" using gui_cells [of "g_net g0"] by (simp add: net idle_net_def)
  have "length (s_buffer (raw ! 0)) = 5" using assms(2,3) by simp
  then have "connected_all 0 (gui_built raw)" unfolding connected_all_def cells
    by (simp add: gui_built_def init_stream_def BUFFER_SIZE_def)
  then show ?thesis using inv many_inv_idle by (simp add: gui_many_def net)
qed

lemma entry_append: "entry (xs @ ys) = entry xs @ entry ys"
  by (simp add: entry_def)

lemma entry_lengths: "length (entry [0..35]) = 98" "length (entry [0..36]) = 101"
  by code_simp+

text \<open>What a button has taken, after calm turns only: the first numbers.\<close>

lemma gui_taken:
  assumes "gui_many g" "p = 1 \<or> p = 2"
  shows "got (g_net g) ! p = [0..int (length (got (g_net g) ! p)) - 1]"
proof -
  let ?n = "g_net g"
  have inv: "gui_inv g" "many_inv 0 ?n" using assms(1) by (simp_all add: gui_many_def)
  have "gui_shape ?n" using inv(1) by (simp add: gui_inv_def gui_net_ok_def)
  then have "p \<in> cells_of 0 (mem ?n)" using assms(2) by (auto simp: gui_cells)
  then have take: "got ?n ! p = take (length (got ?n ! p)) (sent ?n ! 0)" "length (got ?n ! p) \<le> length (sent ?n ! 0)"
    using many.taken_take [OF inv(2)] many.taken_le [OF inv(2)] by blast+
  have suc: "suc_ok (g_count g) ?n" using inv(1) by (simp add: gui_inv_def)
  obtain m where m: "sent ?n ! 0 = [0..m]"
  proof -
    have i: "in_put (ppcs ?n ! 0) (sent ?n ! 0) (g_count g)" "entered (ppcs ?n ! 0) (sent ?n ! 0) = [0..g_count g - 1]"
      "0 \<le> g_count g" using suc by (simp_all add: suc_ok_def)
    have "[0..g_count g] = [0..g_count g - 1] @ [g_count g]" using i(3) by (simp add: upto_rec2)
    with in_put_cases [OF i(1)] i(2) that show thesis by metis
  qed
  let ?k = "int (length (got ?n ! p))"
  have "take (length (got ?n ! p)) [0..m] = [0..?k - 1]"
  proof (cases "?k = 0")
    case False
    have "?k - 1 \<le> m" using take(2) m False by (cases "0 \<le> m") auto
    then have "[0..m] = [0..?k - 1] @ [?k - 1 + 1..m]" using False by (intro upto_split2) auto
    then show ?thesis by simp
  qed simp
  with take(1) m show ?thesis by simp
qed

lemma entry_bound:
  assumes "length (entry [0..int k - 1]) < 100"
  shows "k \<le> 36"
proof (rule ccontr)
  assume "\<not> k \<le> 36"
  then have "[0..int k - 1] = [0..36] @ [36 + 1..int k - 1]" by (intro upto_split2) auto
  then have "length (entry [0..36]) \<le> length (entry [0..int k - 1])" by (simp add: entry_append)
  with entry_lengths(2) assms show False by simp
qed

lemma received_taken:
  assumes "gui_many g" "p = 1 \<or> p = 2"
  shows "\<exists>k. received (gpcs (g_net g) ! p) (got (g_net g) ! p) = [0..int k - 1] \<and>
    k = length (received (gpcs (g_net g) ! p) (got (g_net g) ! p)) \<and>
    (gpcs (g_net g) ! p = GUnlock \<longrightarrow> last (got (g_net g) ! p) = int k)"
proof (cases "gpcs (g_net g) ! p = GUnlock")
  case True
  let ?gt = "got (g_net g) ! p"
  have "gui_inv g" using assms(1) by (simp add: gui_many_def)
  then have "in_get GUnlock ?gt" using assms(2) True by (auto simp: gui_inv_def taker_ok_def)
  then have "?gt \<noteq> []" by (simp add: in_get_def)
  then have "[0..int (length ?gt) - 1] = [0..int (length ?gt) - 1 - 1] @ [int (length ?gt) - 1]"
    by (intro upto_rec2) (simp add: Suc_leI)
  then have gt: "?gt = [0..int (length ?gt - 1) - 1] @ [int (length ?gt - 1)]"
    using gui_taken [OF assms] \<open>?gt \<noteq> []\<close> by (simp add: of_nat_diff Suc_leI)
  then have "butlast ?gt = [0..int (length ?gt - 1) - 1]" "last ?gt = int (length ?gt - 1)" by (metis butlast_snoc, metis last_snoc)
  then show ?thesis using True by (intro exI [of _ "length ?gt - 1"]) (simp add: received_def)
next
  case False
  then show ?thesis using gui_taken [OF assms] by (intro exI [of _ "length (got (g_net g) ! p)"]) (simp add: received_def)
qed

text \<open>C34: The entry of button A is good for 36 tokens. In every run in which the two buttons stay within five tokens of
  each other it shows 0, 1, 2 and so on up to at most 35; the handler of the click that takes the token 36 writes
  behind the 100 bytes of its text.\<close>

theorem gui_limit:
  assumes "gui_start raw = Inr g0" "length raw = 5" "\<And>r. r \<in> set raw \<Longrightarrow> length (s_buffer r) = 5"
    and "gui_reach (\<lambda>g. calm 0 (g_net g)) g0 g"
  shows "\<exists>k \<le> 36. output_a g = entry [0..int k - 1] \<and> length (received (gpcs (g_net g) ! 1) (got (g_net g) ! 1)) = k \<and>
    (k = 36 \<and> gtk g = In_consume_a \<and> gpcs (g_net g) ! 1 = GUnlock \<longrightarrow> gtk_turn g = Inl Overrun)"
proof -
  have many: "gui_many g" by (rule gui_many_reach [OF assms(4) gui_start_many [OF assms(1-3)]])
  then have inv: "gui_inv g" by (simp add: gui_many_def)
  obtain k where k: "received (gpcs (g_net g) ! 1) (got (g_net g) ! 1) = [0..int k - 1]"
    "k = length (received (gpcs (g_net g) ! 1) (got (g_net g) ! 1))"
    "gpcs (g_net g) ! 1 = GUnlock \<Longrightarrow> last (got (g_net g) ! 1) = int k" using received_taken [OF many, of 1] by blast
  have texts: "output_a g = entry [0..int k - 1]" "text_a g = entry [0..int k - 1]" "length (text_a g) < 100"
    using inv k(1) by (auto simp: gui_inv_def taker_ok_def TEXT_SIZE_def)
  then have "k \<le> 36" using entry_bound by simp
  moreover have "gtk_turn g = Inl Overrun" if last: "k = 36" "gtk g = In_consume_a" "gpcs (g_net g) ! 1 = GUnlock"
  proof -
    let ?n = "g_net g"
    have shape: "gui_shape ?n" using inv by (simp add: gui_inv_def gui_net_ok_def)
    then obtain b where b: "prods (mem ?n) ! 1 = Some b" by (auto simp: gui_shape_def map_eq_Cons_conv)
    then have "\<exists>n1. get_next 1 ?n = Inr (Some n1) \<and> got n1 ! 1 = got ?n ! 1"
      using shape last(3) by (simp add: get_next_def prod_at_def gui_shape_def get_turn_def)
    then obtain n1 where n1: "get_next 1 ?n = Inr (Some n1)" "got n1 ! 1 = got ?n ! 1" by blast
    have "100 < length (text_a g @ '' '' @ fmt_d 36) + 1"
      using texts(2) last(1) entry_lengths(1) by (simp add: fmt_d_def digits_of.simps)
    then show ?thesis
      using n1 last k(3) [OF last(3)] shape
      by (simp add: gtk_turn_def consume_a_def consume_turn_def consume_single_def gui_shape_def buf_print_def TEXT_SIZE_def
          del: One_nat_def)
  qed
  ultimately show ?thesis using texts(1) k(2) by blast
qed

section \<open>A run\<close>

text \<open>A click when GTK is in its main loop, and turns of the two threads.\<close>

datatype gui_step = Click button | Gtk | Suc_thread

fun gui_play :: "gui_step list \<Rightarrow> gui \<Rightarrow> gui option" where
  "gui_play [] g = Some g"
| "gui_play (s # ss) g = (if \<not> short (g_net g) then None else case s of
     Click b \<Rightarrow> if gtk g = In_main then gui_play ss (clicked b g) else None
   | Gtk \<Rightarrow> (case gtk_turn g of Inr (Some g1) \<Rightarrow> gui_play ss g1 | _ \<Rightarrow> None)
   | Suc_thread \<Rightarrow> (case successor_turn g of Inr (Some g1) \<Rightarrow> gui_play ss g1 | _ \<Rightarrow> None))"

lemma gui_play_reach:
  "gui_play ss g = Some g' \<Longrightarrow> gui_reach (\<lambda>g. calm 0 (g_net g)) g0 g \<Longrightarrow> gui_reach (\<lambda>g. calm 0 (g_net g)) g0 g'"
proof (induction ss arbitrary: g)
  case (Cons s ss)
  then have calm: "calm 0 (g_net g)" by (auto simp: short_calm split: if_splits)
  obtain g1 where "gui_play ss g1 = Some g'" "gui_reach (\<lambda>g. calm 0 (g_net g)) g0 g1"
    using Cons.prems calm
    by (cases s) (auto split: if_splits sum.splits option.splits intro: gui_click gui_gtk gui_suc)
  then show ?case by (rule Cons.IH)
qed simp

definition gui_world :: gui where
  "gui_world = (case gui_start (replicate 5 raw_stream) of Inr g \<Rightarrow> g)"

lemma gui_world_start: "gui_start (replicate 5 raw_stream) = Inr gui_world"
proof -
  have "case gui_start (replicate 5 raw_stream) of Inl e \<Rightarrow> False | Inr g \<Rightarrow> True" by code_simp
  then show ?thesis by (auto simp: gui_world_def split: sum.splits)
qed

text \<open>Four tokens, a click of each button, and two more tokens; the entries show the first token.\<close>

lemma gui_demo:
  "case gui_play (replicate 24 Suc_thread @ [Click Consume_A] @ replicate 6 Gtk @ [Click Consume_B] @ replicate 6 Gtk
      @ replicate 14 Suc_thread) gui_world of
     None \<Rightarrow> False | Some g \<Rightarrow> output_a g = '' 0'' \<and> output_b g = '' 0'' \<and> output_suc g = '' 5  1  2  3  4 ''"
  by code_simp

lemma gui_demo_world:
  obtains g where "gui_reach (\<lambda>g. calm 0 (g_net g)) gui_world g" "output_a g = '' 0''" "output_b g = '' 0''"
    "output_suc g = '' 5  1  2  3  4 ''"
proof -
  from gui_demo obtain g where g: "gui_play (replicate 24 Suc_thread @ [Click Consume_A] @ replicate 6 Gtk @ [Click Consume_B]
      @ replicate 6 Gtk @ replicate 14 Suc_thread) gui_world = Some g" "output_a g = '' 0''" "output_b g = '' 0''"
    "output_suc g = '' 5  1  2  3  4 ''" by (auto split: option.splits)
  from that [OF gui_play_reach [OF g(1) gui_begin] g(2-4)] show thesis .
qed

theorem gui_entries_witness:
  "\<exists>g. gui_reach (\<lambda>g. calm 0 (g_net g)) gui_world g \<and> output_suc g = '' 5  1  2  3  4 '' \<and> output_a g = '' 0'' \<and>
     '' 0'' = entry (received (gpcs (g_net g) ! 1) (got (g_net g) ! 1))"
proof -
  obtain g where g: "gui_reach (\<lambda>g. calm 0 (g_net g)) gui_world g" "output_a g = '' 0''" "output_suc g = '' 5  1  2  3  4 ''"
    by (rule gui_demo_world)
  from gui_entries [OF gui_world_start _ raw_lengths g(1)] g show ?thesis by auto
qed

text \<open>What a run does apart from the texts, for the schedule that lets the successor go first and clicks A and B in turn.\<close>

type_synonym gui_view = "int net \<times> gtk_pc \<times> suc_pc \<times> int"

definition view :: "gui \<Rightarrow> gui_view" where
  "view g = (g_net g, gtk g, suc g, g_count g)"

fun quick_suc :: "gui_view \<Rightarrow> gui_view option" where
  "quick_suc (n, k, At_put, c) = (case put_next 0 c n of None \<Rightarrow> None | Some n1 \<Rightarrow>
     if ppcs n ! 0 = PUnlock then Some (n1, k, if c + 1 > 4 then At_draw else At_put, c + 1) else Some (n1, k, At_put, c))"
| "quick_suc (n, k, At_draw, c) = Some (n, k, At_put, c)"

definition quick_take :: "ptr \<Rightarrow> gui_view \<Rightarrow> gui_view option" where
  "quick_take p = (\<lambda>(n, k, s, c). if gpcs n ! p = GUnlock \<and> 36 < length (got n ! p) then None else
     case get_next p n of Inr (Some n1) \<Rightarrow> Some (n1, if gpcs n ! p = GUnlock then In_main else k, s, c) | _ \<Rightarrow> None)"

fun quick_gtk :: "gui_view \<Rightarrow> gui_view option" where
  "quick_gtk (n, In_main, s, c) = None"
| "quick_gtk (n, In_consume_a, s, c) = quick_take 1 (n, In_consume_a, s, c)"
| "quick_gtk (n, In_consume_b, s, c) = quick_take 2 (n, In_consume_b, s, c)"

definition quick_close :: "gui_view \<Rightarrow> bool" where
  "quick_close = (\<lambda>(n, _). length (got n ! 1) < length (got n ! 2) + 5 \<and> length (got n ! 2) < length (got n ! 1) + 5)"

fun quick_click :: "button \<Rightarrow> gui_view \<Rightarrow> gui_view option" where
  "quick_click b (n, In_main, s, c) = (case b of Consume_A \<Rightarrow> Some (n, In_consume_a, s, c) | Consume_B \<Rightarrow> Some (n, In_consume_b, s, c)
     | _ \<Rightarrow> Some (n, In_main, s, c))"
| "quick_click b _ = None"

fun quick_drive :: "nat \<Rightarrow> button \<Rightarrow> gui_view \<Rightarrow> gui_view" where
  "quick_drive 0 b q = q"
| "quick_drive (Suc k) b q = (if \<not> quick_close q then q else case quick_suc q of
     Some q1 \<Rightarrow> quick_drive k b q1
   | None \<Rightarrow> (case quick_click b q of Some q1 \<Rightarrow> quick_drive k (if b = Consume_A then Consume_B else Consume_A) q1
     | None \<Rightarrow> (case quick_gtk q of Some q1 \<Rightarrow> quick_drive k b q1 | None \<Rightarrow> q)))"

text \<open>The texts never stop a run before a button has taken 36 tokens.\<close>

lemma quick_suc_turn:
  assumes "gui_inv g" "g_count g \<le> INT_MAX" "quick_suc (view g) = Some q"
  shows "\<exists>g'. successor_turn g = Inr (Some g') \<and> view g' = q"
proof (cases "suc g")
  case At_put
  then show ?thesis using assms(3)
    by (auto simp: view_def successor_turn_def Let_def split: option.splits if_splits)
next
  case At_draw
  obtain r where "successor_turn g = Inr r" using successor_draws [OF assms(1,2)] by blast
  then show ?thesis using At_draw assms(3) by (auto simp: view_def successor_turn_def Let_def bindE_Inr_iff)
qed

lemma entry_fits:
  assumes "k \<le> 35"
  shows "length (entry [0..int k]) < TEXT_SIZE"
proof -
  have "[0..35] = [0..int k] @ [int k + 1..35]" using assms by (intro upto_split2) auto
  then have "length (entry [0..int k]) \<le> length (entry [0..35])" by (simp add: entry_append)
  then show ?thesis by (simp add: entry_lengths TEXT_SIZE_def)
qed

lemma quick_take_turn:
  assumes many: "gui_many g" and p: "p = 1 \<or> p = 2" and head: "s_prod_head (streams (mem (g_net g)) ! k) = p"
    and tx: "tx = entry (received (gpcs (g_net g) ! p) (got (g_net g) ! p))"
    and q: "quick_take p (view g) = Some q"
  shows "\<exists>n1 r. consume_turn k tx (g_net g) = Inr (Some (n1, r)) \<and>
    q = (n1, if r = None then gtk g else In_main, suc g, g_count g)"
proof -
  let ?n = "g_net g" and ?gt = "got (g_net g) ! p"
  obtain n1 where n1: "get_next p ?n = Inr (Some n1)"
    "q = (n1, if gpcs ?n ! p = GUnlock then In_main else gtk g, suc g, g_count g)" "gpcs ?n ! p = GUnlock \<Longrightarrow> length ?gt \<le> 36"
    using q by (auto simp: quick_take_def view_def split: if_splits sum.splits option.splits)
  have single: "consume_single (mem ?n) k = CGet p" using head by (simp add: consume_single_def)
  show ?thesis
  proof (cases "gpcs ?n ! p = GUnlock")
    case True
    obtain j where j: "received (gpcs ?n ! p) ?gt = [0..int j - 1]" "last ?gt = int j" "j = length (received (gpcs ?n ! p) ?gt)"
      using received_taken [OF many p] True by blast
    have inv: "gui_inv g" using many by (simp add: gui_many_def)
    then have "in_get GUnlock ?gt" using p True by (auto simp: gui_inv_def taker_ok_def)
    then have "?gt \<noteq> []" by (simp add: in_get_def)
    then have "j \<le> 35" using j(3) n1(3) [OF True] True by (cases ?gt) (simp_all add: received_def)
    have "got n1 ! p = ?gt"
    proof -
      have "gui_shape ?n" using inv by (simp add: gui_inv_def gui_net_ok_def)
      then have lens: "p < length (gpcs ?n)" "length (gpcs ?n) = length (prods (mem ?n))" "length (got ?n) = length (prods (mem ?n))"
        using p by (auto simp: gui_shape_def)
      have "in_get (gpcs ?n ! p) ?gt" using \<open>in_get GUnlock ?gt\<close> True by simp
      then have "get_step p ?n n1" unfolding get_step_def by (rule get_next_call [OF n1(1) lens])
      from get_step_return(2) [OF this True] j \<open>?gt \<noteq> []\<close> True show ?thesis
        using n1(1) True lens by (auto simp: get_next_def get_turn_def bindE_Inr_iff)
    qed
    moreover have "[0..int j] = [0..int j - 1] @ [int j]" by (rule upto_rec2) simp
    then have "tx @ '' '' @ fmt_d (int j) = entry [0..int j]" using tx j(1) entry_snoc by simp
    ultimately have "buf_print TEXT_SIZE (tx @ '' '' @ fmt_d (last (got n1 ! p))) = Inr (entry [0..int j])"
      using entry_fits [OF \<open>j \<le> 35\<close>] j(2) by (simp add: buf_print_def)
    then show ?thesis using n1 True single by (simp add: consume_turn_def)
  qed (use n1 single in \<open>simp add: consume_turn_def\<close>)
qed

lemma quick_gtk_turn:
  assumes many: "gui_many g" and q: "quick_gtk (view g) = Some q"
  shows "\<exists>g'. gtk_turn g = Inr (Some g') \<and> view g' = q"
proof -
  have inv: "gui_inv g" using many by (simp add: gui_many_def)
  then have shape: "gui_shape (g_net g)" by (simp add: gui_inv_def gui_net_ok_def)
  have texts: "text_a g = entry (received (gpcs (g_net g) ! 1) (got (g_net g) ! 1))"
    "text_b g = entry (received (gpcs (g_net g) ! 2) (got (g_net g) ! 2))" using inv by (simp_all add: gui_inv_def taker_ok_def)
  show ?thesis
  proof (cases "gtk g")
    case In_consume_a
    then obtain n1 r where "consume_turn 1 (text_a g) (g_net g) = Inr (Some (n1, r))" "q = (n1, if r = None then gtk g else In_main, suc g, g_count g)"
      using quick_take_turn [OF many _ _ texts(1), of 1 q] q shape by (auto simp: view_def gui_shape_def)
    then show ?thesis using In_consume_a by (cases r) (auto simp: gtk_turn_def consume_a_def view_def)
  next
    case In_consume_b
    then obtain n1 r where "consume_turn 2 (text_b g) (g_net g) = Inr (Some (n1, r))" "q = (n1, if r = None then gtk g else In_main, suc g, g_count g)"
      using quick_take_turn [OF many _ _ texts(2), of 2 q] q shape by (auto simp: view_def gui_shape_def)
    then show ?thesis using In_consume_b by (cases r) (auto simp: gtk_turn_def consume_b_def view_def)
  qed (use q in \<open>simp add: view_def\<close>)
qed

lemma quick_click_turn: "quick_click b (view g) = Some q \<Longrightarrow> gtk g = In_main \<and> view (clicked b g) = q"
  by (cases "gtk g"; cases b) (auto simp: view_def)

lemma quick_count: "quick_suc (n, k, s, c) = Some (n', k', s', c') \<Longrightarrow> c' \<le> c + 1"
  by (cases s) (auto split: option.splits if_splits)

lemma gtk_turn_count: "gtk_turn g = Inr (Some g1) \<Longrightarrow> g_count g1 = g_count g"
  by (cases "consume_turn 1 (text_a g) (g_net g)"; cases "consume_turn 2 (text_b g) (g_net g)")
    (auto simp: gtk_turn_def consume_a_def consume_b_def split: gtk_pc.split_asm option.split_asm)

lemma quick_drive_reach:
  assumes "gui_reach (\<lambda>g. calm 0 (g_net g)) gui_world g" "g_count g + int k \<le> INT_MAX"
  shows "\<exists>g'. gui_reach (\<lambda>g. calm 0 (g_net g)) gui_world g' \<and> view g' = quick_drive k b (view g)"
  using assms
proof (induction k arbitrary: b g)
  case (Suc k)
  have many: "gui_many g" by (rule gui_many_reach [OF Suc.prems(1) gui_start_many [OF gui_world_start _ raw_lengths]]) simp
  then have inv: "gui_inv g" by (simp add: gui_many_def)
  show ?case
  proof (cases "quick_close (view g)")
    case True
    have "gui_shape (g_net g)" using inv by (simp add: gui_inv_def gui_net_ok_def)
    then have calm: "calm 0 (g_net g)" using True by (auto simp: quick_close_def view_def calm_def close_def gui_cells)
    consider (suc) q where "quick_suc (view g) = Some q" | (click) q where "quick_suc (view g) = None" "quick_click b (view g) = Some q"
      | (gtk) q where "quick_suc (view g) = None" "quick_click b (view g) = None" "quick_gtk (view g) = Some q"
      | (none) "quick_suc (view g) = None" "quick_click b (view g) = None" "quick_gtk (view g) = None" by blast
    then show ?thesis
    proof cases
      case suc
      obtain g1 where g1: "successor_turn g = Inr (Some g1)" "view g1 = q" using quick_suc_turn [OF inv _ suc] Suc.prems(2) by auto
      have "g_count g1 \<le> g_count g + 1" using quick_count [of "g_net g" "gtk g" "suc g" "g_count g"] suc g1(2)
        by (cases q) (auto simp: view_def)
      from Suc.IH [OF gui_suc [OF Suc.prems(1) calm g1(1)], of b] this Suc.prems(2) True suc g1(2) show ?thesis by auto
    next
      case click
      note c = quick_click_turn [OF click(2)]
      have "g_count (clicked b g) = g_count g" by (cases b) simp_all
      from Suc.IH [OF gui_click [OF Suc.prems(1) calm conjunct1 [OF c]], of b "if b = Consume_A then Consume_B else Consume_A"]
        this Suc.prems(2) True click c show ?thesis by auto
    next
      case gtk
      obtain g1 where g1: "gtk_turn g = Inr (Some g1)" "view g1 = q" using quick_gtk_turn [OF many gtk(3)] by blast
      note gtk_turn_count [OF g1(1)]
      from Suc.IH [OF gui_gtk [OF Suc.prems(1) calm g1(1)], of b] this Suc.prems(2) True gtk g1(2) show ?thesis by auto
    next
      case none
      then show ?thesis using Suc.prems(1) True by auto
    qed
  next
    case False
    then show ?thesis using Suc.prems(1) by auto
  qed
qed auto

text \<open>After 36 tokens through each button the next click of A overruns the text.\<close>

theorem gui_limit_witness:
  "\<exists>g. gui_reach (\<lambda>g. calm 0 (g_net g)) gui_world g \<and> output_a g = entry [0..35] \<and> gtk_turn g = Inl Overrun"
proof -
  have fin: "case quick_drive 900 Consume_A (view gui_world) of (n, k, s, c) \<Rightarrow> length (received (gpcs n ! 1) (got n ! 1)) = 36 \<and>
      k = In_consume_a \<and> gpcs n ! 1 = GUnlock" by code_simp
  have "g_count gui_world = 0" by code_simp
  then obtain g where g: "gui_reach (\<lambda>g. calm 0 (g_net g)) gui_world g" "view g = quick_drive 900 Consume_A (view gui_world)"
    using quick_drive_reach [OF gui_begin, of 900 Consume_A] by (auto simp: INT_MAX_def)
  have at: "length (received (gpcs (g_net g) ! 1) (got (g_net g) ! 1)) = 36" "gtk g = In_consume_a" "gpcs (g_net g) ! 1 = GUnlock"
    using fin [folded g(2), unfolded view_def prod.case] by blast+
  have "length (replicate 5 raw_stream) = 5" by simp
  from gui_limit [OF gui_world_start this raw_lengths g(1)] at
  have "output_a g = entry [0..int 36 - 1]" "gtk_turn g = Inl Overrun" by auto
  moreover have "int 36 - 1 = 35" by simp
  ultimately show ?thesis using g(1) by metis
qed

end
