(* ===== verification/Gui_Window.thy ===== *)
theory Gui_Window
  imports Gui
begin

text \<open>
  \<open>init_window\<close> of \<open>hw3_pthreads/gui/gui.c\<close>: the calls it makes to GTK, in order, with their arguments. What GTK makes of a
  call is not modelled; the properties are about the calls: what is created, where it is put, and which handler
  a button is connected to.
\<close>

text \<open>The five output lines and the widgets, by the variables that hold them.\<close>

datatype output_line = Out_a | Out_b | Out_c | Out_d | Out_suc

datatype widget = Window | Vbox | Button_table | Button button | Output_box output_line | Name_label output_line | Output output_line | Seperator

datatype widget_kind = Window_toplevel | Vbox_new bool nat | Hbox_new bool nat | Table_new nat nat bool
  | Button_with_label string | Label_new string | Entry_new | Hseparator_new

datatype handler = Main_quit | Do_connect_a | Do_connect_b | Do_connect_c | Do_connect_d
  | Do_consume_a | Do_consume_b | Do_consume_c | Do_consume_d

text \<open>The arguments of \<open>Table_attach\<close> are the left and right column and the top and bottom row.\<close>

datatype gtk_call =
    Gtk_init
  | Create widget widget_kind
  | Set_position_center widget
  | Set_default_size widget nat nat
  | Set_title widget string
  | Container_add widget widget
  | Table_attach widget widget nat nat nat nat
  | Set_editable widget bool
  | Pack_start widget widget bool bool nat
  | Signal_connect widget string handler
  | Show_all widget

definition init_window :: "gtk_call list" where
  "init_window = [
    Gtk_init, Create Window Window_toplevel, Set_position_center Window, Set_default_size Window 500 300,
    Set_title Window ''Producer Consumer'', Create Vbox (Vbox_new False 0), Container_add Window Vbox,
    Create Button_table (Table_new 4 2 False), Create (Button Connect_A) (Button_with_label ''Connect A''),
    Create (Button Connect_B) (Button_with_label ''Connect B''),
    Create (Button Connect_C) (Button_with_label ''Connect C''),
    Create (Button Connect_D) (Button_with_label ''Connect D''),
    Create (Button Consume_A) (Button_with_label ''Consume A''),
    Create (Button Consume_B) (Button_with_label ''Consume B''),
    Create (Button Consume_C) (Button_with_label ''Consume C''),
    Create (Button Consume_D) (Button_with_label ''Consume D''),
    Table_attach Button_table (Button Connect_A) 0 1 0 1, Table_attach Button_table (Button Connect_B) 1 2 0 1,
    Table_attach Button_table (Button Connect_C) 2 3 0 1, Table_attach Button_table (Button Connect_D) 3 4 0 1,
    Table_attach Button_table (Button Consume_A) 0 1 1 2, Table_attach Button_table (Button Consume_B) 1 2 1 2,
    Table_attach Button_table (Button Consume_C) 2 3 1 2, Table_attach Button_table (Button Consume_D) 3 4 1 2,
    Create (Output_box Out_a) (Hbox_new False 1), Create (Output_box Out_b) (Hbox_new False 1),
    Create (Output_box Out_c) (Hbox_new False 1), Create (Output_box Out_d) (Hbox_new False 1),
    Create (Output_box Out_suc) (Hbox_new False 1), Create (Name_label Out_a) (Label_new ''A: ''),
    Create (Name_label Out_b) (Label_new ''B: ''), Create (Name_label Out_c) (Label_new ''C: ''),
    Create (Name_label Out_d) (Label_new ''D: ''), Create (Name_label Out_suc) (Label_new ''Successor buffer: ''),
    Create (Output Out_a) Entry_new, Create (Output Out_b) Entry_new, Create (Output Out_c) Entry_new,
    Create (Output Out_d) Entry_new, Create (Output Out_suc) Entry_new, Set_editable (Output Out_a) False,
    Set_editable (Output Out_b) False, Set_editable (Output Out_c) False, Set_editable (Output Out_d) False,
    Set_editable (Output Out_suc) False, Pack_start (Output_box Out_a) (Name_label Out_a) False False 0,
    Pack_start (Output_box Out_b) (Name_label Out_b) False False 0,
    Pack_start (Output_box Out_c) (Name_label Out_c) False False 0,
    Pack_start (Output_box Out_d) (Name_label Out_d) False False 0,
    Pack_start (Output_box Out_suc) (Name_label Out_suc) False False 0,
    Pack_start (Output_box Out_a) (Output Out_a) True True 0,
    Pack_start (Output_box Out_b) (Output Out_b) True True 0,
    Pack_start (Output_box Out_c) (Output Out_c) True True 0,
    Pack_start (Output_box Out_d) (Output Out_d) True True 0,
    Pack_start (Output_box Out_suc) (Output Out_suc) True True 0, Create Seperator Hseparator_new,
    Pack_start Vbox Button_table True True 0, Pack_start Vbox (Output_box Out_a) True True 0,
    Pack_start Vbox (Output_box Out_b) True True 0, Pack_start Vbox (Output_box Out_c) True True 0,
    Pack_start Vbox (Output_box Out_d) True True 0, Pack_start Vbox Seperator False True 5,
    Pack_start Vbox (Output_box Out_suc) True True 5, Signal_connect Window ''destroy'' Main_quit,
    Signal_connect (Button Connect_A) ''clicked'' Do_connect_a,
    Signal_connect (Button Connect_B) ''clicked'' Do_connect_b,
    Signal_connect (Button Connect_C) ''clicked'' Do_connect_c,
    Signal_connect (Button Connect_D) ''clicked'' Do_connect_d,
    Signal_connect (Button Consume_A) ''clicked'' Do_consume_a,
    Signal_connect (Button Consume_B) ''clicked'' Do_consume_b,
    Signal_connect (Button Consume_C) ''clicked'' Do_consume_c,
    Signal_connect (Button Consume_D) ''clicked'' Do_consume_d, Show_all Window]"

section \<open>What the calls amount to\<close>

fun uses :: "gtk_call \<Rightarrow> widget list" where
  "uses (Set_position_center w) = [w]"
| "uses (Set_default_size w x y) = [w]"
| "uses (Set_title w t) = [w]"
| "uses (Container_add v w) = [v, w]"
| "uses (Table_attach v w l r t b) = [v, w]"
| "uses (Set_editable w e) = [w]"
| "uses (Pack_start v w e f p) = [v, w]"
| "uses (Signal_connect w g h) = [w]"
| "uses (Show_all w) = [w]"
| "uses _ = []"

text \<open>Every variable is assigned once, and before its first use; \<open>known\<close> have been.\<close>

fun initialised_first :: "widget list \<Rightarrow> gtk_call list \<Rightarrow> bool" where
  "initialised_first known [] = True"
| "initialised_first known (Create w k # cs) = (w \<notin> set known \<and> initialised_first (w # known) cs)"
| "initialised_first known (c # cs) = (set (uses c) \<subseteq> set known \<and> initialised_first known cs)"

text \<open>Which widget was put into which container.\<close>

fun contents :: "gtk_call list \<Rightarrow> (widget \<times> widget) list" where
  "contents [] = []"
| "contents (Container_add v w # cs) = (w, v) # contents cs"
| "contents (Table_attach v w l r t b # cs) = (w, v) # contents cs"
| "contents (Pack_start v w e f p # cs) = (w, v) # contents cs"
| "contents (_ # cs) = contents cs"

fun ancestor :: "(widget \<times> widget) list \<Rightarrow> nat \<Rightarrow> widget \<Rightarrow> widget" where
  "ancestor ps 0 w = w"
| "ancestor ps (Suc n) w = (case map_of ps w of None \<Rightarrow> w | Some v \<Rightarrow> ancestor ps n v)"

text \<open>The cells of the table, column and row; all are of size one.\<close>

fun cells :: "gtk_call list \<Rightarrow> (widget \<times> nat \<times> nat) list" where
  "cells [] = []"
| "cells (Table_attach v w l r t b # cs) = (if r = l + 1 \<and> b = t + 1 then (w, l, t) # cells cs else cells cs)"
| "cells (_ # cs) = cells cs"

text \<open>What a handler does to the program.\<close>

fun run_handler :: "handler \<Rightarrow> gui \<Rightarrow> gui" where
  "run_handler Do_consume_a g = g\<lparr>gtk := In_consume_a\<rparr>"
| "run_handler Do_consume_b g = g\<lparr>gtk := In_consume_b\<rparr>"
| "run_handler _ g = g"

fun handlers :: "gtk_call list \<Rightarrow> widget \<Rightarrow> string \<Rightarrow> handler list" where
  "handlers [] w g = []"
| "handlers (Signal_connect v f h # cs) w g = (if v = w \<and> f = g then [h] else []) @ handlers cs w g"
| "handlers (_ # cs) w g = handlers cs w g"

text \<open>The column and row of a button: its letter and what it does.\<close>

primrec place :: "button \<Rightarrow> nat \<times> nat" where
  "place Connect_A = (0, 0)"
| "place Connect_B = (1, 0)"
| "place Connect_C = (2, 0)"
| "place Connect_D = (3, 0)"
| "place Consume_A = (0, 1)"
| "place Consume_B = (1, 1)"
| "place Consume_C = (2, 1)"
| "place Consume_D = (3, 1)"

text \<open>The window \<open>init_window\<close> builds. No widget is used before it is created or put in two places, and each is inside the window,
  at most three containers deep. Each button is in a cell of its own and its click runs one handler, the
  one that \<open>clicked\<close> models. The buttons fill four columns and two rows, although the table was made for four rows and
  two columns.\<close>

theorem window_built:
  "initialised_first [] init_window \<and> distinct (map fst (contents init_window)) \<and> ancestor (contents init_window) 3 w = Window \<and>
   map_of (cells init_window) (Button b) = Some (place b) \<and> inj place \<and>
   (\<exists>h. handlers init_window (Button b) ''clicked'' = [h] \<and> clicked b g = run_handler h g) \<and>
   Create Button_table (Table_new 4 2 False) \<in> set init_window \<and> range place = {0..<4} \<times> {0..<2}"
proof (intro conjI)
  show "initialised_first [] init_window" by code_simp
  show "distinct (map fst (contents init_window))" by code_simp
  show "ancestor (contents init_window) 3 w = Window"
  proof (cases w)
    case (Button b) then show ?thesis by (cases b; simp; code_simp)
  next
    case (Output_box x) then show ?thesis by (cases x; simp; code_simp)
  next
    case (Name_label x) then show ?thesis by (cases x; simp; code_simp)
  next
    case (Output x) then show ?thesis by (cases x; simp; code_simp)
  qed (simp, code_simp)+
  show "map_of (cells init_window) (Button b) = Some (place b)" by (cases b; simp; code_simp)
  show "inj place"
  proof (rule injI)
    fix x y show "place x = place y \<Longrightarrow> x = y" by (cases x; cases y) simp_all
  qed
  show "\<exists>h. handlers init_window (Button b) ''clicked'' = [h] \<and> clicked b g = run_handler h g"
    by (cases b) (simp_all add: init_window_def)
  show "Create Button_table (Table_new 4 2 False) \<in> set init_window" by (simp add: init_window_def)
  have "range place = place ` {Connect_A, Connect_B, Connect_C, Connect_D, Consume_A, Consume_B, Consume_C, Consume_D}"
    using button.exhaust by blast
  also have "\<dots> = {0..<4} \<times> {0..<2}" by (auto simp: atLeast0LessThan lessThan_Suc numeral_eq_Suc)
  finally show "range place = {0..<4} \<times> {0..<2}" .
qed

end
