(* ===== verification/Log_Props.thy ===== *)
theory Log_Props
  imports Log
begin

text \<open>
  What the log of \<open>hw7_fuse/src/log.c\<close> keeps: a reader of the log recovers every field of the structures, but for the
  high half of a link count.
\<close>

section \<open>Lines\<close>

fun lines_of :: "string \<Rightarrow> string \<Rightarrow> string list" where
  "lines_of acc [] = []"
| "lines_of acc (c # cs) = (if c = CHR 0x0A then rev acc # lines_of [] cs else lines_of (c # acc) cs)"

definition value_of :: "string \<Rightarrow> string" where
  "value_of l = drop 2 (dropWhile (\<lambda>c. c \<noteq> CHR ''='') l)"

definition log_values :: "string \<Rightarrow> string list" where
  "log_values s = map value_of (lines_of [] s)"

definition plain :: "string \<Rightarrow> bool" where
  "plain v \<longleftrightarrow> list_all (\<lambda>c. c \<noteq> CHR 0x0A) v"

definition plain_name :: "string \<Rightarrow> bool" where
  "plain_name f \<longleftrightarrow> list_all (\<lambda>c. c \<noteq> CHR 0x0A \<and> c \<noteq> CHR ''='') f"

lemma lines_of_line: "plain l \<Longrightarrow> lines_of acc (l @ newline @ s) = (rev acc @ l) # lines_of [] s"
  by (induction l arbitrary: acc) (auto simp: plain_def newline_def)

lemma dropWhile_name: "plain_name f \<Longrightarrow> dropWhile (\<lambda>c. c \<noteq> CHR ''='') (f @ s) = dropWhile (\<lambda>c. c \<noteq> CHR ''='') s"
  by (induction f) (auto simp: plain_name_def)

lemma log_values_struct:
  assumes "plain_name f" "plain v"
  shows "log_values (log_struct f v @ s) = v # log_values s"
proof -
  let ?l = "''    '' @ f @ '' = '' @ v"
  have "plain ?l" using assms by (auto simp: plain_def plain_name_def list_all_iff)
  then have "lines_of [] (?l @ newline @ s) = ?l # lines_of [] s" by (simp only: lines_of_line rev.simps append_Nil)
  moreover have "value_of ?l = v" using dropWhile_name [OF assms(1), of "'' = '' @ v"] by (simp add: value_of_def)
  ultimately show ?thesis by (simp add: log_values_def log_struct_def)
qed

lemma log_values_last: "plain_name f \<Longrightarrow> plain v \<Longrightarrow> log_values (log_struct f v) = [v]"
  using log_values_struct [of f v "[]"] by (simp add: log_values_def)

lemma plain_digits: "2 \<le> b \<Longrightarrow> b \<le> 16 \<Longrightarrow> plain (digits_base b n)"
  using digits_base_chars [of b n] hex_chars_plain by (auto simp: plain_def list_all_iff)

lemma plain_Cons [simp]: "plain (c # v) \<longleftrightarrow> c \<noteq> CHR 0x0A \<and> plain v"
  by (simp add: plain_def)

lemma plain_replicate [simp]: "c \<noteq> CHR 0x0A \<Longrightarrow> plain (replicate k c)"
  by (induction k) (simp_all add: plain_def)

lemma plain_append [simp]: "plain (v @ w) \<longleftrightarrow> plain v \<and> plain w"
  by (simp add: plain_def)

lemma plain_pad0 [simp]: "plain (pad0 k v) \<longleftrightarrow> plain v"
  by (simp add: pad0_def)

lemma plain_prefixes [simp]: "plain ''0x''" "plain ''0''" "plain ''-''"
  by (simp_all add: plain_def)

lemma plain_fmt_d: "plain (fmt_d x)"
  by (simp add: fmt_d_def digits_of_base plain_digits)

lemma plain_values: "plain (f_d w)" "plain (f_ld x)" "plain (f_x k n)" "plain (f_o n)"
  by (simp_all only: f_d_def f_ld_def f_x_def f_o_def plain_append plain_pad0 plain_prefixes plain_fmt_d)
    (simp_all add: plain_digits)

section \<open>Reading the structures back\<close>

definition rd32 :: "string \<Rightarrow> 32 word" where "rd32 s = word_of_int (read_d s)"
definition rd64 :: "string \<Rightarrow> 64 word" where "rd64 s = word_of_int (read_d s)"
definition rdx :: "string \<Rightarrow> 'a::len word" where "rdx s = of_nat (read_base 16 (drop 2 s))"
definition rdo :: "string \<Rightarrow> 32 word" where "rdo s = of_nat (read_base 8 (drop 1 s))"

lemma rd_values [simp]:
  "rd32 (f_d w) = w" "rd64 (f_ld x) = x" "rdx (f_x k (unat y)) = (y :: 'a::len word)" "rdo (f_o (unat w)) = w"
proof -
  show "rd32 (f_d w) = w" "rd64 (f_ld x) = x" by (simp_all add: rd32_def f_d_def rd64_def f_ld_def read_fmt_d)
  show "rdx (f_x k (unat y)) = (y :: 'a::len word)" by (simp add: rdx_def f_x_def read_pad0 read_digits_base)
  show "rdo (f_o (unat w)) = w" by (simp add: rdo_def f_o_def read_digits_base)
qed

lemma rd64_f_d [simp]: "rd64 (f_d w) = scast w"
  by (simp add: rd64_def f_d_def read_fmt_d)

definition read_fi :: "string \<Rightarrow> log_file_info option" where
  "read_fi s = (case log_values s of
     [a, b, c, d, e, f, g] \<Rightarrow> Some \<lparr>fi_flags = rdx a, fi_fh_old = rdx b, fi_writepage = rd32 c,
       fi_direct_io = (rd32 d \<noteq> 0), fi_keep_cache = (rd32 e \<noteq> 0), fi_fh = rdx f, fi_lock_owner = rdx g\<rparr>
   | _ \<Rightarrow> None)"

definition read_stat :: "string \<Rightarrow> log_stat_buf option" where
  "read_stat s = (case log_values s of
     [a, b, c, d, e, f, g, h, i, j, k, l, m] \<Rightarrow> Some \<lparr>st_dev = rd64 a, st_ino = rd64 b, st_mode = rdo c, st_nlink = rd64 d,
       st_uid = rd32 e, st_gid = rd32 f, st_rdev = rd64 g, st_size = rd64 h, st_blksize = rd64 i, st_blocks = rd64 j,
       st_atime = rdx k, st_mtime = rdx l, st_ctime = rdx m\<rparr>
   | _ \<Rightarrow> None)"

definition read_statvfs :: "string \<Rightarrow> log_statvfs_buf option" where
  "read_statvfs s = (case log_values s of
     [a, b, c, d, e, f, g, h, i, j, k] \<Rightarrow> Some \<lparr>f_bsize = rd64 a, f_frsize = rd64 b, f_blocks = rd64 c, f_bfree = rd64 d,
       f_bavail = rd64 e, f_files = rd64 f, f_ffree = rd64 g, f_favail = rd64 h, f_fsid = rd64 i, f_flag = rdx j, f_namemax = rd64 k\<rparr>
   | _ \<Rightarrow> None)"

definition read_utime :: "string \<Rightarrow> log_utimbuf option" where
  "read_utime s = (case log_values s of [a, b] \<Rightarrow> Some \<lparr>actime = rdx a, modtime = rdx b\<rparr> | _ \<Rightarrow> None)"

lemma plain_names:
  "list_all plain_name [''flags'', ''fh_old'', ''writepage'', ''direct_io'', ''keep_cache'', ''fh'', ''lock_owner'',
     ''st_dev'', ''st_ino'', ''st_mode'', ''st_nlink'', ''st_uid'', ''st_gid'', ''st_rdev'', ''st_size'', ''st_blksize'',
     ''st_blocks'', ''st_atime'', ''st_mtime'', ''st_ctime'', ''f_bsize'', ''f_frsize'', ''f_blocks'', ''f_bfree'', ''f_bavail'',
     ''f_files'', ''f_ffree'', ''f_favail'', ''f_fsid'', ''f_flag'', ''f_namemax'', ''actime'', ''modtime'']"
  by code_simp

lemmas log_reading = log_values_struct log_values_last plain_values plain_names [unfolded list.pred_inject]

lemma read_log_fi: "read_fi (log_fi fi) = Some fi"
  by (simp add: read_fi_def log_fi_def log_reading bit_value_def)

lemma read_log_stat: "read_stat (log_stat si) = Some (si\<lparr>st_nlink := scast (ucast (st_nlink si) :: 32 word)\<rparr>)"
  by (simp add: read_stat_def log_stat_def log_reading)

lemma read_log_statvfs: "read_statvfs (log_statvfs sv) = Some sv"
  by (simp add: read_statvfs_def log_statvfs_def log_reading)

lemma read_log_utime: "read_utime (log_utime buf) = Some buf"
  by (simp add: read_utime_def log_utime_def log_reading)

text \<open>C35: The log can be read back: from what \<open>log_fi\<close>, \<open>log_statvfs\<close> and \<open>log_utime\<close> write all fields of the structure are
  recovered exactly, and from what \<open>log_stat\<close> writes all but the link count, of which only the low 32 bits
  are printed, as a signed number.\<close>

theorem log_roundtrip:
  "read_fi (log_fi fi) = Some fi \<and> read_statvfs (log_statvfs sv) = Some sv \<and> read_utime (log_utime buf) = Some buf \<and>
   read_stat (log_stat si) = Some (si\<lparr>st_nlink := scast (ucast (st_nlink si) :: 32 word)\<rparr>)"
  by (simp add: read_log_fi read_log_statvfs read_log_utime read_log_stat)

end
