(* ===== verification/Battcheck.thy ===== *)
theory Battcheck
  imports Prelude
begin

text \<open>
  The battery monitor \<open>hw2_battcheck/battcheck.c\<close>: the battery structure and the tables that say where a
  control method's results go, the extraction of an ACPI package, the walk over the devices, the
  monitoring loop, the \<open>/proc\<close> entry, module load and unload.

  The ACPI services are a parameter (record \<open>acpi\<close>); what they answer may differ from one pass of the loop to
  the next. The kernel list of batteries is a list, in order. The kernel is compiled with wrapping
  signed arithmetic, so an \<open>int\<close> expression is reduced to 32 bits; a division by zero is a fault.
  \<open>printk\<close> is a list of messages. The machine is little-endian.
\<close>

unbundle bit_operations_syntax

section \<open>Data\<close>

definition EFAULT :: int where "EFAULT = 14"
definition ENODEV :: int where "ENODEV = 19"
definition BAT_ENOMEM :: int where "BAT_ENOMEM = 12"

definition STATE_DISCHARGING :: int where "STATE_DISCHARGING = 1"
definition STATE_CHARGING :: int where "STATE_CHARGING = 2"

type_synonym acpi_handle = nat
type_synonym device = nat

record acpi_battery =
  state :: int
  present_rate :: int
  remaining_capacity :: int
  present_voltage :: int
  power_unit :: int
  design_capacity :: int
  full_charge_capacity :: int
  technology :: int
  design_voltage :: int
  design_capacity_warning :: int
  design_capacity_low :: int
  capacity_granularity_1 :: int
  capacity_granularity_2 :: int
  model_number :: "byte list"
  serial_number :: "byte list"
  battery_type :: "byte list"
  oem_info :: "byte list"
  last_state :: int
  last_remaining_capacity :: int
  percent :: int
  bat_handle :: acpi_handle
  bat_name :: "string option"

text \<open>What \<open>kzalloc\<close> leaves in a new structure.\<close>

definition zero_battery :: acpi_battery where
  "zero_battery = \<lparr>state = 0, present_rate = 0, remaining_capacity = 0, present_voltage = 0, power_unit = 0,
     design_capacity = 0, full_charge_capacity = 0, technology = 0, design_voltage = 0, design_capacity_warning = 0,
     design_capacity_low = 0, capacity_granularity_1 = 0, capacity_granularity_2 = 0,
     model_number = replicate 32 0, serial_number = replicate 32 0, battery_type = replicate 32 0,
     oem_info = replicate 32 0, last_state = 0, last_remaining_capacity = 0, percent = 0, bat_handle = 0, bat_name = None\<rparr>"

text \<open>An \<open>offsetof\<close> with mode 0 is the setter of an \<open>int\<close> field, with mode 1 the update of a string field.\<close>

datatype int_field = State | PresentRate | RemainingCapacity | PresentVoltage | PowerUnit | DesignCapacity
  | FullChargeCapacity | Technology | DesignVoltage | DesignCapacityWarning | DesignCapacityLow
  | CapacityGranularity1 | CapacityGranularity2

datatype str_field = ModelNumber | SerialNumber | BatteryType | OemInfo

datatype acpi_offset = IntAt int_field | StrAt str_field

fun set_int :: "int_field \<Rightarrow> int \<Rightarrow> acpi_battery \<Rightarrow> acpi_battery" where
  "set_int State v b = b\<lparr>state := v\<rparr>"
| "set_int PresentRate v b = b\<lparr>present_rate := v\<rparr>"
| "set_int RemainingCapacity v b = b\<lparr>remaining_capacity := v\<rparr>"
| "set_int PresentVoltage v b = b\<lparr>present_voltage := v\<rparr>"
| "set_int PowerUnit v b = b\<lparr>power_unit := v\<rparr>"
| "set_int DesignCapacity v b = b\<lparr>design_capacity := v\<rparr>"
| "set_int FullChargeCapacity v b = b\<lparr>full_charge_capacity := v\<rparr>"
| "set_int Technology v b = b\<lparr>technology := v\<rparr>"
| "set_int DesignVoltage v b = b\<lparr>design_voltage := v\<rparr>"
| "set_int DesignCapacityWarning v b = b\<lparr>design_capacity_warning := v\<rparr>"
| "set_int DesignCapacityLow v b = b\<lparr>design_capacity_low := v\<rparr>"
| "set_int CapacityGranularity1 v b = b\<lparr>capacity_granularity_1 := v\<rparr>"
| "set_int CapacityGranularity2 v b = b\<lparr>capacity_granularity_2 := v\<rparr>"

fun upd_str :: "str_field \<Rightarrow> (byte list \<Rightarrow> byte list) \<Rightarrow> acpi_battery \<Rightarrow> acpi_battery" where
  "upd_str ModelNumber f b = b\<lparr>model_number := f (model_number b)\<rparr>"
| "upd_str SerialNumber f b = b\<lparr>serial_number := f (serial_number b)\<rparr>"
| "upd_str BatteryType f b = b\<lparr>battery_type := f (battery_type b)\<rparr>"
| "upd_str OemInfo f b = b\<lparr>oem_info := f (oem_info b)\<rparr>"

definition bst_offsets :: "acpi_offset list" where
  "bst_offsets = map IntAt [State, PresentRate, RemainingCapacity, PresentVoltage]"

definition bif_offsets :: "acpi_offset list" where
  "bif_offsets = map IntAt [PowerUnit, DesignCapacity, FullChargeCapacity, Technology, DesignVoltage,
       DesignCapacityWarning, DesignCapacityLow, CapacityGranularity1, CapacityGranularity2]
     @ map StrAt [ModelNumber, SerialNumber, BatteryType, OemInfo]"

section \<open>Extracting a package\<close>

text \<open>An ACPI object. A string's memory is its bytes and a terminator, a buffer's is its bytes.\<close>

datatype acpi_object = AInteger "64 word" | AString "byte list" | ABuffer "byte list"
  | APackage "acpi_object list" | AOther

text \<open>\<open>strncpy\<close>: \<open>None\<close> when it reads behind the end of the source.\<close>

fun strncpy :: "byte list \<Rightarrow> nat \<Rightarrow> byte list option" where
  "strncpy src 0 = Some []"
| "strncpy [] (Suc n) = None"
| "strncpy (c # cs) (Suc n) = (if c = 0 then Some (replicate (Suc n) 0) else map_option (Cons c) (strncpy cs n))"

definition le_bytes :: "64 word \<Rightarrow> byte list" where
  "le_bytes w = map (\<lambda>i. ucast (drop_bit (8 * i) w)) [0..<8]"

definition store_str :: "str_field \<Rightarrow> byte list \<Rightarrow> acpi_battery \<Rightarrow> acpi_battery" where
  "store_str f bs b = upd_str f (\<lambda>old. bs @ drop (length bs) old) b"

definition extract_element :: "acpi_offset \<Rightarrow> acpi_object \<Rightarrow> acpi_battery \<Rightarrow> fault + acpi_battery" where
  "extract_element off element b = (case off of
     StrAt f \<Rightarrow> (case element of
         AString s \<Rightarrow> (case strncpy (s @ [0]) 32 of None \<Rightarrow> Inl Overrun | Some bs \<Rightarrow> Inr (store_str f bs b))
       | ABuffer s \<Rightarrow> (case strncpy s 32 of None \<Rightarrow> Inl Overrun | Some bs \<Rightarrow> Inr (store_str f bs b))
       | AInteger w \<Rightarrow> (case strncpy (le_bytes w) 8 of None \<Rightarrow> Inl Overrun
           | Some bs \<Rightarrow> Inr (store_str f (bs @ [0]) b))
       | _ \<Rightarrow> Inr (store_str f [0] b))
   | IntAt f \<Rightarrow> Inr (set_int f (case element of AInteger w \<Rightarrow> int_of_long w | _ \<Rightarrow> -1) b))"

fun extract_loop :: "acpi_offset list \<Rightarrow> acpi_object list \<Rightarrow> acpi_battery \<Rightarrow> fault + (int \<times> acpi_battery)" where
  "extract_loop [] es b = Inr (0, b)"
| "extract_loop (off # offs) [] b = Inr (- EFAULT, b)"
| "extract_loop (off # offs) (e # es) b = bindE (extract_element off e b) (\<lambda>b. extract_loop offs es b)"

definition extract_package :: "acpi_battery \<Rightarrow> acpi_object \<Rightarrow> acpi_offset list \<Rightarrow> fault + (int \<times> acpi_battery)" where
  "extract_package b package offs = (case package of
     APackage es \<Rightarrow> extract_loop offs es b
   | _ \<Rightarrow> Inr (- EFAULT, b))"

section \<open>ACPI\<close>

text \<open>The services of the ACPI core the module calls; \<open>None\<close> is a failure status. An evaluated method may
  return no object at all.\<close>

record acpi =
  get_handle :: "acpi_handle option \<Rightarrow> string \<Rightarrow> acpi_handle option"
  evaluate_object :: "acpi_handle \<Rightarrow> acpi_object option option"
  get_next_object :: "acpi_handle \<Rightarrow> acpi_handle option \<Rightarrow> acpi_handle option"
  bus_get_device :: "acpi_handle \<Rightarrow> device option"
  bus_get_status :: "device \<Rightarrow> bool option"
  get_name :: "acpi_handle \<Rightarrow> string option"

text \<open>What the module prints.\<close>

datatype message =
    BegunDischarging "string option"
  | BegunCharging "string option"
  | FullyCharged "string option"
  | IsLow "string option"
  | IsCritical "string option"
  | Verbose "string option" "int list"
  | ErrGetHandle | ErrEvaluating | ErrSystemBus | ErrStatus
  | Adding "string option"
  | Freeing "string option"
  | NotLoaded | Loaded | Unloaded

definition get_battery_control_method ::
  "acpi \<Rightarrow> acpi_battery \<Rightarrow> string \<Rightarrow> acpi_offset list \<Rightarrow> fault + (int \<times> acpi_battery \<times> message list)" where
  "get_battery_control_method ac b method offs =
     (case get_handle ac (Some (bat_handle b)) method of
        None \<Rightarrow> Inr (- ENODEV, b, [ErrGetHandle])
      | Some h \<Rightarrow> (case evaluate_object ac h of
          None \<Rightarrow> Inr (- ENODEV, b, [ErrEvaluating])
        | Some None \<Rightarrow> Inl NullDeref
        | Some (Some obj) \<Rightarrow> bindE (extract_package b obj offs) (\<lambda>(r, b). Inr (r, b, []))))"

section \<open>The monitoring thread\<close>

definition wrap_int :: "int \<Rightarrow> int" where
  "wrap_int x = sint (word_of_int x :: 32 word)"

definition percent_of :: "int \<Rightarrow> int \<Rightarrow> fault + int" where
  "percent_of remaining full =
     (let d = wrap_int (full * 2) in
      if d = 0 then Inl DivByZero else Inr (c_div (wrap_int (remaining * 200 + full)) d))"

definition discharge_report :: "acpi_battery \<Rightarrow> message list" where
  "discharge_report b = (if state b AND STATE_DISCHARGING \<noteq> 0 \<and> state b \<noteq> last_state b
     then [BegunDischarging (bat_name b)] else [])"

definition charge_report :: "acpi_battery \<Rightarrow> message list" where
  "charge_report b = (if state b AND STATE_CHARGING \<noteq> 0 \<and> state b \<noteq> last_state b
     then [BegunCharging (bat_name b)] else [])"

definition full_report :: "acpi_battery \<Rightarrow> message list" where
  "full_report b = (if last_state b AND STATE_CHARGING \<noteq> 0 \<and> \<not> state b AND STATE_CHARGING \<noteq> 0 \<and>
       remaining_capacity b \<ge> full_charge_capacity b
     then [FullyCharged (bat_name b)] else [])"

definition low_report :: "acpi_battery \<Rightarrow> message list" where
  "low_report b = (if remaining_capacity b \<le> design_capacity_warning b \<and>
       last_remaining_capacity b > design_capacity_warning b
     then [IsLow (bat_name b)] else [])"

definition is_critical :: "acpi_battery \<Rightarrow> bool" where
  "is_critical b \<longleftrightarrow> remaining_capacity b \<le> design_capacity_low b"

definition verbose_report :: "int \<Rightarrow> acpi_battery \<Rightarrow> message list" where
  "verbose_report verbose b = (if verbose \<noteq> 0
     then [Verbose (bat_name b) [state b, remaining_capacity b, percent b, full_charge_capacity b,
             design_capacity_warning b, design_capacity_low b]]
     else [])"

text \<open>The body of the loop over the batteries, with the delay so far.\<close>

definition check_battery ::
  "int \<Rightarrow> acpi \<Rightarrow> acpi_battery \<Rightarrow> int \<Rightarrow> fault + (acpi_battery \<times> int \<times> message list)" where
  "check_battery verbose ac b delay =
     bindE (get_battery_control_method ac b ''_BST'' bst_offsets) (\<lambda>(result, b, errs).
     bindE (percent_of (remaining_capacity b) (full_charge_capacity b)) (\<lambda>p.
     let b = b\<lparr>percent := p\<rparr>;
         msgs = errs @ discharge_report b @ charge_report b @ full_report b @ low_report b;
         (delay, msgs) = (if is_critical b then (2, msgs @ [IsCritical (bat_name b)]) else (delay, msgs));
         msgs = msgs @ verbose_report verbose b
     in Inr (b\<lparr>last_state := state b, last_remaining_capacity := remaining_capacity b\<rparr>, delay, msgs)))"

fun check_batteries ::
  "int \<Rightarrow> acpi \<Rightarrow> acpi_battery list \<Rightarrow> int \<Rightarrow> fault + (acpi_battery list \<times> int \<times> message list)" where
  "check_batteries verbose ac [] delay = Inr ([], delay, [])"
| "check_batteries verbose ac (b # bs) delay =
     bindE (check_battery verbose ac b delay) (\<lambda>(b, delay, m1).
     bindE (check_batteries verbose ac bs delay) (\<lambda>(bs, delay, m2).
     Inr (b # bs, delay, m1 @ m2)))"

text \<open>The thread until it is asked to stop: one list entry per pass, with what ACPI answers in it. The result
  has, per pass, the number of jiffies the thread slept after it and what it printed.\<close>

fun check_thread ::
  "int \<Rightarrow> int \<Rightarrow> acpi list \<Rightarrow> acpi_battery list \<Rightarrow> fault + (acpi_battery list \<times> (int \<times> message list) list)" where
  "check_thread HZ verbose [] bs = Inr (bs, [])"
| "check_thread HZ verbose (ac # acs) bs =
     bindE (check_batteries verbose ac bs 1) (\<lambda>(bs, delay, msgs).
     bindE (check_thread HZ verbose acs bs) (\<lambda>(bs, passes).
     Inr (bs, (c_div HZ delay, msgs) # passes)))"

section \<open>The proc entry\<close>

definition fmt_s :: "string option \<Rightarrow> string" where
  "fmt_s s = (case s of None \<Rightarrow> ''(null)'' | Some cs \<Rightarrow> cs)"

text \<open>The line is written into the page of \<open>cap\<close> bytes; \<open>sprintf\<close> with the page itself as first argument writes back
  the characters it reads.\<close>

fun proc_loop :: "nat \<Rightarrow> acpi_battery list \<Rightarrow> string \<Rightarrow> fault + string" where
  "proc_loop cap [] buf = Inr buf"
| "proc_loop cap (b # bs) buf =
     bindE (buf_print cap (buf @ fmt_s (bat_name b) @ '': '' @ fmt_d (percent b) @ ''% | '')) (\<lambda>buf.
     proc_loop cap bs buf)"

definition read_proc :: "nat \<Rightarrow> acpi_battery list \<Rightarrow> string \<Rightarrow> int \<Rightarrow> fault + (int \<times> string)" where
  "read_proc cap bs buf offset =
     (if offset = 0 then
        bindE (buf_print cap '' | '') (\<lambda>buf.
        bindE (proc_loop cap bs buf) (\<lambda>buf.
        bindE (buf_print cap (buf @ [CHR 0x0A])) (\<lambda>buf.
        Inr (int (length buf), buf))))
      else Inr (0, buf))"

section \<open>The module\<close>

text \<open>The list of batteries, the kernel memory the module holds (battery structures and name buffers), the \<open>kzalloc\<close>
  calls so far, its \<open>/proc\<close> entry, its thread and what it printed. \<open>kz n\<close> says whether the \<open>n\<close>th \<open>kzalloc\<close>
  finds memory.\<close>

record battcheck =
  batteries :: "acpi_battery list"
  structs :: nat
  names :: nat
  kz_calls :: nat
  proc_entry :: bool
  task :: "nat option"
  printed :: "message list"

definition bat_kzalloc :: "(nat \<Rightarrow> bool) \<Rightarrow> battcheck \<Rightarrow> bool \<times> battcheck" where
  "bat_kzalloc kz m = (kz (kz_calls m),
     m\<lparr>kz_calls := kz_calls m + 1, structs := structs m + (if kz (kz_calls m) then 1 else 0)\<rparr>)"

definition print_msgs :: "message list \<Rightarrow> battcheck \<Rightarrow> battcheck" where
  "print_msgs ms m = m\<lparr>printed := printed m @ ms\<rparr>"

text \<open>The body of the walk for a battery that is present; the first component is the result when the walk
  ends there.\<close>

definition add_battery ::
  "acpi \<Rightarrow> (nat \<Rightarrow> bool) \<Rightarrow> acpi_handle \<Rightarrow> battcheck \<Rightarrow> fault + (int option \<times> battcheck)" where
  "add_battery ac kz ch m =
     (case bat_kzalloc kz m of (ok, m) \<Rightarrow>
      if \<not> ok then Inr (Some (- BAT_ENOMEM), m)
      else let b = zero_battery\<lparr>bat_handle := ch, bat_name := get_name ac ch\<rparr>;
               m = m\<lparr>names := names m + (if bat_name b = None then 0 else 1)\<rparr>
        in bindE (get_battery_control_method ac b ''_BIF'' bif_offsets) (\<lambda>(r, b, errs).
           Inr (None, print_msgs (errs @ [Adding (bat_name b)]) (m\<lparr>batteries := batteries m @ [b]\<rparr>))))"

text \<open>The walk ends when ACPI has no next child. \<open>dev\<close> is the local \<open>device\<close>, which keeps its value when
  \<open>acpi_bus_get_device\<close> fails.\<close>

partial_function (option) find_loop ::
  "acpi \<Rightarrow> (nat \<Rightarrow> bool) \<Rightarrow> acpi_handle \<Rightarrow> acpi_handle option \<Rightarrow> device option \<Rightarrow> battcheck
    \<Rightarrow> (fault + (int \<times> battcheck)) option" where
  "find_loop ac kz phandle chandle dev m =
     (case get_next_object ac phandle chandle of
        None \<Rightarrow> Some (Inr (0, m))
      | Some ch \<Rightarrow>
        (case (case bus_get_device ac ch of None \<Rightarrow> dev | Some d \<Rightarrow> Some d) of
           None \<Rightarrow> Some (Inl BadDeref)
         | Some d \<Rightarrow>
           (case bus_get_status ac d of
              None \<Rightarrow> Some (Inr (- ENODEV, print_msgs [ErrStatus] m))
            | Some present \<Rightarrow>
              if present then
                (case add_battery ac kz ch m of
                   Inl f \<Rightarrow> Some (Inl f)
                 | Inr r \<Rightarrow>
                   (case fst r of
                      Some e \<Rightarrow> Some (Inr (e, snd r))
                    | None \<Rightarrow> find_loop ac kz phandle (Some ch) (Some d) (snd r)))
              else find_loop ac kz phandle (Some ch) (Some d) m)))"

declare find_loop.simps [code]

definition find_batteries :: "acpi \<Rightarrow> (nat \<Rightarrow> bool) \<Rightarrow> battcheck \<Rightarrow> (fault + (int \<times> battcheck)) option" where
  "find_batteries ac kz m = (case get_handle ac None [CHR 0x5C, CHR ''_'', CHR ''S'', CHR ''B'', CHR ''_''] of
     None \<Rightarrow> Some (Inr (-1, print_msgs [ErrSystemBus] m))
   | Some phandle \<Rightarrow> find_loop ac kz phandle None None m)"

text \<open>Module entry: \<open>created\<close> says whether the \<open>/proc\<close> entry could be made, \<open>ts\<close> is the thread \<open>kthread_run\<close>
  started, \<open>None\<close> an error pointer.\<close>

definition init_battcheck ::
  "acpi \<Rightarrow> (nat \<Rightarrow> bool) \<Rightarrow> bool \<Rightarrow> nat option \<Rightarrow> battcheck \<Rightarrow> (fault + (int \<times> battcheck)) option" where
  "init_battcheck ac kz created ts m =
     map_option (\<lambda>r. bindE r (\<lambda>(status, m).
       if status < 0 then Inr (status, print_msgs [NotLoaded] m)
       else Inr (0, print_msgs [Loaded] (m\<lparr>proc_entry := created, task := ts\<rparr>))))
     (find_batteries ac kz (m\<lparr>batteries := []\<rparr>))"

text \<open>The thread as the module runs it: its first statement allocates a structure that the loop's own variable
  then replaces.\<close>

definition run_thread ::
  "(nat \<Rightarrow> bool) \<Rightarrow> int \<Rightarrow> int \<Rightarrow> acpi list \<Rightarrow> battcheck \<Rightarrow> fault + ((int \<times> message list) list \<times> battcheck)" where
  "run_thread kz HZ verbose acs m =
     (let m = snd (bat_kzalloc kz m) in
      bindE (check_thread HZ verbose acs (batteries m)) (\<lambda>(bs, passes).
      Inr (passes, print_msgs (concat (map snd passes)) (m\<lparr>batteries := bs\<rparr>))))"

text \<open>One read of the \<open>/proc\<close> entry.\<close>

definition proc_read ::
  "(nat \<Rightarrow> bool) \<Rightarrow> nat \<Rightarrow> string \<Rightarrow> int \<Rightarrow> battcheck \<Rightarrow> fault + (int \<times> string \<times> battcheck)" where
  "proc_read kz cap buf offset m =
     (let m = (if offset = 0 then snd (bat_kzalloc kz m) else m) in
      bindE (read_proc cap (batteries m) buf offset) (\<lambda>(len, buf). Inr (len, buf, m)))"

fun free_loop :: "acpi_battery list \<Rightarrow> battcheck \<Rightarrow> fault + battcheck" where
  "free_loop [] m = Inr m"
| "free_loop (b # bs) m =
     (if structs m = 0 then Inl BadFree
      else free_loop bs (print_msgs [Freeing (bat_name b)] (m\<lparr>batteries := bs, structs := structs m - 1\<rparr>)))"

definition exit_battcheck :: "battcheck \<Rightarrow> fault + battcheck" where
  "exit_battcheck m = (case task m of
     None \<Rightarrow> Inl BadDeref
   | Some ts \<Rightarrow> bindE (free_loop (batteries m) (m\<lparr>task := None, proc_entry := False\<rparr>)) (\<lambda>m.
       Inr (print_msgs [Unloaded] m)))"

end
