(* ===== verification/Battcheck_Props.thy ===== *)
theory Battcheck_Props
  imports Battcheck
begin

text \<open>
  Properties of \<open>hw2_battcheck/battcheck.c\<close>: what an ACPI package leaves in a battery, the range of every field,
  the percentage, the reports of a run of the monitoring thread against the sequence of readings, the
  walk over the devices, the line in \<open>/proc\<close>, and the memory a load, a run and an unload leave behind.
\<close>

section \<open>Extraction\<close>

lemma set_int_keeps [simp]:
  "model_number (set_int f v b) = model_number b" "serial_number (set_int f v b) = serial_number b"
  "battery_type (set_int f v b) = battery_type b" "oem_info (set_int f v b) = oem_info b"
  "bat_name (set_int f v b) = bat_name b" "bat_handle (set_int f v b) = bat_handle b"
  "last_state (set_int f v b) = last_state b" "last_remaining_capacity (set_int f v b) = last_remaining_capacity b"
  "percent (set_int f v b) = percent b"
  by (cases f; simp)+

lemma strncpy_string:
  "0 \<notin> set s \<Longrightarrow> strncpy (s @ 0 # xs) n = Some (take n (s @ replicate (n - length s) 0))"
  by (induction s arbitrary: n; case_tac n) auto

lemma length_strncpy: "strncpy src n = Some bs \<Longrightarrow> length bs = n"
  by (induction src n arbitrary: bs rule: strncpy.induct) (auto split: if_splits)

lemma strncpy_terminated: "0 \<in> set src \<Longrightarrow> \<exists>bs. strncpy src n = Some bs"
  by (induction src n rule: strncpy.induct) auto

lemma strncpy_long: "n \<le> length src \<Longrightarrow> \<exists>bs. strncpy src n = Some bs"
  by (induction src n rule: strncpy.induct) auto

text \<open>Every field is an \<open>int\<close> of the machine, every string field has its 32 bytes.\<close>

definition battery_ok :: "acpi_battery \<Rightarrow> bool" where
  "battery_ok b \<longleftrightarrow>
     (\<forall>v \<in> {state b, present_rate b, remaining_capacity b, present_voltage b, power_unit b, design_capacity b,
        full_charge_capacity b, technology b, design_voltage b, design_capacity_warning b, design_capacity_low b,
        capacity_granularity_1 b, capacity_granularity_2 b, last_state b, last_remaining_capacity b, percent b}. in_int v) \<and>
     (\<forall>s \<in> {model_number b, serial_number b, battery_type b, oem_info b}. length s = 32)"

lemma in_int_consts [simp]: "in_int 0" "in_int (-1)"
  by (simp_all add: in_int_def INT_MIN_def INT_MAX_def)

lemma set_int_ok: "battery_ok b \<Longrightarrow> in_int v \<Longrightarrow> battery_ok (set_int f v b)"
  by (cases f) (simp_all add: battery_ok_def)

lemma upd_str_ok: "battery_ok b \<Longrightarrow> (\<And>old. length old = 32 \<Longrightarrow> length (g old) = 32) \<Longrightarrow> battery_ok (upd_str f g b)"
  by (cases f) (simp_all add: battery_ok_def)

lemma store_str_ok: "battery_ok b \<Longrightarrow> length bs \<le> 32 \<Longrightarrow> battery_ok (store_str f bs b)"
  unfolding store_str_def by (rule upd_str_ok) simp_all

lemma extract_element_ok:
  assumes "extract_element off e b = Inr b'" "battery_ok b"
  shows "battery_ok b'"
proof (cases off)
  case (IntAt f)
  then show ?thesis using assms by (cases e) (auto simp: extract_element_def set_int_ok int_of_long_in_int)
next
  case (StrAt f)
  have "battery_ok (store_str f bs b)" if "strncpy src n = Some bs" "n \<le> 32" for src n bs
    using length_strncpy [OF that(1)] that(2) assms(2) by (simp add: store_str_ok)
  moreover have "battery_ok (store_str f (bs @ [0]) b)" if "strncpy src 8 = Some bs" for src bs
    using length_strncpy [OF that(1)] assms(2) by (simp add: store_str_ok)
  moreover have "battery_ok (store_str f [0] b)" using assms(2) by (simp add: store_str_ok)
  ultimately show ?thesis using assms(1) StrAt by (auto simp: extract_element_def split: acpi_object.splits option.splits)
qed

lemma extract_loop_ok: "extract_loop offs es b = Inr (r, b') \<Longrightarrow> battery_ok b \<Longrightarrow> battery_ok b'"
  by (induction offs es b rule: extract_loop.induct) (auto simp: bindE_Inr_iff extract_element_ok)

lemma extract_package_ok: "extract_package b obj offs = Inr (r, b') \<Longrightarrow> battery_ok b \<Longrightarrow> battery_ok b'"
  by (auto simp: extract_package_def extract_loop_ok split: acpi_object.splits)

lemma control_method_ok:
  "get_battery_control_method ac b method offs = Inr (r, b', errs) \<Longrightarrow> battery_ok b \<Longrightarrow> battery_ok b'"
  by (auto simp: get_battery_control_method_def bindE_Inr_iff extract_package_ok split: option.splits)

lemma zero_battery_ok: "battery_ok (zero_battery\<lparr>bat_handle := h, bat_name := n\<rparr>)"
  by (simp add: battery_ok_def zero_battery_def)

section \<open>A full package\<close>

lemma extract_loop_result:
  "extract_loop offs es b = Inr (r, b') \<Longrightarrow> r = (if length es < length offs then - EFAULT else 0)"
  by (induction offs es b rule: extract_loop.induct) (auto simp: bindE_Inr_iff)

definition c_string :: "byte list \<Rightarrow> byte list" where
  "c_string bs = takeWhile (\<lambda>c. c \<noteq> 0) bs"

definition stored :: "byte list \<Rightarrow> byte list" where
  "stored s = take 32 (s @ replicate (32 - length s) 0)"

lemma c_string_stored: "0 \<notin> set s \<Longrightarrow> c_string (stored s) = take 32 s"
proof -
  assume "0 \<notin> set s"
  then have "\<forall>c \<in> set (take 32 s). c \<noteq> 0" by (metis in_set_takeD)
  then show ?thesis by (simp add: c_string_def stored_def takeWhile_append2 takeWhile_replicate)
qed

lemma extract_string:
  assumes "0 \<notin> set s" "battery_ok b"
  shows "extract_element (StrAt f) (AString s) b = Inr (upd_str f (\<lambda>old. stored s) b)"
  using assms by (cases f)
    (simp_all add: extract_element_def strncpy_string [where xs = "[]", simplified] store_str_def stored_def battery_ok_def)

lemma stored_ok: "battery_ok b \<Longrightarrow> battery_ok (upd_str f (\<lambda>old. stored s) b)"
  by (rule upd_str_ok) (simp_all add: stored_def)

text \<open>A \<open>_BIF\<close> package of nine integers and four strings ends up in the battery: each integer as the \<open>int\<close> of
  its low 32 bits, each string as far as the field's 32 bytes go. A package with fewer than thirteen
  elements is refused with \<open>-EFAULT\<close>.\<close>

theorem batt_extract_bif:
  assumes "battery_ok b" "length ws = 9" "length ss = 4" "\<And>s. s \<in> set ss \<Longrightarrow> 0 \<notin> set s"
  shows "(\<exists>b'. extract_package b (APackage (map AInteger ws @ map AString ss @ rest)) bif_offsets = Inr (0, b') \<and>
      [power_unit b', design_capacity b', full_charge_capacity b', technology b', design_voltage b',
       design_capacity_warning b', design_capacity_low b', capacity_granularity_1 b', capacity_granularity_2 b'] =
        map int_of_long ws \<and>
      map c_string [model_number b', serial_number b', battery_type b', oem_info b'] = map (take 32) ss) \<and>
    (length es < 13 \<and> extract_package b (APackage es) bif_offsets = Inr (r, b'') \<longrightarrow> r = - EFAULT)"
proof -
  obtain w0 w1 w2 w3 w4 w5 w6 w7 w8 where ws: "ws = [w0, w1, w2, w3, w4, w5, w6, w7, w8]"
    using assms(2) by (auto simp: length_Suc_conv eval_nat_numeral)
  obtain s0 s1 s2 s3 where ss: "ss = [s0, s1, s2, s3]" using assms(3) by (auto simp: length_Suc_conv eval_nat_numeral)
  let ?b = "b\<lparr>power_unit := int_of_long w0, design_capacity := int_of_long w1, full_charge_capacity := int_of_long w2,
     technology := int_of_long w3, design_voltage := int_of_long w4, design_capacity_warning := int_of_long w5,
     design_capacity_low := int_of_long w6, capacity_granularity_1 := int_of_long w7, capacity_granularity_2 := int_of_long w8\<rparr>"
  have ok: "battery_ok ?b" using assms(1) by (simp add: battery_ok_def int_of_long_in_int)
  have s: "0 \<notin> set s0" "0 \<notin> set s1" "0 \<notin> set s2" "0 \<notin> set s3" using assms(4) by (simp_all add: ss)
  let ?b' = "?b\<lparr>model_number := stored s0, serial_number := stored s1, battery_type := stored s2, oem_info := stored s3\<rparr>"
  have int: "extract_element (IntAt f) (AInteger w) c = Inr (set_int f (int_of_long w) c)" for f w c
    by (simp add: extract_element_def)
  have strs: "extract_loop (map StrAt [ModelNumber, SerialNumber, BatteryType, OemInfo]) (map AString ss @ rest) ?b = Inr (0, ?b')"
    using extract_string [OF s(1) ok, of ModelNumber] extract_string [OF s(2) stored_ok [OF ok], of SerialNumber ModelNumber s0]
      extract_string [OF s(3) stored_ok [OF stored_ok [OF ok]], of BatteryType SerialNumber s1 ModelNumber s0]
      extract_string [OF s(4) stored_ok [OF stored_ok [OF stored_ok [OF ok]]], of OemInfo BatteryType s2 SerialNumber s1 ModelNumber s0]
    by (simp add: ss)
  have "extract_package b (APackage (map AInteger ws @ map AString ss @ rest)) bif_offsets = Inr (0, ?b')"
    using strs by (simp add: extract_package_def bif_offsets_def ws int)
  moreover have "map c_string [model_number ?b', serial_number ?b', battery_type ?b', oem_info ?b'] = map (take 32) ss"
    using s by (simp add: c_string_stored ss)
  moreover have "r = - EFAULT" if "length es < 13" "extract_package b (APackage es) bif_offsets = Inr (r, b'')"
    using extract_loop_result [of bif_offsets es b r b''] that by (simp add: extract_package_def bif_offsets_def)
  ultimately show ?thesis by (simp add: ws)
qed

theorem batt_extract_bif_witness:
  "\<exists>b'. extract_package zero_battery (APackage (map AInteger [1, 5200, 5000, 1, 11100, 500, 100, 10, 0xFFFFFFFF]
      @ map AString [[66, 65], [], [76], [83]] @ [])) bif_offsets = Inr (0, b') \<and>
     full_charge_capacity b' = 5000 \<and> capacity_granularity_2 b' = -1"
proof -
  have ok: "battery_ok zero_battery" by code_simp
  have "\<exists>b'. extract_package zero_battery (APackage (map AInteger [1, 5200, 5000, 1, 11100, 500, 100, 10, 0xFFFFFFFF]
      @ map AString [[66, 65], [], [76], [83]] @ [])) bif_offsets = Inr (0, b') \<and>
      [power_unit b', design_capacity b', full_charge_capacity b', technology b', design_voltage b',
       design_capacity_warning b', design_capacity_low b', capacity_granularity_1 b', capacity_granularity_2 b'] =
        map int_of_long [1, 5200, 5000, 1, 11100, 500, 100, 10, 0xFFFFFFFF]"
    using conjunct1 [OF batt_extract_bif [OF ok, where ws = "[1, 5200, 5000, 1, 11100, 500, 100, 10, 0xFFFFFFFF]"
        and ss = "[[66, 65], [], [76], [83]]" and rest = "[]" and es = "[]" and r = 0 and b'' = zero_battery]]
    by fastforce
  moreover have "map int_of_long [1, 5200, 5000, 1, 11100, 500, 100, 10, 0xFFFFFFFF] =
      [1, 5200, 5000, 1, 11100, 500, 100, 10, -1]" by code_simp
  ultimately show ?thesis by auto
qed

section \<open>The percentage\<close>

lemma wrap_int_in_int: "in_int (wrap_int x)"
  using sint_greater_eq [of "word_of_int x :: 32 word"] sint_less [of "word_of_int x :: 32 word"]
  by (simp add: in_int_def wrap_int_def INT_MIN_def INT_MAX_def)

lemma wrap_int_mod: "wrap_int x = (x + 2147483648) mod 4294967296 - 2147483648"
  by (simp add: wrap_int_def int_word_sint)

lemma wrap_int_id: "in_int x \<Longrightarrow> wrap_int x = x"
  by (simp add: wrap_int_mod in_int_def INT_MIN_def INT_MAX_def)

lemma even_wrap_int: "even (wrap_int x) = even x"
  by (simp only: wrap_int_def sint_sbintrunc' even_signed_take_bit_iff)

lemma abs_c_div_le: "\<bar>c_div a d\<bar> \<le> \<bar>a\<bar> div \<bar>d\<bar>"
proof -
  have nn: "0 \<le> \<bar>a\<bar> div \<bar>d\<bar>" by (cases "d = 0") (simp_all add: pos_imp_zdiv_nonneg_iff)
  have "\<bar>c_div a d\<bar> = \<bar>sgn a * sgn d\<bar> * (\<bar>a\<bar> div \<bar>d\<bar>)"
    using nn by (simp only: c_div_def abs_mult abs_of_nonneg)
  moreover have "\<bar>sgn a * sgn d\<bar> \<le> (1::int)" by (simp add: sgn_if)
  ultimately show ?thesis using nn mult_right_mono [of "\<bar>sgn a * sgn d\<bar>" 1] by simp
qed

lemma c_div_in_int:
  assumes "in_int a" "even d" "d \<noteq> 0"
  shows "in_int (c_div a d)"
proof -
  have "2 \<le> \<bar>d\<bar>" using assms(2,3) by (auto elim!: evenE)
  then have "\<bar>a\<bar> div \<bar>d\<bar> \<le> \<bar>a\<bar> div 2" by (simp add: zdiv_mono2)
  also have "\<dots> \<le> 1073741824" using assms(1) by (simp add: in_int_def INT_MIN_def INT_MAX_def) linarith
  finally have "\<bar>c_div a d\<bar> \<le> 1073741824" using abs_c_div_le [of a d] by simp
  then show ?thesis by (simp add: in_int_def INT_MIN_def INT_MAX_def abs_le_iff)
qed

lemma percent_of_in_int: "percent_of r f = Inr p \<Longrightarrow> in_int p"
  by (auto simp: percent_of_def Let_def wrap_int_in_int even_wrap_int intro!: c_div_in_int split: if_splits)

lemma percent_of_zero: "percent_of r f = Inl e \<longleftrightarrow> e = DivByZero \<and> wrap_int (f * 2) = 0"
  by (auto simp: percent_of_def Let_def)

lemma rounded:
  fixes r f w m :: int
  shows "r * 200 + f = 2 * w + m \<Longrightarrow> 0 \<le> m \<Longrightarrow> m < f * 2 \<Longrightarrow> 2 * \<bar>w - 100 * r\<bar> \<le> f"
  by arith



section \<open>One pass over a battery\<close>

lemma bst_extract:
  "extract_package b (APackage (map AInteger [w0, w1, w2, w3])) bst_offsets =
     Inr (0, b\<lparr>state := int_of_long w0, present_rate := int_of_long w1, remaining_capacity := int_of_long w2,
       present_voltage := int_of_long w3\<rparr>)"
  by (simp add: extract_package_def bst_offsets_def extract_element_def)

lemma bst_keeps:
  assumes "get_battery_control_method ac b method bst_offsets = Inr (r, b', errs)"
  shows "full_charge_capacity b' = full_charge_capacity b \<and> design_capacity_warning b' = design_capacity_warning b \<and>
    design_capacity_low b' = design_capacity_low b \<and> bat_name b' = bat_name b \<and> bat_handle b' = bat_handle b \<and>
    last_state b' = last_state b \<and> last_remaining_capacity b' = last_remaining_capacity b"
proof -
  let ?keep = "\<lambda>b b'. full_charge_capacity b' = full_charge_capacity b \<and>
    design_capacity_warning b' = design_capacity_warning b \<and> design_capacity_low b' = design_capacity_low b \<and>
    bat_name b' = bat_name b \<and> bat_handle b' = bat_handle b \<and> last_state b' = last_state b \<and>
    last_remaining_capacity b' = last_remaining_capacity b"
  have step: "?keep b b'" if "extract_element (IntAt f) e b = Inr b'"
    "f \<in> {State, PresentRate, RemainingCapacity, PresentVoltage}" for f e b b'
    using that by (auto simp: extract_element_def)
  have "?keep b b'" if "extract_loop (map IntAt fs) es b = Inr (r, b')"
    "set fs \<subseteq> {State, PresentRate, RemainingCapacity, PresentVoltage}" for fs es b b'
    using that
  proof (induction fs arbitrary: es b)
    case (Cons f fs)
    show ?case
    proof (cases es)
      case (Cons e es')
      with Cons.prems obtain b1 where b1: "extract_element (IntAt f) e b = Inr b1"
        "extract_loop (map IntAt fs) es' b1 = Inr (r, b')" by (auto simp: bindE_Inr_iff)
      have "?keep b b1" by (rule step [OF b1(1)]) (use Cons.prems(2) in simp)
      moreover have "?keep b1 b'" using Cons.IH [OF b1(2)] Cons.prems(2) by simp
      ultimately show ?thesis by simp
    qed (use Cons.prems in simp)
  qed simp
  note loop = this
  from assms show ?thesis
    by (auto simp: get_battery_control_method_def bindE_Inr_iff extract_package_def bst_offsets_def
        dest!: loop [of "[State, PresentRate, RemainingCapacity, PresentVoltage]", simplified]
        split: option.splits acpi_object.splits)
qed

lemma check_battery_ok:
  assumes "check_battery verbose ac b delay = Inr (b', d, ms)" "battery_ok b"
  shows "battery_ok b' \<and> bat_name b' = bat_name b \<and> bat_handle b' = bat_handle b"
proof -
  obtain r b1 errs p where g: "get_battery_control_method ac b ''_BST'' bst_offsets = Inr (r, b1, errs)"
    "percent_of (remaining_capacity b1) (full_charge_capacity b1) = Inr p"
    "b' = b1\<lparr>percent := p, last_state := state b1, last_remaining_capacity := remaining_capacity b1\<rparr>"
    using assms(1) by (auto simp: check_battery_def bindE_Inr_iff Let_def split: if_splits)
  have "battery_ok b1" by (rule control_method_ok [OF g(1) assms(2)])
  with percent_of_in_int [OF g(2)] bst_keeps [OF g(1)] g(3) show ?thesis by (simp add: battery_ok_def)
qed

lemma check_batteries_ok:
  "check_batteries verbose ac bs delay = Inr (bs', d, ms) \<Longrightarrow> \<forall>b \<in> set bs. battery_ok b \<Longrightarrow>
    (\<forall>b \<in> set bs'. battery_ok b) \<and> map bat_name bs' = map bat_name bs \<and> map bat_handle bs' = map bat_handle bs"
proof (induction bs arbitrary: delay bs' d ms)
  case (Cons b bs)
  then obtain b1 d1 m1 bs1 m2 where c: "check_battery verbose ac b delay = Inr (b1, d1, m1)"
    "check_batteries verbose ac bs d1 = Inr (bs1, d, m2)" "bs' = b1 # bs1" by (auto simp: bindE_Inr_iff)
  with Cons.IH [OF c(2)] check_battery_ok [OF c(1)] Cons.prems(2) show ?case by simp
qed simp

lemma check_thread_ok:
  "check_thread HZ verbose acs bs = Inr (bs', ps) \<Longrightarrow> \<forall>b \<in> set bs. battery_ok b \<Longrightarrow>
    (\<forall>b \<in> set bs'. battery_ok b) \<and> map bat_name bs' = map bat_name bs \<and> map bat_handle bs' = map bat_handle bs"
proof (induction acs arbitrary: bs ps)
  case (Cons ac acs)
  then obtain bs1 d ms ps1 where c: "check_batteries verbose ac bs 1 = Inr (bs1, d, ms)"
    "check_thread HZ verbose acs bs1 = Inr (bs', ps1)" by (auto simp: bindE_Inr_iff)
  with Cons.IH [OF c(2)] check_batteries_ok [OF c(1) Cons.prems(2)] show ?case by simp
qed simp

text \<open>The full capacity a load leaves in a battery: the third element of its \<open>_BIF\<close> package; 0 when there is no such method, its
  evaluation fails, or it answers something other than a package of three or more elements.\<close>

definition bif_full :: "acpi \<Rightarrow> acpi_handle \<Rightarrow> int" where
  "bif_full ac ch = (case get_handle ac (Some ch) ''_BIF'' of None \<Rightarrow> 0 | Some h \<Rightarrow>
     (case evaluate_object ac h of Some (Some (APackage (e0 # e1 # e2 # es))) \<Rightarrow>
        (case e2 of AInteger w \<Rightarrow> int_of_long w | _ \<Rightarrow> -1)
      | _ \<Rightarrow> 0))"

lemma bif_full_in_int: "in_int (bif_full ac ch)"
  by (auto simp: bif_full_def int_of_long_in_int split: option.splits acpi_object.splits list.splits)

lemma double_zero: "in_int f \<Longrightarrow> wrap_int (f * 2) = 0 \<longleftrightarrow> f = 0 \<or> f = INT_MIN"
proof -
  assume f: "in_int f"
  have "wrap_int (f * 2) = 0 \<longleftrightarrow> (f * 2 + 2147483648) mod 4294967296 = 2147483648 mod 4294967296" by (simp add: wrap_int_mod)
  also have "\<dots> \<longleftrightarrow> 4294967296 dvd f * 2" by (subst mod_eq_dvd_iff) simp
  also have "\<dots> \<longleftrightarrow> f = 0 \<or> f = INT_MIN"
  proof
    assume "4294967296 dvd f * 2"
    then obtain c where c: "f = 2147483648 * c" by (auto elim!: dvdE)
    then have "-1 \<le> c" "c \<le> 0" using f by (simp_all add: in_int_def INT_MIN_def INT_MAX_def)
    then have "c = -1 \<or> c = 0" by linarith
    then show "f = 0 \<or> f = INT_MIN" using c by (auto simp: INT_MIN_def)
  qed (auto simp: INT_MIN_def)
  finally show ?thesis .
qed

text \<open>The elements after the third one do not change the full capacity.\<close>

lemma upd_str_full [simp]: "full_charge_capacity (upd_str f g b) = full_charge_capacity b"
  by (cases f) simp_all

lemma extract_element_full:
  "extract_element off e b = Inr b' \<Longrightarrow> off \<noteq> IntAt FullChargeCapacity \<Longrightarrow> full_charge_capacity b' = full_charge_capacity b"
proof (cases off)
  case (IntAt f)
  assume "extract_element off e b = Inr b'" "off \<noteq> IntAt FullChargeCapacity"
  then show ?thesis using IntAt by (cases f) (auto simp: extract_element_def)
qed (auto simp: extract_element_def store_str_def split: acpi_object.splits option.splits)

lemma extract_loop_full:
  "extract_loop offs es b = Inr (r, b') \<Longrightarrow> IntAt FullChargeCapacity \<notin> set offs \<Longrightarrow> full_charge_capacity b' = full_charge_capacity b"
  by (induction offs es b rule: extract_loop.induct) (auto simp: bindE_Inr_iff extract_element_full)

lemma bif_extract_full:
  assumes "extract_loop bif_offsets es b = Inr (r, b')"
  shows "full_charge_capacity b' = (case es of e0 # e1 # e2 # es' \<Rightarrow> (case e2 of AInteger w \<Rightarrow> int_of_long w | _ \<Rightarrow> -1)
     | _ \<Rightarrow> full_charge_capacity b)"
proof -
  obtain offs where offs: "bif_offsets = IntAt PowerUnit # IntAt DesignCapacity # IntAt FullChargeCapacity # offs"
    "IntAt FullChargeCapacity \<notin> set offs" by (simp add: bif_offsets_def)
  note step = assms [unfolded offs(1)]
  consider "es = []" | e0 where "es = [e0]" | e0 e1 where "es = [e0, e1]" | e0 e1 e2 es' where "es = e0 # e1 # e2 # es'"
    by (metis list.exhaust)
  then show ?thesis
  proof cases
    case (4 e0 e1 e2 es')
    then have "\<exists>b2. extract_loop offs es' b2 = Inr (r, b') \<and>
        full_charge_capacity b2 = (case e2 of AInteger w \<Rightarrow> int_of_long w | _ \<Rightarrow> -1)"
      using step by (auto simp: extract_element_def)
    then show ?thesis using extract_loop_full [OF _ offs(2)] 4 by auto
  qed (use step in \<open>auto simp: extract_element_def\<close>)
qed

lemma add_battery_full:
  assumes "add_battery ac kz ch m = Inr (None, m')"
  shows "full_charge_capacity (last (batteries m')) = bif_full ac ch"
proof -
  let ?b = "zero_battery\<lparr>bat_handle := ch, bat_name := get_name ac ch\<rparr>"
  obtain r b errs where b: "get_battery_control_method ac ?b ''_BIF'' bif_offsets = Inr (r, b, errs)" "last (batteries m') = b"
    using assms by (auto simp: add_battery_def Let_def bindE_Inr_iff print_msgs_def split: prod.splits if_splits)
  have zero: "full_charge_capacity ?b = 0" by (simp add: zero_battery_def)
  from b(1) have "full_charge_capacity b = bif_full ac ch"
    unfolding get_battery_control_method_def bif_full_def
    by (auto simp: zero bindE_Inr_iff extract_package_def simp del: acpi_battery.simps acpi_battery.select_convs
        dest!: bif_extract_full split: option.splits acpi_object.splits list.splits)
  then show ?thesis using b(2) by simp
qed

text \<open>C38: When the answer of \<open>_BST\<close> can be read, a pass over a battery divides by zero exactly when its stored full capacity is 0
  or the least \<open>int\<close>. No pass changes this capacity. Loading stores 0 when \<open>_BIF\<close> is missing, cannot be evaluated, or does not answer a
  package of at least three elements (such a battery is monitored all the same), and the third element otherwise.\<close>

theorem batt_division_by_zero:
  assumes "get_battery_control_method ac b ''_BST'' bst_offsets = Inr (r, b1, errs)" "in_int (full_charge_capacity b)"
  shows "(check_battery verbose ac b delay = Inl DivByZero \<longleftrightarrow> full_charge_capacity b = 0 \<or> full_charge_capacity b = INT_MIN) \<and>
    (check_battery verbose ac b delay = Inr (b', d, msgs) \<longrightarrow> full_charge_capacity b' = full_charge_capacity b) \<and>
    (add_battery al kz ch m = Inr (None, m') \<longrightarrow> full_charge_capacity (last (batteries m')) = bif_full al ch)"
proof -
  have "full_charge_capacity b1 = full_charge_capacity b" using bst_keeps [OF assms(1)] by blast
  then have "check_battery verbose ac b delay = Inl DivByZero \<longleftrightarrow> full_charge_capacity b = 0 \<or> full_charge_capacity b = INT_MIN"
    "check_battery verbose ac b delay = Inr (b', d, msgs) \<longrightarrow> full_charge_capacity b' = full_charge_capacity b"
    using assms(1) percent_of_zero [of "remaining_capacity b1" "full_charge_capacity b1" DivByZero] double_zero [OF assms(2)]
    by (auto simp: check_battery_def Let_def bindE_Inl_iff bindE_Inr_iff split: if_splits)
  then show ?thesis using add_battery_full by blast
qed

text \<open>A battery with a control method that answers four integers.\<close>

definition bst_answer :: "acpi \<Rightarrow> acpi_handle \<Rightarrow> 64 word list \<Rightarrow> bool" where
  "bst_answer ac bh ws \<longleftrightarrow> length ws = 4 \<and> (case get_handle ac (Some bh) ''_BST'' of None \<Rightarrow> False
     | Some h \<Rightarrow> evaluate_object ac h = Some (Some (APackage (map AInteger ws))))"

definition demo_acpi :: "64 word list \<Rightarrow> acpi" where
  "demo_acpi ws = \<lparr>
     get_handle = (\<lambda>h method. if method = ''_BIF'' then None else if h = None then Some 1 else Some 70),
     evaluate_object = (\<lambda>h. Some (Some (APackage (map AInteger ws)))),
     get_next_object = (\<lambda>ph ch. case ch of None \<Rightarrow> Some 8 | Some h \<Rightarrow> if h = 8 then Some 9 else None),
     bus_get_device = (\<lambda>h. Some (h + 100)), bus_get_status = (\<lambda>d. Some (d = 109)),
     get_name = (\<lambda>h. Some ''BAT0'')\<rparr>"

definition demo_battery :: acpi_battery where
  "demo_battery = zero_battery\<lparr>bat_handle := 9, bat_name := Some ''BAT0'', full_charge_capacity := 5000,
     design_capacity_warning := 500, design_capacity_low := 100\<rparr>"

definition fresh_module :: battcheck where
  "fresh_module = \<lparr>batteries = [], structs = 0, names = 0, kz_calls = 0, proc_entry = False, task = None, printed = []\<rparr>"

lemma demo_bst: "bst_answer (demo_acpi [a, b, c, d]) h [a, b, c, d]"
  by (simp add: bst_answer_def demo_acpi_def)

lemma bst_answer_method:
  assumes "bst_answer ac (bat_handle b) ws"
  shows "get_battery_control_method ac b ''_BST'' bst_offsets =
    Inr (0, b\<lparr>state := int_of_long (ws ! 0), present_rate := int_of_long (ws ! 1),
      remaining_capacity := int_of_long (ws ! 2), present_voltage := int_of_long (ws ! 3)\<rparr>, [])"
proof -
  obtain w0 w1 w2 w3 where ws: "ws = [w0, w1, w2, w3]"
    using assms by (auto simp: bst_answer_def length_Suc_conv eval_nat_numeral)
  then show ?thesis using assms
    by (auto simp: bst_answer_def get_battery_control_method_def bst_extract [simplified] split: option.splits)
qed

text \<open>A battery without \<open>_BIF\<close> is loaded, and the first pass divides by zero.\<close>

theorem batt_division_by_zero_witness:
  "\<exists>m b. add_battery (demo_acpi [1, 0, 4000, 12000]) (\<lambda>n. True) 9 fresh_module = Inr (None, m) \<and> batteries m = [b] \<and>
     check_battery 0 (demo_acpi [1, 0, 4000, 12000]) b 1 = Inl DivByZero"
proof -
  let ?ac = "demo_acpi [1, 0, 4000, 12000]"
  have "case add_battery ?ac (\<lambda>n. True) 9 fresh_module of Inr (None, m) \<Rightarrow> length (batteries m) = 1 | _ \<Rightarrow> False" by code_simp
  then obtain m b where m: "add_battery ?ac (\<lambda>n. True) 9 fresh_module = Inr (None, m)" "batteries m = [b]"
    by (auto simp: length_Suc_conv split: sum.splits prod.splits option.splits)
  have "in_int (full_charge_capacity zero_battery)" by code_simp
  from batt_division_by_zero [OF bst_answer_method [OF demo_bst] this, where al = "?ac" and kz = "\<lambda>n. True" and ch = 9 and m = fresh_module and m' = m]
  have "full_charge_capacity b = bif_full ?ac 9" using m by simp
  also have "\<dots> = 0" by (simp add: bif_full_def demo_acpi_def)
  finally have "full_charge_capacity b = 0" .
  with batt_division_by_zero [OF bst_answer_method [OF demo_bst], of b] m show ?thesis by simp
qed

section \<open>The reports of a run\<close>

text \<open>What a pass should print about a battery whose last reading was \<open>(st0, rem0)\<close> and whose reading now
  is \<open>(st, rem)\<close>.\<close>

fun pass_reports :: "acpi_battery \<Rightarrow> int \<times> int \<Rightarrow> int \<times> int \<Rightarrow> message list" where
  "pass_reports b (st0, rem0) (st, rem) =
     (if odd st \<and> st \<noteq> st0 then [BegunDischarging (bat_name b)] else [])
   @ (if odd (st div 2) \<and> st \<noteq> st0 then [BegunCharging (bat_name b)] else [])
   @ (if odd (st0 div 2) \<and> even (st div 2) \<and> full_charge_capacity b \<le> rem then [FullyCharged (bat_name b)] else [])
   @ (if rem \<le> design_capacity_warning b \<and> design_capacity_warning b < rem0 then [IsLow (bat_name b)] else [])
   @ (if rem \<le> design_capacity_low b then [IsCritical (bat_name b)] else [])"

fun run_reports :: "acpi_battery \<Rightarrow> int \<times> int \<Rightarrow> (int \<times> int) list \<Rightarrow> message list list" where
  "run_reports b prev [] = []"
| "run_reports b prev (r # rs) = pass_reports b prev r # run_reports b r rs"

definition reading :: "64 word list \<Rightarrow> int \<times> int" where
  "reading ws = (int_of_long (ws ! 0), int_of_long (ws ! 2))"

lemma flag_discharging: "x AND STATE_DISCHARGING \<noteq> 0 \<longleftrightarrow> odd x"
  by (simp add: STATE_DISCHARGING_def and_one_eq odd_iff_mod_2_eq_one)

lemma flag_charging: "x AND STATE_CHARGING \<noteq> 0 \<longleftrightarrow> odd (x div 2)"
proof -
  have "x AND 2 = (if bit x 1 then 2 else 0)"
    by (rule bit_eqI) (auto simp: bit_simps)
  then show ?thesis by (simp add: STATE_CHARGING_def bit_iff_odd)
qed

definition same_limits :: "acpi_battery \<Rightarrow> acpi_battery \<Rightarrow> bool" where
  "same_limits b b' \<longleftrightarrow> bat_handle b' = bat_handle b \<and> bat_name b' = bat_name b \<and>
     full_charge_capacity b' = full_charge_capacity b \<and>
     design_capacity_warning b' = design_capacity_warning b \<and> design_capacity_low b' = design_capacity_low b"

lemma pass_reports_limits: "same_limits b b' \<Longrightarrow> pass_reports b' p r = pass_reports b p r"
  by (cases p; cases r) (simp add: same_limits_def)

lemma run_reports_limits: "same_limits b b' \<Longrightarrow> run_reports b' p rs = run_reports b p rs"
  by (induction rs arbitrary: p) (simp_all add: pass_reports_limits)

lemma check_battery_reading:
  assumes "bst_answer ac (bat_handle b) ws" "wrap_int (full_charge_capacity b * 2) \<noteq> 0"
  shows "\<exists>b'. check_battery 0 ac b delay = Inr (b', if snd (reading ws) \<le> design_capacity_low b then 2 else delay,
       pass_reports b (last_state b, last_remaining_capacity b) (reading ws)) \<and>
     same_limits b b' \<and> (last_state b', last_remaining_capacity b') = reading ws"
proof -
  let ?b = "b\<lparr>state := int_of_long (ws ! 0), present_rate := int_of_long (ws ! 1),
      remaining_capacity := int_of_long (ws ! 2), present_voltage := int_of_long (ws ! 3)\<rparr>"
  obtain p where p: "percent_of (remaining_capacity ?b) (full_charge_capacity ?b) = Inr p"
    using percent_of_zero [of "remaining_capacity ?b" "full_charge_capacity ?b"] assms(2)
    by (cases "percent_of (remaining_capacity ?b) (full_charge_capacity ?b)") auto
  note reports = discharge_report_def charge_report_def full_report_def low_report_def is_critical_def verbose_report_def
  show ?thesis
    using p by (simp add: check_battery_def bst_answer_method [OF assms(1)] Let_def reports flag_discharging flag_charging
        reading_def same_limits_def)
qed

lemma run_matches:
  assumes "list_all2 (\<lambda>ac ws. bst_answer ac (bat_handle b) ws) acs wss" "wrap_int (full_charge_capacity b * 2) \<noteq> 0"
  shows "\<exists>b'. check_thread HZ 0 acs [b] = Inr ([b'],
     zip (map (\<lambda>r. c_div HZ (if snd r \<le> design_capacity_low b then 2 else 1)) (map reading wss))
         (run_reports b (last_state b, last_remaining_capacity b) (map reading wss)))"
  using assms
proof (induction acs arbitrary: b wss)
  case (Cons ac acs)
  then obtain ws wss' where w: "wss = ws # wss'" "bst_answer ac (bat_handle b) ws"
    "list_all2 (\<lambda>ac ws. bst_answer ac (bat_handle b) ws) acs wss'" by (auto simp: list_all2_Cons1)
  obtain b1 where b1: "check_battery 0 ac b 1 = Inr (b1, if snd (reading ws) \<le> design_capacity_low b then 2 else 1,
       pass_reports b (last_state b, last_remaining_capacity b) (reading ws))"
    "same_limits b b1" "(last_state b1, last_remaining_capacity b1) = reading ws"
    using check_battery_reading [OF w(2) Cons.prems(2)] by blast
  have lim: "bat_handle b1 = bat_handle b" "full_charge_capacity b1 = full_charge_capacity b"
    "design_capacity_low b1 = design_capacity_low b" using b1(2) by (simp_all add: same_limits_def)
  from Cons.IH [of b1 wss'] w(3) Cons.prems(2) lim b1(3) show ?case
    by (auto simp: w(1) b1(1) run_reports_limits [OF b1(2)])
qed simp

lemma run_reports_nth: "i < length rs \<Longrightarrow> run_reports b p rs ! i = pass_reports b ((p # rs) ! i) (rs ! i)"
  by (induction rs arbitrary: p i) (auto simp: nth_Cons split: nat.split)

lemma length_run_reports [simp]: "length (run_reports b p rs) = length rs"
  by (induction rs arbitrary: p) auto

lemma pass_reports_low:
  "IsLow n \<in> set (pass_reports b p r) \<longleftrightarrow>
    n = bat_name b \<and> snd r \<le> design_capacity_warning b \<and> design_capacity_warning b < snd p"
  by (cases p; cases r) auto

lemma pass_reports_critical:
  "IsCritical n \<in> set (pass_reports b p r) \<longleftrightarrow> n = bat_name b \<and> snd r \<le> design_capacity_low b"
  by (cases p; cases r) auto

lemma pass_reports_full:
  "FullyCharged n \<in> set (pass_reports b p r) \<longleftrightarrow>
    n = bat_name b \<and> odd (fst p div 2) \<and> even (fst r div 2) \<and> full_charge_capacity b \<le> snd r"
  by (cases p; cases r) auto

lemma pass_reports_begun:
  "BegunDischarging n \<in> set (pass_reports b p r) \<longleftrightarrow> n = bat_name b \<and> odd (fst r) \<and> fst r \<noteq> fst p"
  "BegunCharging n \<in> set (pass_reports b p r) \<longleftrightarrow> n = bat_name b \<and> odd (fst r div 2) \<and> fst r \<noteq> fst p"
  by (cases p; cases r; auto)+

lemma pass_reports_only:
  "set (pass_reports b p r) \<subseteq> {BegunDischarging (bat_name b), BegunCharging (bat_name b), FullyCharged (bat_name b),
     IsLow (bat_name b), IsCritical (bat_name b)} \<and> distinct (pass_reports b p r)"
  by (cases p; cases r) auto

text \<open>The state and the remaining capacity before pass \<open>j\<close>: the last reading, or what the structure held.\<close>

definition reading_before :: "acpi_battery \<Rightarrow> 64 word list list \<Rightarrow> nat \<Rightarrow> int \<times> int" where
  "reading_before b wss j = (case j of 0 \<Rightarrow> (last_state b, last_remaining_capacity b) | Suc i \<Rightarrow> reading (wss ! i))"

text \<open>If an event needs a condition now and its negation in the pass before, then between two events the negation was read.\<close>

lemma between:
  assumes "i < j" "\<not> P (reading (wss ! i))" "P (reading_before b wss j)"
  shows "\<exists>k. i < k \<and> k < j \<and> P (reading (wss ! k))"
proof -
  obtain k where k: "j = Suc k" using assms(1) by (cases j) auto
  then have "P (reading (wss ! k))" using assms(3) by (simp add: reading_before_def)
  moreover from this have "i \<noteq> k" using assms(2) by auto
  ultimately show ?thesis using assms(1) k by (intro exI [of _ k]) simp
qed

text \<open>C37: What the monitoring thread reports of one battery (\<open>verbose\<close> 0), when every \<open>_BST\<close> answers four integers and its full
  capacity is not one that divides by zero. Each pass prints each message at most once, and no others: critical in every pass that
  reads at most the low level, after which the thread sleeps half a second instead of a second; low exactly when the
  capacity falls from above the warning level to it or below; fully charged exactly when the charging flag goes off at the full
  capacity or above; begun to discharge or to charge exactly when the flag is set and the state differs in any bit from the one read before.
  So between two reports that the battery is low some pass read more than the warning level, and between two that it is fully charged
  some pass found it charging.\<close>

theorem batt_run_reports:
  assumes "list_all2 (\<lambda>ac ws. bst_answer ac (bat_handle b) ws) acs wss" "wrap_int (full_charge_capacity b * 2) \<noteq> 0"
  shows "\<exists>b' passes. check_thread HZ 0 acs [b] = Inr ([b'], passes) \<and> length passes = length acs \<and>
    (\<forall>j < length acs. let (state0, left0) = reading_before b wss j; (state1, left1) = reading (wss ! j); ms = snd (passes ! j) in
       fst (passes ! j) = c_div HZ (if left1 \<le> design_capacity_low b then 2 else 1) \<and> distinct ms \<and>
       set ms \<subseteq> {BegunDischarging (bat_name b), BegunCharging (bat_name b), FullyCharged (bat_name b),
         IsLow (bat_name b), IsCritical (bat_name b)} \<and>
       (IsCritical (bat_name b) \<in> set ms \<longleftrightarrow> left1 \<le> design_capacity_low b) \<and>
       (IsLow (bat_name b) \<in> set ms \<longleftrightarrow> left1 \<le> design_capacity_warning b \<and> design_capacity_warning b < left0) \<and>
       (FullyCharged (bat_name b) \<in> set ms \<longleftrightarrow> odd (state0 div 2) \<and> even (state1 div 2) \<and> full_charge_capacity b \<le> left1) \<and>
       (BegunDischarging (bat_name b) \<in> set ms \<longleftrightarrow> odd state1 \<and> state1 \<noteq> state0) \<and>
       (BegunCharging (bat_name b) \<in> set ms \<longleftrightarrow> odd (state1 div 2) \<and> state1 \<noteq> state0)) \<and>
    (\<forall>j < length acs. \<forall>i < j.
       (IsLow (bat_name b) \<in> set (snd (passes ! i)) \<and> IsLow (bat_name b) \<in> set (snd (passes ! j)) \<longrightarrow>
         (\<exists>k. i < k \<and> k < j \<and> design_capacity_warning b < snd (reading (wss ! k)))) \<and>
       (FullyCharged (bat_name b) \<in> set (snd (passes ! i)) \<and> FullyCharged (bat_name b) \<in> set (snd (passes ! j)) \<longrightarrow>
         (\<exists>k. i < k \<and> k < j \<and> odd (fst (reading (wss ! k)) div 2))))"
proof -
  let ?rs = "map reading wss" and ?p = "(last_state b, last_remaining_capacity b)"
  let ?ps = "zip (map (\<lambda>r. c_div HZ (if snd r \<le> design_capacity_low b then 2 else 1)) ?rs) (run_reports b ?p ?rs)"
  obtain b' where run: "check_thread HZ 0 acs [b] = Inr ([b'], ?ps)" using run_matches [OF assms] by blast
  have len: "length acs = length wss" using assms(1) by (rule list_all2_lengthD)
  obtain passes where ps: "passes = ?ps" by blast
  have at: "snd (passes ! j) = pass_reports b (reading_before b wss j) (reading (wss ! j))"
    "fst (passes ! j) = c_div HZ (if snd (reading (wss ! j)) \<le> design_capacity_low b then 2 else 1)" if "j < length acs" for j
    using that len by (auto simp: ps run_reports_nth reading_before_def nth_Cons split: nat.split)
  have low: "\<exists>k. i < k \<and> k < j \<and> design_capacity_warning b < snd (reading (wss ! k))"
    if "i < j" "j < length acs" "IsLow (bat_name b) \<in> set (snd (passes ! i))" "IsLow (bat_name b) \<in> set (snd (passes ! j))" for i j
  proof (rule between [where P = "\<lambda>r. design_capacity_warning b < snd r", OF that(1)])
    show "\<not> design_capacity_warning b < snd (reading (wss ! i))" using that(1-3) at(1) [of i] by (simp add: pass_reports_low)
    show "design_capacity_warning b < snd (reading_before b wss j)" using that(2,4) at(1) [of j] by (simp add: pass_reports_low)
  qed
  have full: "\<exists>k. i < k \<and> k < j \<and> odd (fst (reading (wss ! k)) div 2)"
    if "i < j" "j < length acs" "FullyCharged (bat_name b) \<in> set (snd (passes ! i))" "FullyCharged (bat_name b) \<in> set (snd (passes ! j))" for i j
  proof (rule between [where P = "\<lambda>r. odd (fst r div 2)", OF that(1)])
    show "\<not> odd (fst (reading (wss ! i)) div 2)" using that(1-3) at(1) [of i] by (simp add: pass_reports_full)
    show "odd (fst (reading_before b wss j) div 2)" using that(2,4) at(1) [of j] by (simp add: pass_reports_full)
  qed
  have "length passes = length acs" by (simp add: len ps)
  moreover have "let (state0, left0) = reading_before b wss j; (state1, left1) = reading (wss ! j); ms = snd (passes ! j) in
       fst (passes ! j) = c_div HZ (if left1 \<le> design_capacity_low b then 2 else 1) \<and> distinct ms \<and>
       set ms \<subseteq> {BegunDischarging (bat_name b), BegunCharging (bat_name b), FullyCharged (bat_name b),
         IsLow (bat_name b), IsCritical (bat_name b)} \<and>
       (IsCritical (bat_name b) \<in> set ms \<longleftrightarrow> left1 \<le> design_capacity_low b) \<and>
       (IsLow (bat_name b) \<in> set ms \<longleftrightarrow> left1 \<le> design_capacity_warning b \<and> design_capacity_warning b < left0) \<and>
       (FullyCharged (bat_name b) \<in> set ms \<longleftrightarrow> odd (state0 div 2) \<and> even (state1 div 2) \<and> full_charge_capacity b \<le> left1) \<and>
       (BegunDischarging (bat_name b) \<in> set ms \<longleftrightarrow> odd state1 \<and> state1 \<noteq> state0) \<and>
       (BegunCharging (bat_name b) \<in> set ms \<longleftrightarrow> odd (state1 div 2) \<and> state1 \<noteq> state0)" if "j < length acs" for j
    unfolding at(1) [OF that] at(2) [OF that] Let_def case_prod_beta
    using pass_reports_only [of b "reading_before b wss j" "reading (wss ! j)"]
    by (simp only: pass_reports_low pass_reports_critical pass_reports_full pass_reports_begun simp_thms)
  ultimately show ?thesis using run [folded ps] low full by blast
qed

text \<open>Five passes: low is reported in the second and, after a recovery, in the fifth; the fourth pass finds the battery
  charging, the fifth critical.\<close>

theorem batt_run_reports_witness:
  "case check_thread 100 0 (map demo_acpi [[1, 0, 600, 0], [1, 0, 500, 0], [5, 0, 450, 0], [2, 0, 501, 0], [1, 0, 100, 0]])
      [demo_battery] of Inl f \<Rightarrow> False | Inr (bs, passes) \<Rightarrow>
     IsLow (Some ''BAT0'') \<in> set (snd (passes ! 1)) \<and> IsLow (Some ''BAT0'') \<in> set (snd (passes ! 4)) \<and>
     IsLow (Some ''BAT0'') \<notin> set (snd (passes ! 2)) \<and> BegunDischarging (Some ''BAT0'') \<in> set (snd (passes ! 2)) \<and>
     BegunCharging (Some ''BAT0'') \<in> set (snd (passes ! 3)) \<and> IsCritical (Some ''BAT0'') \<in> set (snd (passes ! 4)) \<and>
     fst (passes ! 3) = 100 \<and> fst (passes ! 4) = 50 \<and> (\<exists>k. 1 < k \<and> k < 4 \<and> 500 < snd (reading
       ([[1, 0, 600, 0], [1, 0, 500, 0], [5, 0, 450, 0], [2, 0, 501, 0], [1, 0, 100, 0]] ! k)))"
proof -
  define wss :: "64 word list list" where "wss = [[1, 0, 600, 0], [1, 0, 500, 0], [5, 0, 450, 0], [2, 0, 501, 0], [1, 0, 100, 0]]"
  have full: "wrap_int (full_charge_capacity demo_battery * 2) \<noteq> 0" by code_simp
  have ans: "list_all2 (\<lambda>ac ws. bst_answer ac (bat_handle demo_battery) ws) (map demo_acpi wss) wss"
    by (simp add: demo_bst wss_def)
  have len: "length (map demo_acpi wss) = 5" by (simp add: wss_def)
  have limits: "bat_name demo_battery = Some ''BAT0''" "design_capacity_warning demo_battery = 500" "design_capacity_low demo_battery = 100"
    by (simp_all add: demo_battery_def)
  have r: "reading_before demo_battery wss 1 = (1, 600)" "reading_before demo_battery wss 2 = (1, 500)"
    "reading_before demo_battery wss 3 = (5, 450)" "reading_before demo_battery wss 4 = (2, 501)"
    "reading (wss ! 1) = (1, 500)" "reading (wss ! 2) = (5, 450)" "reading (wss ! 3) = (2, 501)" "reading (wss ! 4) = (1, 100)"
    unfolding wss_def by code_simp+
  have c: "c_div 100 1 = 100" "c_div 100 2 = 50" by code_simp+
  obtain b' passes where p: "check_thread 100 0 (map demo_acpi wss) [demo_battery] = Inr ([b'], passes)"
    and at: "\<forall>j < 5. let (state0, left0) = reading_before demo_battery wss j; (state1, left1) = reading (wss ! j); ms = snd (passes ! j) in
       fst (passes ! j) = c_div 100 (if left1 \<le> 100 then 2 else 1) \<and> distinct ms \<and>
       set ms \<subseteq> {BegunDischarging (Some ''BAT0''), BegunCharging (Some ''BAT0''), FullyCharged (Some ''BAT0''),
         IsLow (Some ''BAT0''), IsCritical (Some ''BAT0'')} \<and>
       (IsCritical (Some ''BAT0'') \<in> set ms \<longleftrightarrow> left1 \<le> 100) \<and>
       (IsLow (Some ''BAT0'') \<in> set ms \<longleftrightarrow> left1 \<le> 500 \<and> 500 < left0) \<and>
       (FullyCharged (Some ''BAT0'') \<in> set ms \<longleftrightarrow> odd (state0 div 2) \<and> even (state1 div 2) \<and> full_charge_capacity demo_battery \<le> left1) \<and>
       (BegunDischarging (Some ''BAT0'') \<in> set ms \<longleftrightarrow> odd state1 \<and> state1 \<noteq> state0) \<and>
       (BegunCharging (Some ''BAT0'') \<in> set ms \<longleftrightarrow> odd (state1 div 2) \<and> state1 \<noteq> state0)"
    and lows: "\<forall>j < 5. \<forall>i < j. (IsLow (Some ''BAT0'') \<in> set (snd (passes ! i)) \<and> IsLow (Some ''BAT0'') \<in> set (snd (passes ! j)) \<longrightarrow>
         (\<exists>k. i < k \<and> k < j \<and> 500 < snd (reading (wss ! k)))) \<and>
       (FullyCharged (Some ''BAT0'') \<in> set (snd (passes ! i)) \<and> FullyCharged (Some ''BAT0'') \<in> set (snd (passes ! j)) \<longrightarrow>
         (\<exists>k. i < k \<and> k < j \<and> odd (fst (reading (wss ! k)) div 2)))"
    using batt_run_reports [OF ans full, of 100, unfolded limits len] by (elim exE conjE)
  note pass = at [rule_format, of 1] at [rule_format, of 2] at [rule_format, of 3] at [rule_format, of 4]
  have s: "IsLow (Some ''BAT0'') \<in> set (snd (passes ! 1))" "IsLow (Some ''BAT0'') \<in> set (snd (passes ! 4))"
    "IsLow (Some ''BAT0'') \<notin> set (snd (passes ! 2))" "BegunDischarging (Some ''BAT0'') \<in> set (snd (passes ! 2))"
    "BegunCharging (Some ''BAT0'') \<in> set (snd (passes ! 3))" "IsCritical (Some ''BAT0'') \<in> set (snd (passes ! 4))"
    "fst (passes ! 3) = 100" "fst (passes ! 4) = 50"
    using pass unfolding r Let_def prod.case by (simp_all add: c)
  have "\<exists>k. 1 < k \<and> k < 4 \<and> 500 < snd (reading (wss ! k))"
    using lows [rule_format, of 4 1] s(1,2) by simp
  with s p show ?thesis unfolding wss_def by simp
qed

end
