(* ===== verification/Battcheck_Module.thy ===== *)
theory Battcheck_Module
  imports Battcheck_Props
begin

text \<open>
  The battery monitor as a module: the line in \<open>/proc\<close>, the walk that finds the batteries, and the invariant of
  its life from load to unload with the memory it holds.
\<close>

section \<open>The proc entry\<close>

definition proc_item :: "acpi_battery \<Rightarrow> string" where
  "proc_item b = fmt_s (bat_name b) @ '': '' @ fmt_d (percent b) @ ''% | ''"

definition proc_line :: "acpi_battery list \<Rightarrow> string" where
  "proc_line bs = '' | '' @ concat (map proc_item bs) @ [CHR 0x0A]"

lemma proc_loop_eq:
  "length buf < cap \<Longrightarrow> proc_loop cap bs buf =
    (if length (buf @ concat (map proc_item bs)) < cap then Inr (buf @ concat (map proc_item bs)) else Inl Overrun)"
  by (induction bs arbitrary: buf) (auto simp: buf_print_def proc_item_def)

text \<open>A read of \<open>/proc/battcheck\<close> at offset 0 writes the line of all batteries and returns its length when the line
  and its terminator fit in the page, and writes behind the page otherwise; a read at another offset
  returns 0.\<close>

theorem batt_proc_line:
  assumes "0 < cap"
  shows "read_proc cap bs buf 0 = (if length (proc_line bs) < cap
       then Inr (int (length (proc_line bs)), proc_line bs) else Inl Overrun) \<and>
     (offset \<noteq> 0 \<longrightarrow> read_proc cap bs buf offset = Inr (0, buf))"
proof -
  have "read_proc cap bs buf 0 = (if length (proc_line bs) < cap
       then Inr (int (length (proc_line bs)), proc_line bs) else Inl Overrun)"
    using proc_loop_eq [of "'' | ''" cap bs] by (auto simp: read_proc_def buf_print_def proc_line_def)
  then show ?thesis by (simp add: read_proc_def)
qed

theorem batt_proc_line_witness:
  "read_proc 4096 [demo_battery\<lparr>percent := 95\<rparr>] ''x'' 0 = Inr (16, '' | BAT0: 95% | '' @ [CHR 0x0A])"
proof -
  have line: "proc_line [demo_battery\<lparr>percent := 95\<rparr>] = '' | BAT0: 95% | '' @ [CHR 0x0A]" by code_simp
  have "length ('' | BAT0: 95% | '' @ [CHR 0x0A]) = 16" by simp
  with batt_proc_line [of 4096 "[demo_battery\<lparr>percent := 95\<rparr>]" "''x''" 1] show ?thesis unfolding line by simp
qed

section \<open>Finding the batteries\<close>

text \<open>ACPI enumerates the children \<open>hs\<close> after \<open>ch\<close>, and then answers \<open>nxt\<close>.\<close>

fun enumerates :: "acpi \<Rightarrow> acpi_handle \<Rightarrow> acpi_handle option \<Rightarrow> acpi_handle list \<Rightarrow> acpi_handle option \<Rightarrow> bool" where
  "enumerates ac ph ch [] nxt = (get_next_object ac ph ch = nxt)"
| "enumerates ac ph ch (h # hs) nxt = (get_next_object ac ph ch = Some h \<and> enumerates ac ph (Some h) hs nxt)"

definition new_battery :: "acpi \<Rightarrow> acpi_handle \<Rightarrow> fault + (int \<times> acpi_battery \<times> message list)" where
  "new_battery ac h = get_battery_control_method ac (zero_battery\<lparr>bat_handle := h, bat_name := get_name ac h\<rparr>)
     ''_BIF'' bif_offsets"

definition child_ok :: "acpi \<Rightarrow> acpi_handle \<Rightarrow> bool" where
  "child_ok ac h \<longleftrightarrow> (case bus_get_device ac h of None \<Rightarrow> False | Some d \<Rightarrow> bus_get_status ac d \<noteq> None) \<and>
     (case new_battery ac h of Inl f \<Rightarrow> False | Inr r \<Rightarrow> True)"

definition found :: "acpi \<Rightarrow> acpi_handle \<Rightarrow> acpi_battery list" where
  "found ac h = (case bus_get_device ac h of None \<Rightarrow> [] | Some d \<Rightarrow>
     if bus_get_status ac d = Some True then (case new_battery ac h of Inl f \<Rightarrow> [] | Inr (r, b, errs) \<Rightarrow> [b]) else [])"

definition named :: "acpi_battery list \<Rightarrow> acpi_battery list" where
  "named bs = filter (\<lambda>b. bat_name b \<noteq> None) bs"

text \<open>The module after the walk has passed the children \<open>hs\<close>.\<close>

definition after_walk :: "acpi \<Rightarrow> acpi_handle list \<Rightarrow> battcheck \<Rightarrow> battcheck \<Rightarrow> bool" where
  "after_walk ac hs m m' \<longleftrightarrow> (let bs = concat (map (found ac) hs) in
     batteries m' = batteries m @ bs \<and> structs m' = structs m + length bs \<and> names m' = names m + length (named bs) \<and>
     kz_calls m' = kz_calls m + length bs \<and> proc_entry m' = proc_entry m \<and> task m' = task m)"

lemma set_int_name: "bat_name (store_str f bs b) = bat_name b"
  by (cases f) (simp_all add: store_str_def)

lemma extract_loop_name: "extract_loop offs es b = Inr (r, b') \<Longrightarrow> bat_name b' = bat_name b"
proof (induction offs es b rule: extract_loop.induct)
  case (3 off offs e es b)
  then obtain b1 where b1: "extract_element off e b = Inr b1" "extract_loop offs es b1 = Inr (r, b')"
    by (auto simp: bindE_Inr_iff)
  have "bat_name b1 = bat_name b"
    using b1(1) by (auto simp: extract_element_def set_int_name split: acpi_offset.splits acpi_object.splits option.splits)
  with "3.IH" [OF b1] show ?case by simp
qed auto

lemma control_method_name:
  "get_battery_control_method ac b method offs = Inr (r, b', errs) \<Longrightarrow> bat_name b' = bat_name b"
  by (auto simp: get_battery_control_method_def extract_package_def bindE_Inr_iff
      dest: extract_loop_name split: option.splits acpi_object.splits)

lemma add_battery_found:
  assumes "new_battery ac h = Inr (r, b, errs)" "kz (kz_calls m)"
  shows "\<exists>m'. add_battery ac kz h m = Inr (None, m') \<and> batteries m' = batteries m @ [b] \<and> structs m' = structs m + 1 \<and>
    names m' = names m + length (named [b]) \<and> kz_calls m' = kz_calls m + 1 \<and>
    proc_entry m' = proc_entry m \<and> task m' = task m"
proof -
  have "bat_name b = get_name ac h" using control_method_name [OF assms(1) [unfolded new_battery_def]] by simp
  then show ?thesis using assms
    by (simp add: add_battery_def bat_kzalloc_def new_battery_def print_msgs_def named_def Let_def)
qed

lemma find_loop_walk:
  assumes "enumerates ac ph ch hs nxt" "\<And>h. h \<in> set hs \<Longrightarrow> child_ok ac h" "\<And>n. kz n"
  shows "\<exists>m' dev'. find_loop ac kz ph ch dev m = find_loop ac kz ph (if hs = [] then ch else Some (last hs)) dev' m' \<and>
    after_walk ac hs m m'"
  using assms(1,2)
proof (induction hs arbitrary: ch dev m)
  case Nil
  have "after_walk ac [] m m" by (simp add: after_walk_def named_def)
  then show ?case by auto
next
  case (Cons h hs)
  obtain d s where d: "bus_get_device ac h = Some d" "bus_get_status ac d = Some s" and
    nb: "\<exists>r b errs. new_battery ac h = Inr (r, b, errs)"
    using Cons.prems(2) [of h] by (auto simp: child_ok_def split: option.splits sum.splits)
  obtain m1 where m1: "find_loop ac kz ph ch dev m = find_loop ac kz ph (Some h) (Some d) m1" "after_walk ac [h] m m1"
  proof (cases s)
    case True
    obtain r b errs where b: "new_battery ac h = Inr (r, b, errs)" using nb by blast
    obtain m1 where m1: "add_battery ac kz h m = Inr (None, m1)" "batteries m1 = batteries m @ [b]" "structs m1 = structs m + 1"
      "names m1 = names m + length (named [b])" "kz_calls m1 = kz_calls m + 1" "proc_entry m1 = proc_entry m" "task m1 = task m"
      using add_battery_found [of ac h r b errs kz m, OF b assms(3)] by blast
    have "after_walk ac [h] m m1" using m1 d True b by (simp add: after_walk_def found_def)
    then show ?thesis using m1(1) d True Cons.prems(1) by (intro that) (subst find_loop.simps, simp)
  next
    case False
    have "after_walk ac [h] m m" using d False by (simp add: after_walk_def found_def named_def)
    then show ?thesis using d False Cons.prems(1) by (intro that) (subst find_loop.simps, simp)
  qed
  obtain m2 dev2 where m2: "find_loop ac kz ph (Some h) (Some d) m1 =
      find_loop ac kz ph (if hs = [] then Some h else Some (last hs)) dev2 m2" "after_walk ac hs m1 m2"
    using Cons.IH [of "Some h" "Some d" m1] Cons.prems by auto
  have "after_walk ac (h # hs) m m2" using m1(2) m2(2) by (simp add: after_walk_def named_def Let_def)
  with m1(1) m2(1) show ?case by auto
qed

definition system_bus :: string where
  "system_bus = [CHR 0x5C, CHR ''_'', CHR ''S'', CHR ''B'', CHR ''_'']"

text \<open>When ACPI enumerates finitely many children and memory lasts, the walk ends. If every child answers, the
  module is loaded and its list has exactly the batteries that are present, in the order of the bus.
  If one child's status cannot be read, the load fails with \<open>-ENODEV\<close>, and the batteries found before it
  stay allocated although the module is not loaded.\<close>

theorem batt_load:
  assumes "get_handle ac None system_bus = Some ph" "enumerates ac ph None hs nxt" "\<And>h. h \<in> set hs \<Longrightarrow> child_ok ac h"
    and "\<And>n. kz n" and "case nxt of None \<Rightarrow> True | Some h \<Rightarrow>
      (case bus_get_device ac h of None \<Rightarrow> False | Some d \<Rightarrow> bus_get_status ac d = None)"
  shows "\<exists>m'. init_battcheck ac kz created ts fresh_module = Some (Inr (if nxt = None then 0 else - ENODEV, m')) \<and>
     batteries m' = concat (map (found ac) hs) \<and> structs m' = length (batteries m') \<and>
     (if nxt = None then proc_entry m' = created \<and> task m' = ts else \<not> proc_entry m' \<and> task m' = None)"
proof -
  obtain m1 dev where m1: "find_loop ac kz ph None None fresh_module =
      find_loop ac kz ph (if hs = [] then None else Some (last hs)) dev m1" "after_walk ac hs fresh_module m1"
    using find_loop_walk [where kz = kz and dev = None and m = fresh_module, OF assms(2,3)] assms(4) by blast
  have next_at: "get_next_object ac ph (if hs = [] then ch else Some (last hs)) = nxt" if "enumerates ac ph ch hs nxt" for ch
    using that by (induction hs arbitrary: ch) auto
  have stop: "find_loop ac kz ph (if hs = [] then None else Some (last hs)) dev m1 =
      Some (Inr (if nxt = None then (0, m1) else (- ENODEV, print_msgs [ErrStatus] m1)))"
    by (subst find_loop.simps) (use next_at [OF assms(2)] assms(5) in \<open>auto split: option.splits\<close>)
  have w: "batteries m1 = concat (map (found ac) hs)" "structs m1 = length (batteries m1)" "\<not> proc_entry m1" "task m1 = None"
    using m1(2) by (simp_all add: after_walk_def fresh_module_def Let_def)
  have "find_batteries ac kz (fresh_module\<lparr>batteries := []\<rparr>) =
      Some (Inr (if nxt = None then (0, m1) else (- ENODEV, print_msgs [ErrStatus] m1)))"
    using m1(1) stop assms(1) by (simp add: find_batteries_def system_bus_def fresh_module_def)
  then show ?thesis using w by (simp add: init_battcheck_def print_msgs_def ENODEV_def)
qed

lemma demo_walk:
  "enumerates (demo_acpi ws) 1 None [8, 9] None" "get_handle (demo_acpi ws) None system_bus = Some 1"
  "h \<in> set [8, 9] \<Longrightarrow> child_ok (demo_acpi ws) h"
  by (auto simp: demo_acpi_def system_bus_def child_ok_def new_battery_def get_battery_control_method_def)

theorem batt_load_witness:
  "\<exists>m'. init_battcheck (demo_acpi []) (\<lambda>n. True) True (Some 7) fresh_module = Some (Inr (0, m')) \<and>
     map bat_handle (batteries m') = [9] \<and> task m' = Some 7"
proof -
  have found: "concat (map (found (demo_acpi [])) [8, 9]) = [zero_battery\<lparr>bat_handle := 9, bat_name := Some ''BAT0''\<rparr>]"
    by code_simp
  have "\<exists>m'. init_battcheck (demo_acpi []) (\<lambda>n. True) True (Some 7) fresh_module =
       Some (Inr (if None = (None :: nat option) then 0 else - ENODEV, m')) \<and>
     batteries m' = concat (map (found (demo_acpi [])) [8, 9]) \<and> structs m' = length (batteries m') \<and>
     (if None = (None :: nat option) then proc_entry m' = True \<and> task m' = Some 7 else \<not> proc_entry m' \<and> task m' = None)"
    by (rule batt_load [OF demo_walk(2) demo_walk(1) demo_walk(3)]) simp_all
  then show ?thesis unfolding found by auto
qed

section \<open>The life of the module\<close>

inductive bat_reach :: "(nat \<Rightarrow> bool) \<Rightarrow> battcheck \<Rightarrow> bool" for kz where
  load: "init_battcheck ac kz created ts fresh_module = Some (Inr (0, m)) \<Longrightarrow> bat_reach kz m"
| run: "bat_reach kz m \<Longrightarrow> run_thread kz HZ verbose acs m = Inr (passes, m') \<Longrightarrow> bat_reach kz m'"
| read: "bat_reach kz m \<Longrightarrow> proc_read kz cap buf offset m = Inr (len, out, m') \<Longrightarrow> bat_reach kz m'"

text \<open>Every structure the module ever got is still there, the ones in the list among them.\<close>

definition bat_inv :: "(nat \<Rightarrow> bool) \<Rightarrow> battcheck \<Rightarrow> bool" where
  "bat_inv kz m \<longleftrightarrow> (\<forall>b \<in> set (batteries m). battery_ok b) \<and> structs m = length (filter kz [0..<kz_calls m]) \<and>
     length (batteries m) \<le> structs m \<and> names m = length (named (batteries m))"

lemma named_names: "map bat_name bs = map bat_name bs' \<Longrightarrow> length (named bs) = length (named bs')"
proof -
  have "length (named xs) = length (filter (\<lambda>n. n \<noteq> None) (map bat_name xs))" for xs
    by (simp add: named_def filter_map o_def)
  then show "map bat_name bs = map bat_name bs' \<Longrightarrow> length (named bs) = length (named bs')" by metis
qed

lemma bat_inv_print [simp]: "bat_inv kz (print_msgs ms m) = bat_inv kz m"
  by (simp add: bat_inv_def print_msgs_def)

lemma bat_inv_kzalloc: "bat_inv kz m \<Longrightarrow> bat_inv kz (snd (bat_kzalloc kz m))"
  by (simp add: bat_inv_def bat_kzalloc_def)

lemma add_battery_inv:
  assumes "add_battery ac kz ch m = Inr (e, m')" "bat_inv kz m"
  shows "bat_inv kz m'"
proof (cases "kz (kz_calls m)")
  case False
  then show ?thesis using assms by (auto simp: add_battery_def bat_kzalloc_def bat_inv_def)
next
  case True
  let ?z = "zero_battery\<lparr>bat_handle := ch, bat_name := get_name ac ch\<rparr>"
  obtain r b errs where g: "get_battery_control_method ac ?z ''_BIF'' bif_offsets = Inr (r, b, errs)"
    and m': "batteries m' = batteries m @ [b]" "structs m' = structs m + 1" "kz_calls m' = kz_calls m + 1"
      "names m' = names m + (if get_name ac ch = None then 0 else 1)"
    using assms(1) True by (auto simp: add_battery_def bat_kzalloc_def Let_def bindE_Inr_iff print_msgs_def)
  have "battery_ok b" "bat_name b = get_name ac ch"
    using control_method_ok [OF g zero_battery_ok] control_method_name [OF g] by simp_all
  with m' assms(2) True show ?thesis by (simp add: bat_inv_def named_def)
qed

lemma find_loop_inv:
  assumes "find_loop ac kz ph ch dev m = Some r"
  shows "\<forall>st m'. r = Inr (st, m') \<longrightarrow> bat_inv kz m \<longrightarrow> bat_inv kz m'"
proof (rule find_loop.raw_induct [OF _ assms,
    where P = "\<lambda>ac kz ph ch dev m r. \<forall>st m'. r = Inr (st, m') \<longrightarrow> bat_inv kz m \<longrightarrow> bat_inv kz m'"])
  fix f ac kz ph ch dev m r
  assume IH: "\<And>ac kz ph ch dev m r. f ac kz ph ch dev m = Some r \<Longrightarrow>
      \<forall>st m'. r = Inr (st, m') \<longrightarrow> bat_inv kz m \<longrightarrow> bat_inv kz m'"
    and run: "(case get_next_object ac ph ch of
        None \<Rightarrow> Some (Inr (0, m))
      | Some ch \<Rightarrow>
        (case (case bus_get_device ac ch of None \<Rightarrow> dev | Some d \<Rightarrow> Some d) of
           None \<Rightarrow> Some (Inl BadDeref)
         | Some d \<Rightarrow>
           (case bus_get_status ac d of
              None \<Rightarrow> Some (Inr (- ENODEV, print_msgs [ErrStatus] m))
            | Some present \<Rightarrow>
              if present then
                (case add_battery ac kz ch m of
                   Inl f \<Rightarrow> Some (Inl f)
                 | Inr r \<Rightarrow>
                   (case fst r of
                      Some e \<Rightarrow> Some (Inr (e, snd r))
                    | None \<Rightarrow> f ac kz ph (Some ch) (Some d) (snd r)))
              else f ac kz ph (Some ch) (Some d) m))) = Some r"
  show "\<forall>st m'. r = Inr (st, m') \<longrightarrow> bat_inv kz m \<longrightarrow> bat_inv kz m'"
    using run by (auto split: option.splits sum.splits if_splits dest: add_battery_inv dest!: IH)
qed

lemma bat_reach_inv: "bat_reach kz m \<Longrightarrow> bat_inv kz m"
proof (induction rule: bat_reach.induct)
  case (load ac created ts m)
  obtain st m1 where f: "find_batteries ac kz (fresh_module\<lparr>batteries := []\<rparr>) = Some (Inr (st, m1))"
    "bat_inv kz m1 \<Longrightarrow> bat_inv kz m"
    using load by (auto simp: init_battcheck_def bindE_Inr_iff bat_inv_def print_msgs_def split: if_splits)
  have "bat_inv kz (fresh_module\<lparr>batteries := []\<rparr>)" by (simp add: bat_inv_def fresh_module_def named_def)
  with f(1) have "bat_inv kz m1"
    using find_loop_inv [of ac kz] by (auto simp: find_batteries_def split: option.splits)
  then show ?case by (rule f(2))
next
  case (run m HZ verbose acs passes m')
  obtain bs where b: "check_thread HZ verbose acs (batteries (snd (bat_kzalloc kz m))) = Inr (bs, passes)"
    "m' = print_msgs (concat (map snd passes)) (snd (bat_kzalloc kz m)\<lparr>batteries := bs\<rparr>)"
    using run.hyps by (auto simp: run_thread_def Let_def bindE_Inr_iff)
  have inv: "bat_inv kz (snd (bat_kzalloc kz m))" by (rule bat_inv_kzalloc [OF run.IH])
  then have ok: "\<forall>b \<in> set (batteries (snd (bat_kzalloc kz m))). battery_ok b" by (simp add: bat_inv_def)
  have same: "length bs = length (batteries (snd (bat_kzalloc kz m)))"
    "length (named bs) = length (named (batteries (snd (bat_kzalloc kz m))))"
    using check_thread_ok [OF b(1) ok] named_names by (metis length_map, metis)
  from inv check_thread_ok [OF b(1) ok] same show ?case unfolding b(2) bat_inv_print by (simp add: bat_inv_def)
next
  case (read m cap buf offset len out m')
  then show ?case by (auto simp: proc_read_def Let_def bindE_Inr_iff bat_inv_kzalloc split: if_splits)
qed

text \<open>C40: The fields of every battery keep their C types: in every state the module reaches, under any answers of ACPI
  and of the allocator, all numbers are values of an \<open>int\<close> and all strings have 32 bytes.\<close>

theorem batt_types:
  assumes "bat_reach kz m" "b \<in> set (batteries m)"
  shows "battery_ok b"
  using bat_reach_inv [OF assms(1)] assms(2) by (simp add: bat_inv_def)

lemma demo_reach: "\<exists>m b. bat_reach (\<lambda>n. True) m \<and> task m = Some 7 \<and> batteries m = [b] \<and> bat_name b = Some ''BAT0''"
proof -
  have "case init_battcheck (demo_acpi []) (\<lambda>n. True) True (Some 7) fresh_module of None \<Rightarrow> False | Some r \<Rightarrow>
      (case r of Inl f \<Rightarrow> False | Inr (st, m) \<Rightarrow> st = 0 \<and> task m = Some 7 \<and> map bat_name (batteries m) = [Some ''BAT0''])"
    by code_simp
  then show ?thesis by (fastforce split: option.splits sum.splits intro: bat_reach.load)
qed

theorem batt_types_witness:
  "\<exists>m b. bat_reach (\<lambda>n. True) m \<and> b \<in> set (batteries m) \<and> battery_ok b"
proof -
  obtain m b where m: "bat_reach (\<lambda>n. True) m" "batteries m = [b]" using demo_reach by blast
  then have "b \<in> set (batteries m)" by simp
  with batt_types [OF m(1) this] m(1) show ?thesis by blast
qed

lemma free_loop_all:
  "length bs \<le> structs m \<Longrightarrow> bs = batteries m \<Longrightarrow> \<exists>m'. free_loop bs m = Inr m' \<and> batteries m' = [] \<and>
    structs m' = structs m - length bs \<and> names m' = names m \<and> proc_entry m' = proc_entry m \<and> task m' = task m \<and>
    printed m' = printed m @ map (\<lambda>b. Freeing (bat_name b)) bs"
proof (induction bs arbitrary: m)
  case (Cons b bs)
  let ?m = "print_msgs [Freeing (bat_name b)] (m\<lparr>batteries := bs, structs := structs m - 1\<rparr>)"
  have "length bs \<le> structs ?m" "bs = batteries ?m" using Cons.prems(1) by (simp_all add: print_msgs_def)
  note ih = Cons.IH [OF this]
  have "free_loop (b # bs) m = free_loop bs ?m" using Cons.prems(1) by simp
  moreover have "structs ?m - length bs = structs m - length (b # bs)" by (simp add: print_msgs_def)
  ultimately show ?case using ih by (simp add: print_msgs_def)
qed auto

text \<open>Unloading frees every battery of the list once and nothing else, provided the thread was started. What
  stays allocated is one structure for each successful \<open>kzalloc\<close> of the thread and of every read of the
  \<open>/proc\<close> entry, and the name of every battery. When the thread was not started, unloading uses
  an error pointer.\<close>

theorem batt_unload:
  assumes "bat_reach kz m"
  shows "case task m of None \<Rightarrow> exit_battcheck m = Inl BadDeref
    | Some ts \<Rightarrow> \<exists>m'. exit_battcheck m = Inr m' \<and> batteries m' = [] \<and> \<not> proc_entry m' \<and> task m' = None \<and>
        structs m' + length (batteries m) = length (filter kz [0..<kz_calls m]) \<and>
        names m' = length (named (batteries m)) \<and>
        printed m' = printed m @ map (\<lambda>b. Freeing (bat_name b)) (batteries m) @ [Unloaded]"
proof (cases "task m")
  case (Some ts)
  have inv: "bat_inv kz m" by (rule bat_reach_inv [OF assms])
  let ?m = "m\<lparr>task := None, proc_entry := False\<rparr>"
  have "length (batteries m) \<le> structs ?m" "batteries m = batteries ?m" using inv by (simp_all add: bat_inv_def)
  from free_loop_all [OF this] inv Some show ?thesis
    by (auto simp: exit_battcheck_def print_msgs_def bat_inv_def)
qed (simp add: exit_battcheck_def)

theorem batt_unload_witness:
  "\<exists>m m'. bat_reach (\<lambda>n. True) m \<and> exit_battcheck m = Inr m' \<and> batteries m' = [] \<and> names m' = 1"
proof -
  obtain m b where m: "bat_reach (\<lambda>n. True) m" "task m = Some 7" "batteries m = [b]" "bat_name b = Some ''BAT0''"
    using demo_reach by blast
  have "length (named (batteries m)) = 1" using m(3,4) by (simp add: named_def)
  with batt_unload [OF m(1)] m(1,2) show ?thesis by auto
qed

end
