(* ===== verification/Spec2Isabelle.thy ===== *)
theory Spec2Isabelle
  imports Prelude Buddy_Tree Buddy Buddy_Refine Buddy_Pages Buddy_Props Buddy_Test Vmm Vmm_Props Loopback Loopback_Props Loopback_Traffic Bbfs Bbfs_Props
    Bbfs_Log Token_Queue Streams Streams_Props Streams_Sharing Streams_Links Streams_Many Streams_Threads Streams_Main
    Streams_Moves Streams_Signals Streams_Wakeups Streams_Total Streams_Deadlock Streams_Endings Streams_Joins Streams_Lost
    Streams_Tests Streams_Wiring Streams_Sessions Streams_Reconnect Streams_Strands Streams_Tests_Props Gui Gui_Props Gui_Window Log Log_Props Battcheck Battcheck_Props Battcheck_Module
begin

text \<open>
  A verification development for the five programs of this repository (\<open>src/\<close>).

  \<^bold>\<open>The programs.\<close>

  \<^item> \<open>hw5_vmm\<close>: a buddy allocator (\<open>buddy.c\<close>, \<open>buddy.h\<close>) with its test program (\<open>buddy_test.c\<close>), a character device
    that gives user space pages of the allocator's pool through \<open>ioctl\<close> (\<open>vmm.c\<close>, \<open>vmm.h\<close>), and a
    program that uses the device (\<open>vmm_test.c\<close>). The device calls the allocator.
  \<^item> \<open>hw4_loopback\<close>: a network driver of two devices; each hands what it transmits to the other one (\<open>loopback.c\<close>).
  \<^item> \<open>hw7_fuse\<close>: a FUSE file system that forwards every operation to a directory and encrypts what is written
    (\<open>bbfs.c\<close>, \<open>params.h\<close>), with a log (\<open>log.c\<close>, \<open>log.h\<close>).
  \<^item> \<open>hw3_pthreads\<close>: streams of tokens between threads (\<open>streams.c\<close>, \<open>streams.h\<close>) a program of five threads that
    merges the multiples of 5 and 7 (\<open>main.c\<close>), seven test programs (\<open>tests\<close>), and a window whose buttons take
    tokens (\<open>gui/gui.c\<close>).
  \<^item> \<open>hw2_battcheck\<close>: a kernel module that watches the batteries (\<open>battcheck.c\<close>).

  \<^bold>\<open>Conventions\<close> (theory Prelude). A C \<open>int\<close> is an \<open>int\<close> with its range stated where it matters, a conversion that
  truncates is written out, \<open>/\<close> and \<open>%\<close> are \<open>c_div\<close> and \<open>c_rem\<close>, bytes are 8-bit words. A function that may do
  what C leaves undefined returns \<open>fault + 'a\<close>: \<open>Inl\<close> names the fault, \<open>bindE\<close> sequences. State is a record that is
  passed and returned. Code outside the repository (allocation, ACPI, system calls, network core, the FUSE
  library) is a parameter; what is relied on is a named hypothesis.

  \<^bold>\<open>The allocator.\<close> Theory Buddy has every function of \<open>buddy.c\<close> on an explicit heap of nodes: each access to a node
  is a \<open>load\<close> or \<open>store\<close> that faults on a pointer that is null or freed. Theory Buddy_Tree has the tree
  without pointers and reference operations on it. Theory Buddy_Refine proves the simulation: each operation of the
  heap implements the reference one and says which cells it changed. Theory Buddy_Pages states the contract of
  an allocator as the locale \<open>page_allocator\<close> (pages are disjoint and inside the pool, \<open>alloc\<close> adds one,
  \<open>release\<close> removes one) and interprets it on the model of \<open>buddy.c\<close>. Theory Buddy_Props has the properties of
  the entry points, theory Buddy_Test the checks of \<open>buddy_test.c\<close> and its 19 scenarios, for every \<open>malloc\<close> that can
  serve them.
  Bounds: recursion carries the stack frames left, and 31 are enough, as the size of the pool is a power of two
  in the range of \<open>int\<close> and each level halves it; a split path needs at most 31 times two nodes, so room
  for 62 nodes lets every allocation return.

  \<^bold>\<open>The device.\<close> Theory Vmm has the globals, the \<open>ioctl\<close> handler with its loops, load, unload and the
  wrappers and \<open>main\<close> of \<open>vmm_test.c\<close>; theory Vmm_Props shows what each call does on the contract of the
  allocator, the invariant over all sequences of calls, and the two ways in which a call leaves the pool.

  \<^bold>\<open>The driver.\<close> Theory Loopback has the Ethernet header, the rewriting of the packet, the transmit handler, load and
  unload, and the table of operations; theory Loopback_Props shows what is delivered, that a packet that crosses twice comes
  back unchanged, and that the checksum verifies. Theory Loopback_Traffic runs sequences of operations from load to unload and
  shows that the driver is a wire between its two devices.

  \<^bold>\<open>The file system.\<close> Theory Bbfs has every handler of \<open>bb_oper\<close> and \<open>main\<close> over an abstract world of system calls, with
  every message it writes to its log as an entry; theory Bbfs_Log shows that the log accounts for every request and every error;
  theory Bbfs_Props shows the round trip of the cipher (the locale \<open>byte_cipher\<close>, interpreted on \<open>encrypt\<close> and \<open>decrypt\<close>), the
  error convention of the table, the path buffer, and the loops over attributes and directory entries.
  The loop of \<open>bb_readdir\<close> carries the number of its iterations, and the theorem shows how many are enough.
  Theory Log has the text \<open>log.c\<close> writes about the four structures, with its number formats; theory Log_Props reads the
  structures back from it.

  \<^bold>\<open>The streams.\<close> Theory Streams has the data, \<open>init_stream\<close>, \<open>stream_connect\<close>, \<open>stream_disconnect\<close>, and \<open>get\<close> and \<open>put\<close> as
  program counters that advance one turn at a time, so that runs are all interleavings. A
  condition wait gives the lock back and may wake up at any time, as POSIX allows.
  Theory Token_Queue states what a reader relies on as the locale \<open>token_stream\<close> (what it has taken is a first part of what was
  put, and is at most a buffer behind); Streams_Props and Streams_Many interpret it on the streams.
  Theory Streams_Props: one consumer, a reliable bounded queue. Theory Streams_Many: any number of consumers,
  as long as none is five tokens ahead of another one. Theory Streams_Sharing: mutual exclusion, progress, and a
  schedule that breaks a stream of two consumers. Theory Streams_Links: the doubly linked list of
  connections. Theory Streams_Threads: the bodies of the threads as the sequence of their calls, and
  \<open>main.c\<close>. Theory Streams_Main: an invariant of each body (what it has put is a function of what it has
  got), which with the invariants of the four streams gives what \<open>main.c\<close> prints; a schedule that finishes, and one in
  which the output is wrong. In Streams_Many the stream is also shown to refine the queue of Token_Queue, turn by turn, for each consumer.
  Theory Streams_Tests has the programs under \<open>tests\<close>: five start \<open>successor\<close> and \<open>consumer\<close> threads, in two the main thread itself
  consumes, disconnects and reconnects (a list of its calls). Theory Streams_Wiring shows which cells any sequence of connections
  builds; Streams_Tests_Props what the consumers of the five receive, for any numbers of threads and any
  connections. In the other two \<open>stream_disconnect\<close> and \<open>stream_connect\<close>, which take no lock, run one access at a time: the search with the
  unlinking and \<open>num_consumers--\<close>, then the test, the load and the store of each read count, at last the \<open>free\<close>. Theory Streams_Sessions shows
  that these turns, undisturbed, are the \<open>stream_disconnect\<close> of theory Streams, and what \<open>consume_non_threaded.c\<close> prints; Streams_Reconnect where
  \<open>disconnect_reconnect.c\<close> faults under every schedule, that it gets there with the right output when nothing disturbs its disconnect (by a
  rank that some turn lowers), and a run in which a token put during the disconnect stops it; Streams_Strands that disconnecting a consumer that
  is behind stops a full stream of two. Theories Gui and Gui_Props: the window, what its entries show, and how much fits in them. The loop of \<open>stream_disconnect\<close> goes once through the list, so the number of cells is fuel
  enough (shown in Streams_Links). Theory Gui_Window has the calls \<open>init_window\<close> makes to GTK, and what is in the window.

  \<^bold>\<open>Signals and endings.\<close> Theory Streams_Signals adds the condition variables: a thread that waits is asleep, in the wait set of its
  stream's notifier, until a \<open>pthread_cond_signal\<close> wakes it; which sleeper a signal wakes is a choice of the schedule. Its runs are runs of
  theory Streams. Theory Streams_Moves states what a program on streams is as the locale \<open>thread_program\<close> (an invariant, and whose calls the
  threads make) and shows there that the holder of a lock moves; Streams_Wakeups that no signal is lost on a stream with at most two
  readers; Streams_Total, on \<open>thread_program\<close> and the locale \<open>pair_program\<close> that extends it by this limit, that every turn raises a
  measure of the work done and that some thread that is awake can move whenever one could. The locales are interpreted on \<open>main.c\<close> in
  Streams_Deadlock and on the tests in Streams_Joins, so that their ends are left to counting tokens. Streams_Endings: \<open>main.c\<close> ends;
  Streams_Joins: the tests with at most two consumers for each successor end; Streams_Lost: with three, a signal can be lost and \<open>one_to_many.c\<close> hangs.
  Bounds: a token that goes in or out of a stream costs at most 8 of the measure (the five steps of a call, going to sleep,
  and the two by which a signal sets a sleeper back); \<open>main.c\<close> moves at most 136 tokens on five connections and four streams, which
  leaves 1124 turns, and a test at most 10 on each connection and 15 on each stream, 84 and 124 turns.

  \<^bold>\<open>The battery monitor.\<close> Theory Battcheck has the extraction of ACPI packages, the walk over the devices, the
  monitoring thread, the \<open>/proc\<close> entry, load and unload. The walk ends when ACPI says so: it is a
  partial function, and its termination is a theorem about enumerations that end. The thread runs over a list of what
  ACPI answers in each pass, so it ends when the list does, as the thread ends when it is asked to stop.
  Theory Battcheck_Props: extraction, the percentage, the division by zero, and the reports of a run against the sequence
  of readings. Theory Battcheck_Module: the \<open>/proc\<close> line, the walk, the types of all fields in every reachable
  state, and the memory that unloading leaves behind.

  \<^bold>\<open>Findings the theorems carry\<close>: an allocation of 0 bytes recurses without end; a write may pass the end of its page by one
  byte; \<open>bb_truncate\<close> and \<open>bb_fsync\<close> report every failure as \<open>EPERM\<close>; a long path overruns the buffer; a consumer five
  tokens ahead reads old tokens again, which \<open>main.c\<close> can reach; with three consumers a signal can wake the wrong one, and all
  threads block; disconnecting the first or last producer leaves a
  dangling pointer, through which \<open>disconnect_reconnect.c\<close> writes when it connects again, disconnecting a slow consumer stops
  the stream, and so can a token that is put during a disconnect; the driver's statistics stay 0; a battery without \<open>_BIF\<close> makes the monitor divide by zero; the 37th token
  overruns the text of the window.

  \<^bold>\<open>Not modelled.\<close> Text that only goes to a terminal or the kernel log (\<open>printk\<close> in the device and the driver, \<open>tprintf\<close>, the
  banners of the tests), sleeping and the delays of the threads, addresses and the time of day in the log of \<open>bbfs.c\<close> (an entry has the
  other values of its message; the text about structures is in theory Log), what GTK makes of the calls of \<open>init_window\<close>,
  and \<open>print_buffers\<close> of \<open>disconnect_reconnect.c\<close>, which is never called. \<open>pthread_cancel\<close> of the other threads ends a program.
  Overflow of the tokens' \<open>int\<close> in the streams is not modelled: the programs end after ten tokens or the window is full before.
  The two programs whose main thread consumes run in the semantics with spurious wake-ups only. All programs make their
  connections before they start a thread, and these calls of \<open>stream_connect\<close> are one step; only \<open>disconnect_reconnect.c\<close> calls it again later. A new cell has an address that
  was never used: whether \<open>malloc\<close> hands a freed one out again does not matter, as a pointer to a freed object is no longer valid in C. The results
  of \<open>pread\<close> and \<open>pwrite\<close> and the user ids in \<open>bbfs.c\<close> are compared as plain integers. A received packet keeps the Ethernet header
  that \<open>eth_type_trans\<close> pulls. \<open>sprintf\<close> into one of its own arguments (\<open>gui.c\<close>, \<open>battcheck.c\<close>) appends, as the programs expect. When the pool of
  \<open>buddy_init\<close> cannot be allocated the model keeps the old bytes with length 0: every access to them is a fault.
\<close>

end
